(* ===== verification/Lab_Prelude.thy ===== *)
theory Lab_Prelude
  imports Main "HOL-Library.Monad_Syntax" "HOL-Library.Multiset"
begin

text \<open>
  The vocabulary shared by every component.

  A Go operation that may panic (a nil pointer is dereferenced, a slice is indexed out of
  its range, a type assertion fails) is a function into \<open>option\<close> whose value \<open>None\<close> is the
  panic; such operations are composed with the \<open>do\<close> notation, so that a panic inside a
  callee is a panic of its caller. Go's \<open>int\<close> is \<open>int\<close>, a slice is a list, a
  \<open>map\<close> is a partial function.

  The theory also states the contract of \<open>sort.Sort\<close> as a locale and provides the
  insertion sort that meets it.
\<close>

named_theorems go_eval \<open>equations that execute a model on a concrete input\<close>

type_synonym ptr = "nat option"

section \<open>Slices\<close>

text \<open>Reading and writing \<open>xs[i]\<close>: an index outside the slice panics.\<close>

definition slice_get :: "'a list \<Rightarrow> nat \<Rightarrow> 'a option" where
  "slice_get xs i = (if i < length xs then Some (xs ! i) else None)"

definition slice_set :: "'a list \<Rightarrow> nat \<Rightarrow> 'a \<Rightarrow> 'a list option" where
  "slice_set xs i v = (if i < length xs then Some (xs[i := v]) else None)"

text \<open>\<open>copy(dst, src)\<close> overwrites the first elements of \<open>dst\<close>, as many as both slices have.\<close>

definition go_copy :: "'a list \<Rightarrow> 'a list \<Rightarrow> 'a list" where
  "go_copy dst src = take (length dst) src @ drop (length src) dst"

text \<open>Reading \<open>m[k]\<close>: a missing key reads as the zero value of the element type.\<close>

definition map_read :: "'a \<Rightarrow> ('k \<rightharpoonup> 'a) \<Rightarrow> 'k \<Rightarrow> 'a" where
  "map_read zero m k = (case m k of Some v \<Rightarrow> v | None \<Rightarrow> zero)"

text \<open>How a call does not return: a panic, \<open>log.Fatal\<close>, and the failure of a test with \<open>t.Fatal\<close>.\<close>

datatype go_error = GoPanic | LogFatal | TestFatal

text \<open>The conversion \<open>uint(i)\<close> of a Go \<open>int\<close> on a 64-bit machine.\<close>

definition to_uint :: "int \<Rightarrow> nat" where
  "to_uint i = nat (i mod 2 ^ 64)"

lemma map_read_upd [simp]: "map_read zero (m(k \<mapsto> v)) k' = (if k' = k then v else map_read zero m k')"
  by (simp add: map_read_def)

lemma map_read_empty [simp]: "map_read zero Map.empty k = zero"
  by (simp add: map_read_def)

lemma slice_get_Some [simp]: "i < length xs \<Longrightarrow> slice_get xs i = Some (xs ! i)"
  by (simp add: slice_get_def)

lemma slice_set_Some [simp]: "i < length xs \<Longrightarrow> slice_set xs i v = Some (xs[i := v])"
  by (simp add: slice_set_def)

lemma slice_get_eq_Some_iff: "slice_get xs i = Some v \<longleftrightarrow> i < length xs \<and> xs ! i = v"
  by (auto simp: slice_get_def)

lemma slice_set_eq_Some_iff: "slice_set xs i v = Some ys \<longleftrightarrow> i < length xs \<and> ys = xs[i := v]"
  by (auto simp: slice_set_def)

lemma length_go_copy [simp]: "length (go_copy dst src) = length dst"
  by (simp add: go_copy_def)

lemma go_copy_all: "length dst = length src \<Longrightarrow> go_copy dst src = src"
  by (simp add: go_copy_def)

lemma to_uint_nonneg: "0 \<le> i \<Longrightarrow> i < 2 ^ 64 \<Longrightarrow> to_uint i = nat i"
  by (simp add: to_uint_def)

section \<open>Loops and errors\<close>

text \<open>A loop over a slice whose body may panic.\<close>

primrec for_each :: "('a \<Rightarrow> 's \<Rightarrow> 's option) \<Rightarrow> 'a list \<Rightarrow> 's \<Rightarrow> 's option" where
  "for_each body [] s = Some s"
| "for_each body (x # xs) s = Option.bind (body x s) (for_each body xs)"

text \<open>Sequencing of operations that end with an error, and a panic as an error.\<close>

definition res_bind :: "'e + 'a \<Rightarrow> ('a \<Rightarrow> 'e + 'b) \<Rightarrow> 'e + 'b" where
  "res_bind m f = (case m of Inl e \<Rightarrow> Inl e | Inr x \<Rightarrow> f x)"

definition panics :: "'a option \<Rightarrow> go_error + 'a" where
  "panics m = (case m of None \<Rightarrow> Inl GoPanic | Some x \<Rightarrow> Inr x)"

primrec for_each_res :: "('a \<Rightarrow> 's \<Rightarrow> 'e + 's) \<Rightarrow> 'a list \<Rightarrow> 's \<Rightarrow> 'e + 's" where
  "for_each_res body [] s = Inr s"
| "for_each_res body (x # xs) s = res_bind (body x s) (for_each_res body xs)"

lemma res_bind_simps [simp]: "res_bind (Inl e) f = Inl e" "res_bind (Inr x) f = f x"
  by (simp_all add: res_bind_def)

lemma panics_simps [simp]: "panics None = Inl GoPanic" "panics (Some x) = Inr x"
  by (simp_all add: panics_def)

lemma res_bind_Inr_iff: "res_bind m f = Inr y \<longleftrightarrow> (\<exists>x. m = Inr x \<and> f x = Inr y)"
  by (cases m) auto

lemma panics_Inr_iff: "panics m = Inr y \<longleftrightarrow> m = Some y"
  by (cases m) auto

lemma for_each_append: "for_each body (xs @ ys) s = Option.bind (for_each body xs s) (for_each body ys)"
  by (induction xs arbitrary: s) (auto split: bind_splits)

lemma for_each_res_append: "for_each_res body (xs @ ys) s = res_bind (for_each_res body xs s) (for_each_res body ys)"
  by (induction xs arbitrary: s) (auto simp: res_bind_def split: sum.splits)

lemma for_each_cong:
  assumes "xs = ys" and "\<And>x s. x \<in> set ys \<Longrightarrow> f x s = g x s"
  shows "for_each f xs s = for_each g ys s"
proof -
  have "for_each f ys s = for_each g ys s" using assms(2)
  proof (induction ys arbitrary: s)
    case (Cons y ys)
    then show ?case by (cases "g y s") auto
  qed simp
  with assms(1) show ?thesis by simp
qed

lemma for_each_inv:
  assumes "for_each body xs s = Some s'" and "P s"
    and "\<And>x s s'. x \<in> set xs \<Longrightarrow> P s \<Longrightarrow> body x s = Some s' \<Longrightarrow> P s'"
  shows "P s'"
  using assms by (induction xs arbitrary: s) (auto simp: bind_eq_Some_conv)

lemma for_each_res_inv:
  assumes "for_each_res body xs s = Inr s'" and "P s"
    and "\<And>x s s'. x \<in> set xs \<Longrightarrow> P s \<Longrightarrow> body x s = Inr s' \<Longrightarrow> P s'"
  shows "P s'"
  using assms by (induction xs arbitrary: s) (auto simp: res_bind_Inr_iff)

lemma for_each_runs:
  assumes "\<And>x s. P s \<Longrightarrow> x \<in> set xs \<Longrightarrow> \<exists>s'. body x s = Some s' \<and> P s'" and "P s"
  shows "\<exists>s'. for_each body xs s = Some s' \<and> P s'"
  using assms
proof (induction xs arbitrary: s)
  case (Cons x xs)
  then obtain s1 where "body x s = Some s1" "P s1" by fastforce
  with Cons show ?case by simp
qed simp

lemma for_each_res_runs:
  assumes "\<And>x s. P s \<Longrightarrow> x \<in> set xs \<Longrightarrow> \<exists>s'. body x s = Inr s' \<and> P s'" and "P s"
  shows "\<exists>s'. for_each_res body xs s = Inr s' \<and> P s'"
  using assms
proof (induction xs arbitrary: s)
  case (Cons x xs)
  then obtain s1 where "body x s = Inr s1" "P s1" by fastforce
  with Cons show ?case by simp
qed simp

section \<open>sort.Sort\<close>

text \<open>
  \<open>sort.Sort\<close> promises a permutation of its argument in which no element is \<open>Less\<close> than
  one that stands before it; it does not promise stability. Code that sorts is modelled with
  the sorting function as a parameter that meets this contract.
\<close>

definition sorts_by :: "('a \<Rightarrow> 'a \<Rightarrow> bool) \<Rightarrow> ('a list \<Rightarrow> 'a list) \<Rightarrow> bool" where
  "sorts_by lt srt \<longleftrightarrow> (\<forall>xs. mset (srt xs) = mset xs \<and> sorted_wrt (\<lambda>a b. \<not> lt b a) (srt xs))"

locale go_sort =
  fixes lt :: "'a \<Rightarrow> 'a \<Rightarrow> bool"
    and srt :: "'a list \<Rightarrow> 'a list"
  assumes srt_mset: "mset (srt xs) = mset xs"
    and srt_sorted: "sorted_wrt (\<lambda>a b. \<not> lt b a) (srt xs)"
begin

lemma srt_set: "set (srt xs) = set xs"
  using srt_mset by (rule mset_eq_setD)

lemma srt_length: "length (srt xs) = length xs"
  using srt_mset by (rule mset_eq_length)

lemma srt_distinct: "distinct (map f (srt xs)) \<longleftrightarrow> distinct (map f xs)"
  using srt_mset by (metis distinct_count_atmost_1 mset_map mset_eq_imp_distinct_iff)

lemma srt_nth_less:
  assumes "i < j" and "j < length xs"
  shows "\<not> lt (srt xs ! j) (srt xs ! i)"
  using srt_sorted [of xs] assms srt_length [of xs] by (simp add: sorted_wrt_iff_nth_less)

text \<open>An element that is \<open>Less\<close> than another stands before it.\<close>

lemma srt_before:
  assumes "lt (srt xs ! i) (srt xs ! j)" and "\<not> lt (srt xs ! j) (srt xs ! i)"
    and "i < length xs" and "j < length xs"
  shows "i < j"
  using assms srt_nth_less by (metis linorder_neqE_nat)

end

lemma sorts_by_iff: "sorts_by lt srt \<longleftrightarrow> go_sort lt srt"
  by (auto simp: sorts_by_def go_sort_def)

text \<open>Insertion sort, which Go's \<open>sort.Sort\<close> runs on slices of at most twelve elements.\<close>

primrec insert_by :: "('a \<Rightarrow> 'a \<Rightarrow> bool) \<Rightarrow> 'a \<Rightarrow> 'a list \<Rightarrow> 'a list" where
  "insert_by lt x [] = [x]"
| "insert_by lt x (y # ys) = (if lt y x then y # insert_by lt x ys else x # y # ys)"

primrec sort_by :: "('a \<Rightarrow> 'a \<Rightarrow> bool) \<Rightarrow> 'a list \<Rightarrow> 'a list" where
  "sort_by lt [] = []"
| "sort_by lt (x # xs) = insert_by lt x (sort_by lt xs)"

lemma mset_insert_by [simp]: "mset (insert_by lt x ys) = add_mset x (mset ys)"
  by (induction ys) auto

lemma mset_sort_by [simp]: "mset (sort_by lt xs) = mset xs"
  by (induction xs) auto

lemma set_insert_by [simp]: "set (insert_by lt x ys) = insert x (set ys)"
  by (metis mset_insert_by set_mset_add_mset_insert set_mset_mset)

text \<open>The comparisons of this repository are strict weak orders.\<close>

definition strict_weak :: "('a \<Rightarrow> 'a \<Rightarrow> bool) \<Rightarrow> bool" where
  "strict_weak lt \<longleftrightarrow> (\<forall>a b. lt a b \<longrightarrow> \<not> lt b a) \<and>
     (\<forall>a b c. \<not> lt a b \<longrightarrow> \<not> lt b c \<longrightarrow> \<not> lt a c)"

lemma strict_weak_asym:
  assumes "strict_weak lt" and "lt a b"
  shows "\<not> lt b a"
  using assms(2) conjunct1 [OF assms(1) [unfolded strict_weak_def]] by blast

lemma strict_weak_trans:
  assumes "strict_weak lt" and "\<not> lt a b" and "\<not> lt b c"
  shows "\<not> lt a c"
  using conjunct2 [OF assms(1) [unfolded strict_weak_def], rule_format, OF assms(2,3)] .

lemma sorted_insert_by:
  assumes "strict_weak lt" and "sorted_wrt (\<lambda>a b. \<not> lt b a) ys"
  shows "sorted_wrt (\<lambda>a b. \<not> lt b a) (insert_by lt x ys)"
  using assms(2)
proof (induction ys)
  case (Cons y ys)
  show ?case
  proof (cases "lt y x")
    case True
    with Cons show ?thesis using strict_weak_asym [OF assms(1)] by simp
  next
    case False
    then have "\<forall>z \<in> set ys. \<not> lt z x"
      using Cons.prems strict_weak_trans [OF assms(1)] by (meson sorted_wrt.simps(2))
    with False Cons.prems show ?thesis by simp
  qed
qed simp

lemma sorted_sort_by: "strict_weak lt \<Longrightarrow> sorted_wrt (\<lambda>a b. \<not> lt b a) (sort_by lt xs)"
  by (induction xs) (auto intro: sorted_insert_by)

lemma sort_by_sorts: "strict_weak lt \<Longrightarrow> sorts_by lt (sort_by lt)"
  by (simp add: sorts_by_def sorted_sort_by)

section \<open>Lists\<close>

text \<open>Positions before which no element satisfies a predicate.\<close>

lemma filter_split_first:
  assumes "\<exists>x \<in> set xs. P x"
  obtains us x vs where "xs = us @ x # vs" and "P x" and "\<forall>u \<in> set us. \<not> P u"
  using split_list_first_prop [OF assms] by blast

lemma filter_neq_id [simp]: "x \<notin> set xs \<Longrightarrow> filter (\<lambda>y. y \<noteq> x) xs = xs"
  by (induction xs) auto

lemma distinct_filter_split:
  assumes "distinct (us @ x # vs)"
  shows "filter (\<lambda>y. y \<noteq> x) (us @ x # vs) = us @ vs"
  using assms by simp

text \<open>Selecting one block of a concatenation by the key of its elements.\<close>

lemma filter_concat_key:
  assumes "distinct ks" and "\<And>k x. k \<in> set ks \<Longrightarrow> x \<in> set (g k) \<Longrightarrow> f x = k"
  shows "filter (\<lambda>x. f x = k) (concat (map g ks)) = (if k \<in> set ks then g k else [])"
  using assms
proof (induction ks)
  case (Cons k' ks)
  then have rest: "filter (\<lambda>x. f x = k) (concat (map g ks)) = (if k \<in> set ks then g k else [])" by simp
  have "filter (\<lambda>x. f x = k) (g k') = (if k' = k then g k' else [])"
    using Cons.prems(2) by (auto simp: filter_empty_conv filter_id_conv)
  with rest Cons.prems(1) show ?case by auto
qed simp

end
