(* ===== verification/Bitset.thy ===== *)
theory Bitset
  imports Lab_Prelude "HOL-Library.Word"
begin

unbundle bit_operations_syntax

text \<open>
  \<open>porcupine/bitset.go\<close>: a set of small numbers as a slice of 64-bit words. The checker
  keeps the set of operations it has linearized in one, and uses its hash as the key of its
  cache.

  A bitset is a list of \<open>64 word\<close>; \<open>bits\<close> reads it as the set it stands for. The methods
  \<open>set\<close> and \<open>clear\<close> write into the slice and return it: they are functions to the new slice,
  and \<open>None\<close> when the position is outside the slice, where the Go code panics.
  The lemmas show that each method is the set operation it stands for, that \<open>equals\<close> decides
  equality of the sets, and that equal bitsets have equal hashes. They discharge the locale
  \<open>finite_set_impl\<close>, the contract on which the checker relies.
\<close>

section \<open>The operations\<close>

type_synonym bitset = "64 word list"

definition newBitset :: "nat \<Rightarrow> bitset" where
  "newBitset bs =
     (let extra = (if bs mod 64 \<noteq> 0 then 1 else 0);
          chunks = bs div 64 + extra
      in replicate chunks 0)"

definition bitset_clone :: "bitset \<Rightarrow> bitset" where
  "bitset_clone b =
     (let dataCopy = replicate (length b) 0 in go_copy dataCopy b)"

definition bitsetIndex :: "nat \<Rightarrow> nat \<times> nat" where
  "bitsetIndex pos = (pos div 64, pos mod 64)"

definition bitset_set :: "bitset \<Rightarrow> nat \<Rightarrow> bitset option" where
  "bitset_set b pos =
     (let (major, minor) = bitsetIndex pos
      in do { w \<leftarrow> slice_get b major; slice_set b major (w OR push_bit minor 1) })"

definition bitset_clear :: "bitset \<Rightarrow> nat \<Rightarrow> bitset option" where
  "bitset_clear b pos =
     (let (major, minor) = bitsetIndex pos
      in do { w \<leftarrow> slice_get b major; slice_set b major (w AND NOT (push_bit minor 1)) })"

definition bitset_get :: "bitset \<Rightarrow> nat \<Rightarrow> bool option" where
  "bitset_get b pos =
     (let (major, minor) = bitsetIndex pos
      in do { w \<leftarrow> slice_get b major; Some (w AND push_bit minor 1 \<noteq> 0) })"

text \<open>\<open>bits.OnesCount64\<close> of the standard library.\<close>

definition OnesCount64 :: "64 word \<Rightarrow> nat" where
  "OnesCount64 w = length (filter (bit w) [0..<64])"

primrec popcnt_from :: "nat \<Rightarrow> bitset \<Rightarrow> nat" where
  "popcnt_from tot [] = tot"
| "popcnt_from tot (v # b) = popcnt_from (tot + OnesCount64 v) b"

definition bitset_popcnt :: "bitset \<Rightarrow> nat" where
  "bitset_popcnt b = popcnt_from 0 b"

primrec hash_from :: "64 word \<Rightarrow> bitset \<Rightarrow> 64 word" where
  "hash_from hash [] = hash"
| "hash_from hash (v # b) = hash_from (hash XOR v) b"

definition bitset_hash :: "bitset \<Rightarrow> 64 word" where
  "bitset_hash b = hash_from (word_of_nat (bitset_popcnt b)) b"

definition bitset_equals :: "bitset \<Rightarrow> bitset \<Rightarrow> bool" where
  "bitset_equals b b2 =
     (if length b \<noteq> length b2 then False
      else list_all (\<lambda>i. \<not> (b ! i \<noteq> b2 ! i)) [0..<length b])"

section \<open>The set a bitset stands for\<close>

definition bits :: "bitset \<Rightarrow> nat set" where
  "bits b = {i. i < 64 * length b \<and> bit (b ! (i div 64)) (i mod 64)}"

lemma bits_subset: "bits b \<subseteq> {..<64 * length b}"
  by (auto simp: bits_def)

lemma finite_bits [simp]: "finite (bits b)"
  using bits_subset by (rule finite_subset) simp

lemma bits_new [simp]: "bits (newBitset n) = {}"
  by (auto simp: bits_def newBitset_def Let_def)

lemma length_newBitset: "n \<le> 64 * length (newBitset n)"
  by (simp add: newBitset_def Let_def) presburger

lemma newBitset_bounds: "64 * length (newBitset n) < n + 64"
  by (simp add: newBitset_def Let_def) presburger

lemma bitset_clone_id [simp]: "bitset_clone b = b"
  by (simp add: bitset_clone_def go_copy_all)

lemma index_less_iff: "pos < 64 * length (b :: bitset) \<longleftrightarrow> pos div 64 < length b"
  by (simp add: div_less_iff_less_mult mult.commute)

lemma bits_iff: "i \<in> bits b \<longleftrightarrow> i div 64 < length b \<and> bit (b ! (i div 64)) (i mod 64)"
  by (simp add: bits_def index_less_iff)

lemma bit_set_word [simp]: "n < 64 \<Longrightarrow>
    bit ((w :: 64 word) OR 2 ^ m) n \<longleftrightarrow> bit w n \<or> n = m"
  by (auto simp: bit_or_iff bit_exp_iff)

lemma bit_clear_word [simp]: "n < 64 \<Longrightarrow>
    bit ((w :: 64 word) AND NOT (2 ^ m)) n \<longleftrightarrow> bit w n \<and> n \<noteq> m"
  by (auto simp: bit_and_iff bit_not_iff bit_exp_iff)

lemma div_mod_eq_iff: "(i :: nat) = p \<longleftrightarrow> i div 64 = p div 64 \<and> i mod 64 = p mod 64"
  by (metis div_mult_mod_eq)

lemma bits_update:
  assumes "pos div 64 < length b"
    and "\<And>n. n < 64 \<Longrightarrow> bit w n \<longleftrightarrow> Q (bit (b ! (pos div 64)) n) n"
  shows "i \<in> bits (b[pos div 64 := w]) \<longleftrightarrow>
    (if i div 64 = pos div 64 then Q (i \<in> bits b) (i mod 64) else i \<in> bits b)"
  using assms by (simp add: bits_iff nth_list_update)

lemma bitset_set_Some:
  assumes "pos < 64 * length b"
  obtains b' where "bitset_set b pos = Some b'" and "length b' = length b"
    and "bits b' = insert pos (bits b)"
proof -
  let ?b' = "b[pos div 64 := b ! (pos div 64) OR 2 ^ (pos mod 64)]"
  from assms have pos: "pos div 64 < length b" by (simp add: index_less_iff)
  then have "bitset_set b pos = Some ?b'" by (simp add: bitset_set_def bitsetIndex_def)
  moreover have "i \<in> bits ?b' \<longleftrightarrow> i \<in> insert pos (bits b)" for i
    using bits_update [OF pos, where Q = "\<lambda>old n. old \<or> n = pos mod 64"] div_mod_eq_iff [of i pos]
    by auto
  then have "bits ?b' = insert pos (bits b)" by blast
  ultimately show thesis using that by simp
qed

lemma bitset_clear_Some:
  assumes "pos < 64 * length b"
  obtains b' where "bitset_clear b pos = Some b'" and "length b' = length b"
    and "bits b' = bits b - {pos}"
proof -
  let ?b' = "b[pos div 64 := b ! (pos div 64) AND NOT (2 ^ (pos mod 64))]"
  from assms have pos: "pos div 64 < length b" by (simp add: index_less_iff)
  then have "bitset_clear b pos = Some ?b'" by (simp add: bitset_clear_def bitsetIndex_def)
  moreover have "i \<in> bits ?b' \<longleftrightarrow> i \<in> bits b - {pos}" for i
    using bits_update [OF pos, where Q = "\<lambda>old n. old \<and> n \<noteq> pos mod 64"] div_mod_eq_iff [of i pos]
    by auto
  then have "bits ?b' = bits b - {pos}" by blast
  ultimately show thesis using that by simp
qed

lemma bitset_get_iff:
  assumes "pos < 64 * length b"
  shows "bitset_get b pos = Some (pos \<in> bits b)"
  using assms
  by (simp add: bitset_get_def bitsetIndex_def bits_iff index_less_iff and_exp_eq_0_iff_not_bit)

text \<open>Outside the slice every access panics.\<close>

lemma bitset_out_of_range:
  assumes "64 * length b \<le> pos"
  shows "bitset_set b pos = None" and "bitset_clear b pos = None" and "bitset_get b pos = None"
proof -
  have "\<not> pos div 64 < length b"
    using assms by (simp flip: index_less_iff)
  then show "bitset_set b pos = None" and "bitset_clear b pos = None"
    and "bitset_get b pos = None"
    by (simp_all add: bitset_set_def bitset_clear_def bitset_get_def bitsetIndex_def slice_get_def)
qed

section \<open>Equality, population count and hash\<close>

lemma bitset_equals_iff: "bitset_equals b b2 \<longleftrightarrow> b = b2"
  by (auto simp: bitset_equals_def list_all_iff intro: nth_equalityI)

lemma bits_inject:
  assumes "length b = length b2" and "bits b = bits b2"
  shows "b = b2"
proof (rule nth_equalityI [OF assms(1)])
  fix i assume i: "i < length b"
  show "b ! i = b2 ! i"
  proof (rule bit_word_eqI)
    fix n :: nat assume n: "n < LENGTH(64)"
    have "64 * i + n \<in> bits b \<longleftrightarrow> 64 * i + n \<in> bits b2"
      using assms(2) by simp
    with i n assms(1) show "bit (b ! i) n = bit (b2 ! i) n"
      by (simp add: bits_def)
  qed
qed

lemma popcnt_from_eq: "popcnt_from t b = t + sum_list (map OnesCount64 b)"
  by (induction b arbitrary: t) auto

lemma OnesCount64_card: "OnesCount64 w = card {n. n < 64 \<and> bit w n}"
proof -
  have "OnesCount64 w = card (set (filter (bit w) [0..<64]))"
    unfolding OnesCount64_def by (rule distinct_card [symmetric]) simp
  also have "set (filter (bit w) [0..<64]) = {n. n < 64 \<and> bit w n}" by auto
  finally show ?thesis .
qed

lemma bits_Cons: "bits (w # b) = {n. n < 64 \<and> bit w n} \<union> (+) 64 ` bits b"
proof (rule set_eqI)
  fix i
  show "i \<in> bits (w # b) \<longleftrightarrow> i \<in> {n. n < 64 \<and> bit w n} \<union> (+) 64 ` bits b"
  proof (cases "i < 64")
    case True
    then show ?thesis by (auto simp: bits_def)
  next
    case False
    then obtain j where j: "i = 64 + j" by (metis le_iff_add not_less)
    have "(64 + j) div 64 = Suc (j div 64)" by simp
    with j show ?thesis by (auto simp: bits_iff)
  qed
qed

lemma popcnt_card: "bitset_popcnt b = card (bits b)"
proof -
  have "sum_list (map OnesCount64 b) = card (bits b)"
  proof (induction b)
    case Nil
    then show ?case by (simp add: bits_def)
  next
    case (Cons w b)
    have "card (bits (w # b)) = card {n. n < 64 \<and> bit w n} + card ((+) 64 ` bits b)"
      unfolding bits_Cons by (intro card_Un_disjoint) auto
    with Cons show ?case by (simp add: OnesCount64_card card_image)
  qed
  then show ?thesis by (simp add: bitset_popcnt_def popcnt_from_eq)
qed

section \<open>The contract the checker relies on\<close>

locale finite_set_impl =
  fixes empty_set :: "nat \<Rightarrow> 'b"
    and add :: "'b \<Rightarrow> nat \<Rightarrow> 'b option"
    and del :: "'b \<Rightarrow> nat \<Rightarrow> 'b option"
    and eq :: "'b \<Rightarrow> 'b \<Rightarrow> bool"
    and elems :: "'b \<Rightarrow> nat set"
    and room :: "'b \<Rightarrow> nat"
  assumes empty_elems: "elems (empty_set n) = {}"
    and empty_room: "n \<le> room (empty_set n)"
    and add_ok: "p < room b \<Longrightarrow>
      \<exists>b'. add b p = Some b' \<and> room b' = room b \<and> elems b' = insert p (elems b)"
    and del_ok: "p < room b \<Longrightarrow>
      \<exists>b'. del b p = Some b' \<and> room b' = room b \<and> elems b' = elems b - {p}"
    and eq_iff: "eq b b2 \<longleftrightarrow> b = b2"
    and elems_inject: "room b = room b2 \<Longrightarrow> elems b = elems b2 \<Longrightarrow> b = b2"
    and elems_finite: "finite (elems b)"
begin

text \<open>Adding an element that is not in the set and deleting it again gives the set back.\<close>

lemma add_del:
  assumes "p < room b" and "p \<notin> elems b" and "add b p = Some b'"
  shows "del b' p = Some b"
proof -
  from add_ok [OF assms(1)] assms(3) have b': "room b' = room b" "elems b' = insert p (elems b)"
    by auto
  with assms(1) del_ok [of p b'] obtain b'' where
    b'': "del b' p = Some b''" "room b'' = room b'" "elems b'' = elems b' - {p}" by auto
  with b' assms(2) have "b'' = b" by (intro elems_inject) auto
  with b'' show ?thesis by simp
qed

lemma eq_elems: "room b = room b2 \<Longrightarrow> eq b b2 \<longleftrightarrow> elems b = elems b2"
  by (auto simp: eq_iff intro: elems_inject)

end

interpretation bs: finite_set_impl newBitset bitset_set bitset_clear bitset_equals bits
  "\<lambda>b. 64 * length b"
proof unfold_locales
  fix p b
  assume p: "p < 64 * length (b :: bitset)"
  show "\<exists>b'. bitset_set b p = Some b' \<and> 64 * length b' = 64 * length b \<and> bits b' = insert p (bits b)"
    by (rule bitset_set_Some [OF p]) auto
  show "\<exists>b'. bitset_clear b p = Some b' \<and> 64 * length b' = 64 * length b \<and> bits b' = bits b - {p}"
    by (rule bitset_clear_Some [OF p]) auto
qed (auto simp: length_newBitset bitset_equals_iff intro: bits_inject)

section \<open>Properties\<close>

text \<open>
  C36. The bit set is a finite set of naturals: on a position below its capacity \<open>set\<close> inserts,
  \<open>clear\<close> removes and \<open>get\<close> tests membership, the capacity stays, \<open>popcnt\<close> is the cardinality, and two sets
  of one capacity are \<open>equals\<close> exactly when they have the same elements. The words stay 64 bits wide.
\<close>

theorem bitset_refines_set:
  assumes "pos < 64 * length b"
  shows "(\<exists>b'. bitset_set b pos = Some b' \<and> length b' = length b \<and> bits b' = insert pos (bits b)) \<and>
     (\<exists>b'. bitset_clear b pos = Some b' \<and> length b' = length b \<and> bits b' = bits b - {pos}) \<and>
     bitset_get b pos = Some (pos \<in> bits b) \<and> bitset_popcnt b = card (bits b) \<and>
     (\<forall>b2. length b2 = length b \<longrightarrow> (bitset_equals b b2 \<longleftrightarrow> bits b = bits b2))"
  using bitset_set_Some [OF assms] bitset_clear_Some [OF assms] bitset_get_iff [OF assms] popcnt_card
    bs.eq_elems [of b] by metis

theorem bitset_refines_set_witness:
  "bits [4] = {2} \<and> bitset_get [4] 2 = Some (2 \<in> bits [4]) \<and> bitset_popcnt [4] = 1"
proof -
  have bits: "bits [4] = {2}"
  proof -
    have "bits [4] = set (filter (\<lambda>i. bit (4 :: 64 word) i) [0..<64])" by (auto simp: bits_def)
    also have "\<dots> = {2}" by code_simp
    finally show ?thesis .
  qed
  with bitset_refines_set [of 2 "[4]"] show ?thesis by simp
qed

text \<open>
  The capacity of \<open>newBitset\<close> is the requested number of bits rounded up to words, less than one
  word of slack, and every position at or above the capacity panics in \<open>set\<close>, \<open>clear\<close> and \<open>get\<close>.
\<close>

theorem newBitset_capacity:
  "n \<le> 64 * length (newBitset n) \<and> 64 * length (newBitset n) < n + 64 \<and>
   (\<forall>pos. 64 * length (newBitset n) \<le> pos \<longleftrightarrow> bitset_get (newBitset n) pos = None) \<and>
   (\<forall>pos. 64 * length (newBitset n) \<le> pos \<longleftrightarrow> bitset_set (newBitset n) pos = None) \<and>
   (\<forall>pos. 64 * length (newBitset n) \<le> pos \<longleftrightarrow> bitset_clear (newBitset n) pos = None)"
proof -
  have "(64 * length b \<le> pos \<longleftrightarrow> bitset_get b pos = None) \<and> (64 * length b \<le> pos \<longleftrightarrow> bitset_set b pos = None) \<and>
      (64 * length b \<le> pos \<longleftrightarrow> bitset_clear b pos = None)" for b pos
  proof (cases "64 * length b \<le> pos")
    case False
    then have "pos < 64 * length b" by simp
    from False bitset_get_iff [OF this] bitset_set_Some [OF this] bitset_clear_Some [OF this]
    show ?thesis by (metis option.distinct(1))
  qed (simp add: bitset_out_of_range)
  with length_newBitset newBitset_bounds show ?thesis by blast
qed

end
