(* ===== verification/Porcupine_Model.thy ===== *)
theory Porcupine_Model
  imports Lab_Prelude
begin

text \<open>
  \<open>porcupine/model.go\<close> and the first part of \<open>porcupine/checker.go\<close>: operations, events,
  the record of functions a user describes a system with, and the conversion of a history
  into the list of entries that the checker searches.

  An \<open>interface{}\<close> value of a history has the type \<open>'v\<close>, a state of the modelled system the
  type \<open>'s\<close>. The closures of a \<open>Model\<close> come from the user and may panic: \<open>None\<close>. A field of the
  record that may be \<open>nil\<close> is an option.

  The theory then says what linearizability is, once on the time stamps of a history and once
  on a list of entries, and proves that \<open>makeEntries\<close> takes the first to the second.
\<close>

section \<open>Operations, events and models\<close>

record 'v Operation =
  op_ClientId :: int
  op_Input :: 'v
  op_Call :: int
  op_Output :: 'v
  op_Return :: int

datatype EventKind = CallEvent | ReturnEvent

record 'v Event =
  ev_ClientId :: int
  ev_Kind :: EventKind
  ev_Value :: 'v
  ev_Id :: int

record ('v, 's) Model =
  Partition :: "('v Operation list \<Rightarrow> 'v Operation list list option) option"
  PartitionEvent :: "('v Event list \<Rightarrow> 'v Event list list option) option"
  Init :: 's
  Step :: "'s \<Rightarrow> 'v \<Rightarrow> 'v \<Rightarrow> (bool \<times> 's) option"
  Equal :: "('s \<Rightarrow> 's \<Rightarrow> bool) option"
  DescribeOperation :: "('v \<Rightarrow> 'v \<Rightarrow> string option) option"
  DescribeState :: "('s \<Rightarrow> string option) option"

definition NoPartition :: "'v Operation list \<Rightarrow> 'v Operation list list option" where
  "NoPartition history = Some [history]"

definition NoPartitionEvent :: "'v Event list \<Rightarrow> 'v Event list list option" where
  "NoPartitionEvent history = Some [history]"

definition ShallowEqual :: "'s \<Rightarrow> 's \<Rightarrow> bool" where
  "ShallowEqual state1 state2 \<longleftrightarrow> state1 = state2"

text \<open>The formatting verb \<open>%v\<close> of \<open>fmt\<close> on values and on states is a parameter.\<close>

definition DefaultDescribeOperation :: "('v \<Rightarrow> string) \<Rightarrow> 'v \<Rightarrow> 'v \<Rightarrow> string option" where
  "DefaultDescribeOperation fmtv input output = Some (fmtv input @ '' -> '' @ fmtv output)"

definition DefaultDescribeState :: "('s \<Rightarrow> string) \<Rightarrow> 's \<Rightarrow> string option" where
  "DefaultDescribeState fmts st = Some (fmts st)"

datatype CheckResult = Unknown | Ok | Illegal

definition fillDefault ::
  "('v \<Rightarrow> string) \<Rightarrow> ('s \<Rightarrow> string) \<Rightarrow> ('v, 's) Model \<Rightarrow> ('v, 's) Model" where
  "fillDefault fmtv fmts model =
     (let m1 = (if Partition model = None then model\<lparr>Partition := Some NoPartition\<rparr> else model);
          m2 = (if PartitionEvent m1 = None then m1\<lparr>PartitionEvent := Some NoPartitionEvent\<rparr> else m1);
          m3 = (if Equal m2 = None then m2\<lparr>Equal := Some ShallowEqual\<rparr> else m2);
          m4 = (if DescribeOperation m3 = None
                then m3\<lparr>DescribeOperation := Some (DefaultDescribeOperation fmtv)\<rparr> else m3);
          m5 = (if DescribeState m4 = None
                then m4\<lparr>DescribeState := Some (DefaultDescribeState fmts)\<rparr> else m4)
      in m5)"

section \<open>Entries\<close>

datatype entryKind = callEntry | returnEntry

record 'v entry =
  en_kind :: entryKind
  en_value :: 'v
  en_id :: int
  en_time :: int
  en_clientId :: int

definition byTime_Less :: "'v entry \<Rightarrow> 'v entry \<Rightarrow> bool" where
  "byTime_Less a b =
     (if en_time a \<noteq> en_time b then en_time a < en_time b
      else en_kind a = callEntry \<and> en_kind b = returnEntry)"

text \<open>The two entries that \<open>makeEntries\<close> appends for the operation numbered \<open>id\<close>.\<close>

definition op_entries :: "int \<Rightarrow> 'v Operation \<Rightarrow> 'v entry list" where
  "op_entries i elem =
     [\<lparr>en_kind = callEntry, en_value = op_Input elem, en_id = i, en_time = op_Call elem,
       en_clientId = op_ClientId elem\<rparr>,
      \<lparr>en_kind = returnEntry, en_value = op_Output elem, en_id = i, en_time = op_Return elem,
       en_clientId = op_ClientId elem\<rparr>]"

primrec makeEntries_loop :: "'v entry list \<Rightarrow> int \<Rightarrow> 'v Operation list \<Rightarrow> 'v entry list" where
  "makeEntries_loop entries i [] = entries"
| "makeEntries_loop entries i (elem # history) =
     makeEntries_loop (entries @ op_entries i elem) (i + 1) history"

definition makeEntries ::
  "('v entry list \<Rightarrow> 'v entry list) \<Rightarrow> 'v Operation list \<Rightarrow> 'v entry list" where
  "makeEntries srt history = srt (makeEntries_loop [] 0 history)"

primrec renumber_loop ::
  "'v Event list \<Rightarrow> (int \<rightharpoonup> int) \<Rightarrow> int \<Rightarrow> 'v Event list \<Rightarrow> 'v Event list" where
  "renumber_loop e m i [] = e"
| "renumber_loop e m i (v # events) =
     (case m (ev_Id v) of
        Some r \<Rightarrow> renumber_loop (e @ [v\<lparr>ev_Id := r\<rparr>]) m i events
      | None \<Rightarrow> renumber_loop (e @ [v\<lparr>ev_Id := i\<rparr>]) (m(ev_Id v \<mapsto> i)) (i + 1) events)"

definition renumber :: "'v Event list \<Rightarrow> 'v Event list" where
  "renumber events = renumber_loop [] Map.empty 0 events"

primrec convertEntries_loop :: "'v entry list \<Rightarrow> int \<Rightarrow> 'v Event list \<Rightarrow> 'v entry list" where
  "convertEntries_loop entries i [] = entries"
| "convertEntries_loop entries i (elem # events) =
     (let kind = (if ev_Kind elem = ReturnEvent then returnEntry else callEntry)
      in convertEntries_loop
           (entries @ [\<lparr>en_kind = kind, en_value = ev_Value elem, en_id = ev_Id elem,
                        en_time = i, en_clientId = ev_ClientId elem\<rparr>]) (i + 1) events)"

definition convertEntries :: "'v Event list \<Rightarrow> 'v entry list" where
  "convertEntries events = convertEntries_loop [] 0 events"

section \<open>Linearizability\<close>

text \<open>Running the operations of a sequential history; \<open>None\<close> when the model refuses one.\<close>

fun run_ops :: "('v, 's) Model \<Rightarrow> 's \<Rightarrow> ('v \<times> 'v) list \<Rightarrow> 's option" where
  "run_ops m s [] = Some s"
| "run_ops m s ((i, out) # ops) =
     (case Step m s i out of
        Some (ok, s') \<Rightarrow> if ok then run_ops m s' ops else None
      | None \<Rightarrow> None)"

text \<open>
  \<open>lin\<close> is a linearization of the operations \<open>ids\<close> from state \<open>s\<close>: it puts each of them in one
  place, never puts \<open>a\<close> ahead of \<open>b\<close> when \<open>b\<close> had returned before \<open>a\<close> was called, and the
  model accepts the operations in that order.
\<close>

definition linearizes ::
  "('v, 's) Model \<Rightarrow> int set \<Rightarrow> (int \<Rightarrow> int \<Rightarrow> bool) \<Rightarrow> (int \<Rightarrow> 'v) \<Rightarrow> (int \<Rightarrow> 'v) \<Rightarrow> 's \<Rightarrow> int list \<Rightarrow> bool"
where
  "linearizes m ids before inp out s lin \<longleftrightarrow>
     distinct lin \<and> set lin = ids \<and> sorted_wrt (\<lambda>a b. \<not> before b a) lin \<and>
     run_ops m s (map (\<lambda>i. (inp i, out i)) lin) \<noteq> None"

text \<open>A history of operations, by its time stamps.\<close>

definition history_linearizable :: "('v, 's) Model \<Rightarrow> 'v Operation list \<Rightarrow> bool" where
  "history_linearizable m ops \<longleftrightarrow>
     (\<exists>lin. linearizes m {0..<int (length ops)}
        (\<lambda>a b. op_Return (ops ! nat a) < op_Call (ops ! nat b))
        (\<lambda>i. op_Input (ops ! nat i)) (\<lambda>i. op_Output (ops ! nat i)) (Init m) lin)"

text \<open>A list of entries, by the order of the list.\<close>

definition entry_at :: "'v entry list \<Rightarrow> entryKind \<Rightarrow> int \<Rightarrow> nat \<Rightarrow> bool" where
  "entry_at es k i j \<longleftrightarrow> j < length es \<and> en_kind (es ! j) = k \<and> en_id (es ! j) = i"

definition rt_before :: "'v entry list \<Rightarrow> int \<Rightarrow> int \<Rightarrow> bool" where
  "rt_before es a b \<longleftrightarrow>
     (\<exists>k < length es. entry_at es callEntry b k \<and> (\<exists>j < k. entry_at es returnEntry a j))"

definition value_of :: "'v entry list \<Rightarrow> entryKind \<Rightarrow> int \<Rightarrow> 'v" where
  "value_of es k i = en_value (the (find (\<lambda>e. en_kind e = k \<and> en_id e = i) es))"

definition entries_linearize :: "('v, 's) Model \<Rightarrow> 'v entry list \<Rightarrow> int list \<Rightarrow> bool" where
  "entries_linearize m es lin \<longleftrightarrow>
     linearizes m (en_id ` set es) (rt_before es) (value_of es callEntry) (value_of es returnEntry)
       (Init m) lin"

definition linearizable :: "('v, 's) Model \<Rightarrow> 'v entry list \<Rightarrow> bool" where
  "linearizable m es \<longleftrightarrow> (\<exists>lin. entries_linearize m es lin)"

text \<open>
  What the checker expects of its entries: each of the numbers \<open>0, \<dots>, n - 1\<close> has one call
  entry and one return entry, and the call comes first.
\<close>

definition wf_entries :: "'v entry list \<Rightarrow> bool" where
  "wf_entries es \<longleftrightarrow>
     even (length es) \<and>
     distinct (map (\<lambda>e. (en_kind e, en_id e)) es) \<and>
     (\<forall>e \<in> set es. 0 \<le> en_id e \<and> en_id e < int (length es div 2)) \<and>
     (\<forall>k < length es. en_kind (es ! k) = returnEntry \<longrightarrow>
        (\<exists>j < k. entry_at es callEntry (en_id (es ! k)) j))"

text \<open>An operation is timed when it does not return before it is called.\<close>

definition timed :: "'v Operation \<Rightarrow> bool" where
  "timed elem \<longleftrightarrow> op_Call elem \<le> op_Return elem"

section \<open>Facts about runs and linearizations\<close>

lemma run_ops_append:
  "run_ops m s (xs @ ys) = (case run_ops m s xs of None \<Rightarrow> None | Some s' \<Rightarrow> run_ops m s' ys)"
  by (induction m s xs rule: run_ops.induct) (auto split: option.splits)

lemma run_ops_Cons_Some:
  "run_ops m s ((i, out) # ops) \<noteq> None \<longleftrightarrow>
    (\<exists>s'. Step m s i out = Some (True, s') \<and> run_ops m s' ops \<noteq> None)"
  by (auto split: option.splits)

lemma linearizes_cong:
  assumes "ids = ids'"
    and "\<And>a b. a \<in> ids \<Longrightarrow> b \<in> ids \<Longrightarrow> before a b \<longleftrightarrow> before' a b"
    and "\<And>a. a \<in> ids \<Longrightarrow> inp a = inp' a" and "\<And>a. a \<in> ids \<Longrightarrow> out a = out' a"
  shows "linearizes m ids before inp out s lin \<longleftrightarrow> linearizes m ids' before' inp' out' s lin"
proof (cases "distinct lin \<and> set lin = ids")
  case True
  then have ops: "map (\<lambda>i. (inp i, out i)) lin = map (\<lambda>i. (inp' i, out' i)) lin"
    using assms(3,4) by simp
  have "sorted_wrt (\<lambda>a b. \<not> before b a) lin \<longleftrightarrow> sorted_wrt (\<lambda>a b. \<not> before' b a) lin"
    using True assms(2) by (auto intro: sorted_wrt_mono_rel [rotated])
  then show ?thesis unfolding linearizes_def ops assms(1) by (simp only:)
next
  case False
  then show ?thesis using assms(1) by (auto simp: linearizes_def)
qed

section \<open>Facts about entries\<close>

lemma wf_entries_unique:
  assumes "wf_entries es" and "entry_at es k i j" and "entry_at es k i j'"
  shows "j = j'"
proof -
  from assms(1) have "distinct (map (\<lambda>e. (en_kind e, en_id e)) es)" by (simp add: wf_entries_def)
  with assms(2,3) show ?thesis
    by (auto simp: entry_at_def distinct_conv_nth)
qed

text \<open>By counting, every number below \<open>n\<close> has both its entries.\<close>

lemma wf_entries_complete:
  assumes "wf_entries es" and "0 \<le> i" and "i < int (length es div 2)"
  obtains j where "entry_at es k i j"
proof -
  let ?key = "\<lambda>e. (en_kind e, en_id e)" and ?n = "length es div 2"
  let ?all = "UNIV \<times> {0..<int ?n} :: (entryKind \<times> int) set"
  have all: "?all = {callEntry, returnEntry} \<times> {0..<int ?n}" by (auto intro: entryKind.exhaust)
  have "finite ?all" and "card ?all = 2 * ?n"
    unfolding all by (simp_all add: card_cartesian_product)
  moreover have "card (?key ` set es) = length es"
    using assms(1) by (metis distinct_card length_map set_map wf_entries_def)
  moreover have "2 * ?n = length es" using assms(1) by (simp add: wf_entries_def)
  moreover have "?key ` set es \<subseteq> ?all" using assms(1) by (auto simp: wf_entries_def)
  ultimately have "?key ` set es = ?all" by (metis card_subset_eq)
  with assms(2,3) have "(k, i) \<in> ?key ` set es" by auto
  then show thesis using that by (auto simp: entry_at_def in_set_conv_nth)
qed

lemma wf_entries_ids:
  assumes "wf_entries es"
  shows "en_id ` set es = {0..<int (length es div 2)}"
proof
  show "en_id ` set es \<subseteq> {0..<int (length es div 2)}" using assms by (auto simp: wf_entries_def)
  show "{0..<int (length es div 2)} \<subseteq> en_id ` set es"
    using wf_entries_complete [OF assms] by (fastforce simp: entry_at_def)
qed

lemma wf_entries_call_first:
  assumes "wf_entries es" and "entry_at es callEntry i j" and "entry_at es returnEntry i k"
  shows "j < k"
proof -
  from assms(1,3) obtain j' where "j' < k" "entry_at es callEntry i j'"
    by (auto simp: wf_entries_def entry_at_def)
  with wf_entries_unique [OF assms(1,2)] show ?thesis by blast
qed

lemma value_of_nth:
  assumes "wf_entries es" and "entry_at es k i j"
  shows "value_of es k i = en_value (es ! j)"
proof -
  have "find (\<lambda>e. en_kind e = k \<and> en_id e = i) es = Some (es ! j)"
    unfolding find_Some_iff
  proof (intro exI [of _ j] conjI allI impI)
    fix i' assume "i' < j"
    then show "\<not> (en_kind (es ! i') = k \<and> en_id (es ! i') = i)"
      using assms(2) wf_entries_unique [OF assms, of i'] by (auto simp: entry_at_def)
  qed (use assms(2) in \<open>auto simp: entry_at_def\<close>)
  then show ?thesis by (simp add: value_of_def)
qed

lemma rt_before_iff:
  assumes "wf_entries es" and "entry_at es returnEntry a j" and "entry_at es callEntry b k"
  shows "rt_before es a b \<longleftrightarrow> j < k"
proof
  assume "rt_before es a b"
  then obtain k' j' where "entry_at es callEntry b k'" "j' < k'" "entry_at es returnEntry a j'"
    by (auto simp: rt_before_def)
  then show "j < k"
    using wf_entries_unique [OF assms(1,2)] wf_entries_unique [OF assms(1,3)] by blast
next
  assume "j < k"
  moreover have "k < length es" using assms(3) by (simp add: entry_at_def)
  ultimately show "rt_before es a b" using assms(2,3) by (auto simp: rt_before_def)
qed

lemma rt_before_irrefl: "wf_entries es \<Longrightarrow> \<not> rt_before es a a"
  by (metis less_asym rt_before_def wf_entries_call_first)

section \<open>makeEntries\<close>

lemma byTime_Less_strict_weak: "strict_weak byTime_Less"
  unfolding strict_weak_def by (auto simp: byTime_Less_def split: if_splits; metis entryKind.exhaust)

lemma length_makeEntries_loop: "length (makeEntries_loop acc i h) = length acc + 2 * length h"
  by (induction h arbitrary: acc i) (auto simp: op_entries_def)

lemma set_makeEntries_loop:
  "set (makeEntries_loop acc i h) =
    set acc \<union> (\<Union>j < length h. set (op_entries (i + int j) (h ! j)))"
proof (induction h arbitrary: acc i)
  case (Cons elem h)
  have "{..<length (elem # h)} = insert 0 (Suc ` {..<length h})"
    by (auto simp: image_iff less_Suc_eq_0_disj)
  then show ?case by (simp add: Cons.IH add.assoc Un_assoc add.commute [of 1])
qed simp

lemma distinct_makeEntries_loop:
  assumes "distinct (map (\<lambda>e. (en_kind e, en_id e)) acc)" and "\<forall>e \<in> set acc. en_id e < i"
  shows "distinct (map (\<lambda>e. (en_kind e, en_id e)) (makeEntries_loop acc i h))"
  using assms
proof (induction h arbitrary: acc i)
  case (Cons elem h)
  have "distinct (map (\<lambda>e. (en_kind e, en_id e)) (acc @ op_entries i elem))"
    using Cons.prems by (force simp: op_entries_def)
  moreover have "\<forall>e \<in> set (acc @ op_entries i elem). en_id e < i + 1"
    using Cons.prems by (auto simp: op_entries_def)
  ultimately show ?case by (simp add: Cons.IH)
qed simp

text \<open>The entries of a history, and where the sorted list has them.\<close>

context go_sort
begin

lemma srt_position: "x \<in> set xs \<Longrightarrow> \<exists>j < length xs. srt xs ! j = x"
  by (metis in_set_conv_nth srt_length srt_set)

end

lemma makeEntries_cases:
  assumes "sorts_by byTime_Less srt" and "e \<in> set (makeEntries srt h)"
  obtains j where "j < length h" and "e \<in> set (op_entries (int j) (h ! j))"
proof -
  from assms(1) have "go_sort byTime_Less srt" by (simp add: sorts_by_iff)
  with assms(2) have "e \<in> set (makeEntries_loop [] 0 h)"
    by (simp add: makeEntries_def go_sort.srt_set)
  then show thesis using that by (auto simp: set_makeEntries_loop)
qed

lemma makeEntries_at:
  assumes "sorts_by byTime_Less srt" and "j < length h"
  obtains p where "entry_at (makeEntries srt h) k (int j) p"
    and "makeEntries srt h ! p = op_entries (int j) (h ! j) ! (if k = callEntry then 0 else 1)"
proof -
  let ?es = "makeEntries_loop [] 0 h"
  from assms(1) have srt: "go_sort byTime_Less srt" by (simp add: sorts_by_iff)
  let ?e = "op_entries (int j) (h ! j) ! (if k = callEntry then 0 else 1)"
  have "?e \<in> set (op_entries (int j) (h ! j))" by (auto simp: op_entries_def)
  then have "?e \<in> set ?es" using assms(2) by (auto simp: set_makeEntries_loop)
  from go_sort.srt_position [OF srt this] obtain p where p: "p < length ?es" "srt ?es ! p = ?e"
    by blast
  moreover have "en_kind ?e = k \<and> en_id ?e = int j"
    by (cases k) (auto simp: op_entries_def)
  ultimately show thesis
    using that [of p] go_sort.srt_length [OF srt, of ?es] by (simp add: makeEntries_def entry_at_def)
qed

lemma makeEntries_order:
  assumes "sorts_by byTime_Less srt" and "i < length (makeEntries srt h)"
    and "j < length (makeEntries srt h)"
    and "byTime_Less (makeEntries srt h ! i) (makeEntries srt h ! j)"
  shows "i < j"
proof -
  from assms(1) have srt: "go_sort byTime_Less srt" by (simp add: sorts_by_iff)
  show ?thesis
    using go_sort.srt_before [OF srt] go_sort.srt_length [OF srt] assms
      strict_weak_asym [OF byTime_Less_strict_weak assms(4)]
    by (simp add: makeEntries_def)
qed

lemma length_makeEntries: "sorts_by byTime_Less srt \<Longrightarrow> length (makeEntries srt h) = 2 * length h"
  by (simp add: makeEntries_def sorts_by_iff go_sort.srt_length length_makeEntries_loop)

lemma makeEntries_wf:
  assumes srt: "sorts_by byTime_Less srt" and timed: "\<forall>elem \<in> set h. timed elem"
  shows "wf_entries (makeEntries srt h)"
proof -
  let ?es = "makeEntries srt h"
  have len: "length ?es = 2 * length h" by (rule length_makeEntries [OF srt])
  have "distinct (map (\<lambda>e. (en_kind e, en_id e)) ?es)"
    using srt by (simp add: makeEntries_def sorts_by_iff go_sort.srt_distinct
        distinct_makeEntries_loop)
  moreover have "\<forall>e \<in> set ?es. 0 \<le> en_id e \<and> en_id e < int (length h)"
    by (auto elim!: makeEntries_cases [OF srt] simp: op_entries_def)
  moreover have "\<exists>j < k. entry_at ?es callEntry (en_id (?es ! k)) j"
    if k: "k < length ?es" and ret: "en_kind (?es ! k) = returnEntry" for k
  proof -
    from k have "?es ! k \<in> set ?es" by simp
    then obtain i where i: "i < length h" "?es ! k \<in> set (op_entries (int i) (h ! i))"
      by (rule makeEntries_cases [OF srt])
    from makeEntries_at [OF srt i(1), of callEntry] obtain p where
      p: "entry_at ?es callEntry (int i) p" "?es ! p = op_entries (int i) (h ! i) ! 0" by auto
    have "timed (h ! i)" using timed i(1) by simp
    then have "byTime_Less (?es ! p) (?es ! k)"
      using i(2) ret p(2) by (auto simp: op_entries_def byTime_Less_def timed_def)
    with makeEntries_order [OF srt _ k] p(1) have "p < k" by (simp add: entry_at_def)
    moreover have "en_id (?es ! k) = int i" using i(2) by (auto simp: op_entries_def)
    ultimately show ?thesis using p(1) by auto
  qed
  ultimately show ?thesis by (simp add: wf_entries_def len)
qed

text \<open>In the sorted list \<open>a\<close> returns ahead of the call of \<open>b\<close> exactly when its time stamp says so.\<close>

lemma makeEntries_rt_before:
  assumes srt: "sorts_by byTime_Less srt" and timed: "\<forall>elem \<in> set h. timed elem"
    and "a < length h" and "b < length h"
  shows "rt_before (makeEntries srt h) (int a) (int b) \<longleftrightarrow> op_Return (h ! a) < op_Call (h ! b)"
proof -
  let ?es = "makeEntries srt h"
  from makeEntries_at [OF srt assms(3), of returnEntry] obtain j where
    j: "entry_at ?es returnEntry (int a) j" "?es ! j = op_entries (int a) (h ! a) ! 1" by auto
  from makeEntries_at [OF srt assms(4), of callEntry] obtain k where
    k: "entry_at ?es callEntry (int b) k" "?es ! k = op_entries (int b) (h ! b) ! 0" by auto
  have "byTime_Less (?es ! j) (?es ! k) \<longleftrightarrow> op_Return (h ! a) < op_Call (h ! b)"
    and "byTime_Less (?es ! k) (?es ! j) \<longleftrightarrow> \<not> op_Return (h ! a) < op_Call (h ! b)"
    using j(2) k(2) by (auto simp: op_entries_def byTime_Less_def)
  moreover have "byTime_Less (?es ! j) (?es ! k) \<Longrightarrow> j < k"
    and "byTime_Less (?es ! k) (?es ! j) \<Longrightarrow> k < j"
    using makeEntries_order [OF srt] j(1) k(1) by (auto simp: entry_at_def)
  ultimately show ?thesis
    using rt_before_iff [OF makeEntries_wf [OF srt timed] j(1) k(1)] by (meson less_asym)
qed

lemma makeEntries_values:
  assumes srt: "sorts_by byTime_Less srt" and timed: "\<forall>elem \<in> set h. timed elem" and n: "n < length h"
  shows "value_of (makeEntries srt h) callEntry (int n) = op_Input (h ! n)"
    and "value_of (makeEntries srt h) returnEntry (int n) = op_Output (h ! n)"
proof -
  let ?es = "makeEntries srt h"
  note wf = makeEntries_wf [OF assms(1,2)]
  from makeEntries_at [OF srt n, of callEntry] obtain j where
    j: "entry_at ?es callEntry (int n) j" "?es ! j = op_entries (int n) (h ! n) ! 0" by auto
  from makeEntries_at [OF srt n, of returnEntry] obtain k where
    k: "entry_at ?es returnEntry (int n) k" "?es ! k = op_entries (int n) (h ! n) ! 1" by auto
  show "value_of ?es callEntry (int n) = op_Input (h ! n)"
    and "value_of ?es returnEntry (int n) = op_Output (h ! n)"
    using value_of_nth [OF wf j(1)] value_of_nth [OF wf k(1)] j(2) k(2) by (simp_all add: op_entries_def)
qed

lemma makeEntries_ids:
  assumes "sorts_by byTime_Less srt" and "\<forall>elem \<in> set h. timed elem"
  shows "en_id ` set (makeEntries srt h) = {0..<int (length h)}"
  using wf_entries_ids [OF makeEntries_wf [OF assms]] length_makeEntries [OF assms(1)] by simp

lemma makeEntries_linearizable:
  assumes srt: "sorts_by byTime_Less srt" and timed: "\<forall>elem \<in> set h. timed elem"
  shows "linearizable m (makeEntries srt h) \<longleftrightarrow> history_linearizable m h"
proof -
  let ?es = "makeEntries srt h"
  note ids = makeEntries_ids [OF assms]
  have vals: "value_of ?es callEntry a = op_Input (h ! nat a) \<and>
      value_of ?es returnEntry a = op_Output (h ! nat a)" if "a \<in> en_id ` set ?es" for a
    using that makeEntries_values [OF assms, of "nat a"] unfolding ids by auto
  have rt: "rt_before ?es a b \<longleftrightarrow> op_Return (h ! nat a) < op_Call (h ! nat b)"
    if "a \<in> en_id ` set ?es" "b \<in> en_id ` set ?es" for a b
    using makeEntries_rt_before [OF assms, of "nat a" "nat b"] that ids by auto
  have "entries_linearize m ?es lin \<longleftrightarrow>
      linearizes m {0..<int (length h)} (\<lambda>a b. op_Return (h ! nat a) < op_Call (h ! nat b))
        (\<lambda>i. op_Input (h ! nat i)) (\<lambda>i. op_Output (h ! nat i)) (Init m) lin" for lin
    unfolding entries_linearize_def by (rule linearizes_cong [OF ids rt]) (use vals in auto)
  then show ?thesis by (simp add: linearizable_def history_linearizable_def)
qed

text \<open>What the defaults of \<open>fillDefault\<close> leave alone.\<close>

lemma fillDefault_simps [simp]:
  "Init (fillDefault fmtv fmts m) = Init m"
  "Step (fillDefault fmtv fmts m) = Step m"
  "Partition (fillDefault fmtv fmts m) = Some (case Partition m of None \<Rightarrow> NoPartition | Some f \<Rightarrow> f)"
  "PartitionEvent (fillDefault fmtv fmts m) =
     Some (case PartitionEvent m of None \<Rightarrow> NoPartitionEvent | Some f \<Rightarrow> f)"
  "Equal (fillDefault fmtv fmts m) = Some (case Equal m of None \<Rightarrow> ShallowEqual | Some f \<Rightarrow> f)"
  "DescribeOperation (fillDefault fmtv fmts m) =
     Some (case DescribeOperation m of None \<Rightarrow> DefaultDescribeOperation fmtv | Some f \<Rightarrow> f)"
  "DescribeState (fillDefault fmtv fmts m) =
     Some (case DescribeState m of None \<Rightarrow> DefaultDescribeState fmts | Some f \<Rightarrow> f)"
  by (auto simp: fillDefault_def Let_def split: option.splits)

lemma run_ops_step_cong: "Step m = Step m' \<Longrightarrow> run_ops m s ops = run_ops m' s ops"
  by (induction m s ops rule: run_ops.induct) (auto split: option.splits)

lemma run_ops_fillDefault [simp]: "run_ops (fillDefault fmtv fmts m) = run_ops m"
  by (intro ext run_ops_step_cong) simp

lemma linearizable_fillDefault [simp]: "linearizable (fillDefault fmtv fmts m) es \<longleftrightarrow> linearizable m es"
  by (simp add: linearizable_def entries_linearize_def linearizes_def)

lemma history_linearizable_fillDefault [simp]:
  "history_linearizable (fillDefault fmtv fmts m) h \<longleftrightarrow> history_linearizable m h"
  by (simp add: history_linearizable_def linearizes_def)

text \<open>
  \<open>byTime\<close> with the insertion sort meets the contract of \<open>sort.Sort\<close>.
\<close>

interpretation bt: go_sort byTime_Less "sort_by byTime_Less"
  using sort_by_sorts [OF byTime_Less_strict_weak] by (simp add: sorts_by_iff)

end
