(* ===== verification/Linked_Entries.thy ===== *)
theory Linked_Entries
  imports Porcupine_Model
begin

text \<open>
  The doubly linked list of \<open>porcupine/checker.go\<close>: \<open>node\<close>, \<open>insertBefore\<close>, \<open>length\<close>,
  \<open>makeLinkedEntries\<close>, \<open>lift\<close> and \<open>unlift\<close>.

  The nodes live in a heap, a list of node records whose addresses are its indices:
  allocation appends, a pointer is \<open>nat option\<close> and \<open>None\<close> is \<open>nil\<close>. Dereferencing \<open>nil\<close> panics.

  \<open>dseg h p xs q\<close> says that the nodes \<open>xs\<close> form a segment of a doubly linked list that comes
  after \<open>p\<close> and before \<open>q\<close>. The lemmas show that \<open>makeLinkedEntries\<close> builds such a list
  of the entries in order with every call pointing at its return, that \<open>lift\<close> takes a call and
  its return out of the list, and that \<open>unlift\<close> then restores the heap exactly, every
  pointer included.
\<close>

section \<open>The heap\<close>

record 'v node =
  nd_value :: "'v option"
  nd_match :: ptr
  nd_id :: int
  nd_next :: ptr
  nd_prev :: ptr

type_synonym 'v heap = "'v node list"

definition deref :: "'v heap \<Rightarrow> ptr \<Rightarrow> 'v node option" where
  "deref h p = do { a \<leftarrow> p; slice_get h a }"

definition set_next :: "'v heap \<Rightarrow> ptr \<Rightarrow> ptr \<Rightarrow> 'v heap option" where
  "set_next h p q = do { a \<leftarrow> p; n \<leftarrow> slice_get h a; slice_set h a (n\<lparr>nd_next := q\<rparr>) }"

definition set_prev :: "'v heap \<Rightarrow> ptr \<Rightarrow> ptr \<Rightarrow> 'v heap option" where
  "set_prev h p q = do { a \<leftarrow> p; n \<leftarrow> slice_get h a; slice_set h a (n\<lparr>nd_prev := q\<rparr>) }"

section \<open>The operations\<close>

definition insertBefore :: "'v heap \<Rightarrow> ptr \<Rightarrow> ptr \<Rightarrow> 'v heap option" where
  "insertBefore h n mark =
     (if mark \<noteq> None then do {
        mk \<leftarrow> deref h mark;
        let beforeMark = nd_prev mk;
        h \<leftarrow> set_prev h mark n;
        h \<leftarrow> set_next h n mark;
        (if beforeMark \<noteq> None then do {
           h \<leftarrow> set_prev h n beforeMark;
           set_next h beforeMark n
         } else Some h)
      } else Some h)"

partial_function (option) node_length :: "'v heap \<Rightarrow> ptr \<Rightarrow> nat \<Rightarrow> nat option" where
  "node_length h n l =
     (case n of
        None \<Rightarrow> Some l
      | Some a \<Rightarrow> do { nd \<leftarrow> slice_get h a; node_length h (nd_next nd) (l + 1) })"

declare node_length.simps [code]

text \<open>
  The loop of \<open>makeLinkedEntries\<close> runs from the last entry to the first, so the recursion on the
  list runs the tail first. Its state is the heap, the map \<open>match\<close> and \<open>root\<close>.
\<close>

primrec makeLinkedEntries_loop ::
  "'v entry list \<Rightarrow> ('v heap \<times> (int \<rightharpoonup> nat) \<times> ptr) option" where
  "makeLinkedEntries_loop [] = Some ([], Map.empty, None)"
| "makeLinkedEntries_loop (elem # entries) = do {
     (h, match, root) \<leftarrow> makeLinkedEntries_loop entries;
     let e = length h;
     (if en_kind elem = returnEntry then do {
        let h = h @ [\<lparr>nd_value = Some (en_value elem), nd_match = None, nd_id = en_id elem,
                      nd_next = None, nd_prev = None\<rparr>];
        let match = match(en_id elem \<mapsto> e);
        h \<leftarrow> insertBefore h (Some e) root;
        Some (h, match, Some e)
      } else do {
        let h = h @ [\<lparr>nd_value = Some (en_value elem), nd_match = match (en_id elem),
                      nd_id = en_id elem, nd_next = None, nd_prev = None\<rparr>];
        h \<leftarrow> insertBefore h (Some e) root;
        Some (h, match, Some e)
      })
   }"

definition makeLinkedEntries :: "'v entry list \<Rightarrow> ('v heap \<times> ptr) option" where
  "makeLinkedEntries entries =
     do { (h, match, root) \<leftarrow> makeLinkedEntries_loop entries; Some (h, root) }"

definition lift :: "'v heap \<Rightarrow> ptr \<Rightarrow> 'v heap option" where
  "lift h e = do {
     en \<leftarrow> deref h e;
     h \<leftarrow> set_next h (nd_prev en) (nd_next en);
     en \<leftarrow> deref h e;
     h \<leftarrow> set_prev h (nd_next en) (nd_prev en);
     en \<leftarrow> deref h e;
     let match = nd_match en;
     mn \<leftarrow> deref h match;
     h \<leftarrow> set_next h (nd_prev mn) (nd_next mn);
     mn \<leftarrow> deref h match;
     (if nd_next mn \<noteq> None then set_prev h (nd_next mn) (nd_prev mn) else Some h)
   }"

definition unlift :: "'v heap \<Rightarrow> ptr \<Rightarrow> 'v heap option" where
  "unlift h e = do {
     en \<leftarrow> deref h e;
     let match = nd_match en;
     mn \<leftarrow> deref h match;
     h \<leftarrow> set_next h (nd_prev mn) match;
     mn \<leftarrow> deref h match;
     h \<leftarrow> (if nd_next mn \<noteq> None then set_prev h (nd_next mn) match else Some h);
     en \<leftarrow> deref h e;
     h \<leftarrow> set_next h (nd_prev en) e;
     en \<leftarrow> deref h e;
     set_prev h (nd_next en) e
   }"

section \<open>Doubly linked segments\<close>

definition first_of :: "nat list \<Rightarrow> ptr \<Rightarrow> ptr" where
  "first_of xs q = (case xs of [] \<Rightarrow> q | x # _ \<Rightarrow> Some x)"

definition last_of :: "ptr \<Rightarrow> nat list \<Rightarrow> ptr" where
  "last_of p xs = (if xs = [] then p else Some (last xs))"

primrec dseg :: "'v heap \<Rightarrow> ptr \<Rightarrow> nat list \<Rightarrow> ptr \<Rightarrow> bool" where
  "dseg h p [] q \<longleftrightarrow> True"
| "dseg h p (x # xs) q \<longleftrightarrow>
     x < length h \<and> nd_prev (h ! x) = p \<and> nd_next (h ! x) = first_of xs q \<and> dseg h (Some x) xs q"

lemma first_of_simps [simp]:
  "first_of [] q = q" "first_of (x # xs) q = Some x"
  "first_of (xs @ ys) q = first_of xs (first_of ys q)"
  by (auto simp: first_of_def split: list.splits)

lemma last_of_simps [simp]:
  "last_of p [] = p" "last_of p (xs @ [x]) = Some x" "last_of p (x # xs) = last_of (Some x) xs"
  by (auto simp: last_of_def)

lemma dseg_append [simp]:
  "dseg h p (us @ vs) q \<longleftrightarrow> dseg h p us (first_of vs q) \<and> dseg h (last_of p us) vs q"
  by (induction us arbitrary: p) auto

lemma dseg_update [simp]: "a \<notin> set xs \<Longrightarrow> dseg (h[a := n]) p xs q = dseg h p xs q"
  by (induction xs arbitrary: p) auto

lemma dseg_cong:
  "length h' = length h \<Longrightarrow> (\<And>x. x \<in> set xs \<Longrightarrow> h' ! x = h ! x) \<Longrightarrow> dseg h' p xs q = dseg h p xs q"
  by (induction xs arbitrary: p) auto

lemma dseg_in_heap: "dseg h p xs q \<Longrightarrow> x \<in> set xs \<Longrightarrow> x < length h"
  by (induction xs arbitrary: p) auto

lemma dseg_extend: "dseg h p xs q \<Longrightarrow> dseg (h @ ns) p xs q"
  by (induction xs arbitrary: p) (auto simp: nth_append)

text \<open>A change of the fields other than \<open>next\<close> and \<open>prev\<close> is impossible; the nodes keep the rest.\<close>

definition same_nodes :: "'v heap \<Rightarrow> 'v heap \<Rightarrow> bool" where
  "same_nodes h h' \<longleftrightarrow> length h' = length h \<and>
     (\<forall>a < length h. nd_match (h' ! a) = nd_match (h ! a) \<and> nd_id (h' ! a) = nd_id (h ! a) \<and>
        nd_value (h' ! a) = nd_value (h ! a))"

lemma same_nodes_refl [simp]: "same_nodes h h"
  by (simp add: same_nodes_def)

lemma same_nodes_trans [trans]: "same_nodes h h' \<Longrightarrow> same_nodes h' h'' \<Longrightarrow> same_nodes h h''"
  by (simp add: same_nodes_def)

lemma same_nodes_update_next [simp]: "same_nodes h (h[a := (h ! a)\<lparr>nd_next := q\<rparr>])"
  by (cases "a < length h") (auto simp: same_nodes_def nth_list_update list_update_beyond)

lemma same_nodes_update_prev [simp]: "same_nodes h (h[a := (h ! a)\<lparr>nd_prev := q\<rparr>])"
  by (cases "a < length h") (auto simp: same_nodes_def nth_list_update list_update_beyond)

section \<open>Taking a node out of the list and putting it back\<close>

definition unlink :: "'v heap \<Rightarrow> nat \<Rightarrow> 'v heap option" where
  "unlink h x = do {
     n \<leftarrow> deref h (Some x);
     h \<leftarrow> set_next h (nd_prev n) (nd_next n);
     n \<leftarrow> deref h (Some x);
     (if nd_next n \<noteq> None then set_prev h (nd_next n) (nd_prev n) else Some h)
   }"

definition relink :: "'v heap \<Rightarrow> nat \<Rightarrow> 'v heap option" where
  "relink h x = do {
     n \<leftarrow> deref h (Some x);
     h \<leftarrow> set_next h (nd_prev n) (Some x);
     n \<leftarrow> deref h (Some x);
     (if nd_next n \<noteq> None then set_prev h (nd_next n) (Some x) else Some h)
   }"

lemmas heap_ops = deref_def set_next_def set_prev_def

lemma unlink_last:
  assumes "dseg h None (us @ [p, x]) None" and "distinct (us @ [p, x])"
  defines "h' \<equiv> h[p := (h ! p)\<lparr>nd_next := None\<rparr>]"
  shows "unlink h x = Some h'" and "dseg h' None (us @ [p]) None" and "relink h' x = Some h"
proof -
  from assms(1) have p: "p < length h" "x < length h" "nd_prev (h ! x) = Some p"
    "nd_next (h ! x) = None" "nd_next (h ! p) = Some x" by auto
  from assms(2) have "p \<noteq> x" by auto
  with p show "unlink h x = Some h'" by (simp add: unlink_def heap_ops h'_def)
  show "dseg h' None (us @ [p]) None" using assms by (auto simp: h'_def)
  have "h'[p := (h' ! p)\<lparr>nd_next := Some x\<rparr>] = h"
    using p by (simp add: h'_def) (metis list_update_id node.surjective node.update_convs(4) p(5))
  then show "relink h' x = Some h"
    using p \<open>p \<noteq> x\<close> by (simp add: relink_def heap_ops h'_def)
qed

lemma unlink_middle:
  assumes "dseg h None (us @ p # x # v # vs) None" and "distinct (us @ p # x # v # vs)"
  defines "h' \<equiv> h[p := (h ! p)\<lparr>nd_next := Some v\<rparr>, v := (h ! v)\<lparr>nd_prev := Some p\<rparr>]"
  shows "unlink h x = Some h'" and "dseg h' None (us @ p # v # vs) None" and "relink h' x = Some h"
proof -
  from assms(1) have p: "p < length h" "x < length h" "v < length h" "nd_prev (h ! x) = Some p"
    "nd_next (h ! x) = Some v" "nd_next (h ! p) = Some x" "nd_prev (h ! v) = Some x" by auto
  from assms(2) have neq: "p \<noteq> x" "v \<noteq> x" "p \<noteq> v" by auto
  with p show "unlink h x = Some h'" by (simp add: unlink_def heap_ops h'_def)
  show "dseg h' None (us @ p # v # vs) None" using assms by (auto simp: h'_def)
  have "h'[p := (h' ! p)\<lparr>nd_next := Some x\<rparr>, v := (h' ! v)\<lparr>nd_prev := Some x\<rparr>] = h"
    using p neq by (intro nth_equalityI) (auto simp: h'_def nth_list_update)
  then show "relink h' x = Some h"
    using p neq by (simp add: relink_def heap_ops h'_def)
qed

lemma unlink_relink:
  assumes "dseg h None (us @ x # vs) None" and "distinct (us @ x # vs)" and "us \<noteq> []"
  obtains h' where "unlink h x = Some h'" and "dseg h' None (us @ vs) None"
    and "relink h' x = Some h" and "same_nodes h h'" and "h' ! x = h ! x"
proof -
  obtain us' p where us: "us = us' @ [p]" using assms(3) by (cases us rule: rev_cases) auto
  show thesis
  proof (cases vs)
    case Nil
    with assms us have seg: "dseg h None (us' @ [p, x]) None" "distinct (us' @ [p, x])" by auto
    show ?thesis
      by (rule that [OF unlink_last(1) [OF seg] _ unlink_last(3) [OF seg]])
        (use unlink_last(2) [OF seg] Nil us seg(2) in auto)
  next
    case (Cons v vs')
    with assms us have seg: "dseg h None (us' @ p # x # v # vs') None" "distinct (us' @ p # x # v # vs')"
      by auto
    let ?h1 = "h[p := (h ! p)\<lparr>nd_next := Some v\<rparr>]"
    have "?h1 ! v = h ! v" using seg(2) by auto
    then have "same_nodes h (?h1[v := (h ! v)\<lparr>nd_prev := Some p\<rparr>])"
      by (metis same_nodes_trans same_nodes_update_next same_nodes_update_prev)
    with unlink_middle(2) [OF seg] Cons us seg(2) show ?thesis
      by (intro that [OF unlink_middle(1) [OF seg] _ unlink_middle(3) [OF seg]]) auto
  qed
qed

section \<open>lift and unlift\<close>

lemma set_next_deref:
  "set_next h p q = Some h' \<Longrightarrow> p \<noteq> Some x \<Longrightarrow> deref h' (Some x) = deref h (Some x)"
  by (auto simp: heap_ops bind_eq_Some_conv slice_set_eq_Some_iff slice_get_def nth_list_update)

lemma lift_unlinks:
  assumes "deref h (Some x) = Some n" and "nd_next n \<noteq> None" and "nd_prev n \<noteq> Some x"
    and "unlink h x = Some h1" and "deref h1 (Some x) = Some n'" and "nd_match n' = Some m"
    and "unlink h1 m = Some h2"
  shows "lift h (Some x) = Some h2"
proof -
  from assms(1,4) obtain h' where h': "set_next h (nd_prev n) (nd_next n) = Some h'"
    by (auto simp: unlink_def bind_eq_Some_conv)
  from set_next_deref [OF h' assms(3)] assms(1) have "deref h' (Some x) = Some n" by simp
  with assms h' show ?thesis by (simp add: lift_def unlink_def)
qed

lemma unlift_relinks:
  assumes "deref h2 (Some x) = Some n" and "nd_match n = Some m"
    and "relink h2 m = Some h1" and "deref h1 (Some x) = Some n'" and "nd_next n' \<noteq> None"
    and "nd_prev n' \<noteq> Some x" and "relink h1 x = Some h"
  shows "unlift h2 (Some x) = Some h"
proof -
  from assms(4,7) obtain h' where h': "set_next h1 (nd_prev n') (Some x) = Some h'"
    by (auto simp: relink_def bind_eq_Some_conv)
  from set_next_deref [OF h' assms(6)] assms(4) have "deref h' (Some x) = Some n'" by simp
  moreover from assms(3) obtain mn g mn' where "deref h2 (Some m) = Some mn"
    "set_next h2 (nd_prev mn) (Some m) = Some g" "deref g (Some m) = Some mn'"
    "(if nd_next mn' \<noteq> None then set_prev g (nd_next mn') (Some m) else Some g) = Some h1"
    by (auto simp: relink_def bind_eq_Some_conv)
  ultimately show ?thesis using assms h' by (simp add: unlift_def relink_def)
qed

text \<open>
  \<open>lift\<close> on a call \<open>x\<close> of the list whose return is \<open>m\<close> removes both, and \<open>unlift\<close> is its exact
  inverse. The list has a node in front of the call (the head entry of \<open>checkSingle\<close>).
\<close>

lemma lift_unlift:
  assumes "dseg h None (us @ x # vs @ m # ws) None" and "distinct (us @ x # vs @ m # ws)"
    and "us \<noteq> []" and "nd_match (h ! x) = Some m"
  obtains h' where "lift h (Some x) = Some h'" and "dseg h' None (us @ vs @ ws) None"
    and "unlift h' (Some x) = Some h" and "same_nodes h h'"
proof -
  from unlink_relink [OF assms(1-3)] obtain h1 where
    h1: "unlink h x = Some h1" "dseg h1 None ((us @ vs) @ m # ws) None" "relink h1 x = Some h"
      "same_nodes h h1" "h1 ! x = h ! x" by auto
  have "distinct ((us @ vs) @ m # ws)" "us @ vs \<noteq> []" using assms(2,3) by auto
  from unlink_relink [OF h1(2) this] obtain h2 where
    h2: "unlink h1 m = Some h2" "dseg h2 None ((us @ vs) @ ws) None" "relink h2 m = Some h1"
      "same_nodes h1 h2" by auto
  have x: "x < length h" "nd_next (h ! x) = first_of (vs @ m # ws) None"
    "nd_prev (h ! x) = Some (last us)"
    using assms(1,3) by (auto simp: last_of_def)
  have "last us \<in> set us" using assms(3) by simp
  with assms(2) x(2,3) have nx: "nd_next (h ! x) \<noteq> None" "nd_prev (h ! x) \<noteq> Some x"
    by (auto simp: first_of_def split: list.splits)
  from x(1) have len: "x < length h1" "x < length h2" "nd_match (h2 ! x) = Some m"
    using h1(4) h2(4) assms(4) by (auto simp: same_nodes_def)
  have "lift h (Some x) = Some h2"
    by (rule lift_unlinks [OF _ nx h1(1) _ _ h2(1), where n' = "h1 ! x"])
      (use x len h1(5) assms(4) in \<open>auto simp: deref_def\<close>)
  moreover have "unlift h2 (Some x) = Some h"
    by (rule unlift_relinks [OF _ len(3) h2(3) _ _ _ h1(3), where n' = "h1 ! x"])
      (use nx len h1(5) in \<open>auto simp: deref_def\<close>)
  ultimately show thesis
    using that [of h2] h2(2) same_nodes_trans [OF h1(4) h2(4)] by simp
qed

section \<open>The list that makeLinkedEntries builds\<close>

lemma node_length_dseg: "dseg h p xs None \<Longrightarrow> node_length h (first_of xs None) l = Some (l + length xs)"
proof (induction xs arbitrary: p l)
  case (Cons x xs)
  then have "node_length h (first_of xs None) (Suc l) = Some (Suc l + length xs)" by auto
  with Cons.prems show ?case by (simp add: node_length.simps [of h "Some x"])
qed (simp add: node_length.simps)

text \<open>The address of the first return entry with a number, counting addresses from the end.\<close>

primrec ret_addr :: "'v entry list \<Rightarrow> int \<Rightarrow> nat option" where
  "ret_addr [] i = None"
| "ret_addr (e # es) i =
     (if en_kind e = returnEntry \<and> en_id e = i then Some (length es) else ret_addr es i)"

text \<open>The node that stands for the first of a list of entries.\<close>

definition node_matches :: "'v node \<Rightarrow> 'v entry \<Rightarrow> 'v entry list \<Rightarrow> bool" where
  "node_matches n e es \<longleftrightarrow> nd_value n = Some (en_value e) \<and> nd_id n = en_id e \<and>
     nd_match n = (if en_kind e = returnEntry then None else ret_addr es (en_id e))"

lemma insertBefore_front:
  assumes "dseg h None (rev [0..<length h]) None"
  defines "root \<equiv> first_of (rev [0..<length h]) None"
  obtains h' where "insertBefore (h @ [n\<lparr>nd_next := None, nd_prev := None\<rparr>]) (Some (length h)) root = Some h'"
    and "dseg h' None (rev [0..<Suc (length h)]) None"
    and "same_nodes (h @ [n\<lparr>nd_next := None, nd_prev := None\<rparr>]) h'"
proof (cases h rule: rev_cases)
  case Nil
  then show ?thesis by (intro that) (auto simp: insertBefore_def root_def)
next
  case (snoc g r)
  let ?n = "n\<lparr>nd_next := None, nd_prev := None\<rparr>" and ?r = "length g"
  let ?h' = "(h @ [?n])[?r := (h ! ?r)\<lparr>nd_prev := Some (length h)\<rparr>,
      length h := ?n\<lparr>nd_next := Some ?r\<rparr>]"
  have root: "root = Some ?r" by (simp add: root_def snoc)
  have prev: "nd_prev (h ! ?r) = None" using assms(1) by (simp add: snoc)
  have "insertBefore (h @ [?n]) (Some (length h)) root = Some ?h'"
    using prev by (simp add: insertBefore_def heap_ops root snoc nth_append)
  moreover have "dseg ?h' (Some ?r) (rev [0..<?r]) None \<longleftrightarrow> dseg (h @ [?n]) (Some ?r) (rev [0..<?r]) None"
    by (rule dseg_cong) (auto simp: snoc nth_list_update nth_append)
  then have "dseg ?h' None (rev [0..<Suc (length h)]) None"
    using dseg_extend [OF assms(1), of "[?n]"] by (simp add: snoc nth_append)
  moreover have "same_nodes (h @ [?n]) ?h'"
    by (auto simp: same_nodes_def snoc nth_list_update nth_append)
  ultimately show ?thesis by (rule that)
qed

lemma same_nodes_matches:
  assumes "same_nodes h h'" and "a < length h"
  shows "node_matches (h' ! a) e es \<longleftrightarrow> node_matches (h ! a) e es"
  using assms by (simp add: same_nodes_def node_matches_def)

lemma makeLinkedEntries_loop_ok:
  "\<exists>h. makeLinkedEntries_loop es = Some (h, ret_addr es, first_of (rev [0..<length es]) None) \<and>
     length h = length es \<and> dseg h None (rev [0..<length es]) None \<and>
     (\<forall>j < length es. node_matches (h ! (length es - 1 - j)) (es ! j) (drop (Suc j) es))"
proof (induction es)
  case (Cons e es)
  then obtain h where h: "makeLinkedEntries_loop es =
      Some (h, ret_addr es, first_of (rev [0..<length h]) None)" "length h = length es"
    "dseg h None (rev [0..<length h]) None"
    "\<forall>j < length es. node_matches (h ! (length es - 1 - j)) (es ! j) (drop (Suc j) es)" by auto
  let ?n = "\<lparr>nd_value = Some (en_value e),
      nd_match = (if en_kind e = returnEntry then None else ret_addr es (en_id e)),
      nd_id = en_id e, nd_next = None, nd_prev = None\<rparr>"
  obtain h' where h': "insertBefore (h @ [?n]) (Some (length h)) (first_of (rev [0..<length h]) None) = Some h'"
    "dseg h' None (rev [0..<Suc (length h)]) None" "same_nodes (h @ [?n]) h'"
    using insertBefore_front [OF h(3), of ?n] by auto
  have len: "length h' = Suc (length es)" using h'(3) h(2) by (simp add: same_nodes_def)
  have "ret_addr (e # es) = (if en_kind e = returnEntry then (ret_addr es)(en_id e \<mapsto> length es)
      else ret_addr es)" by (auto simp: fun_eq_iff)
  then have "makeLinkedEntries_loop (e # es) = Some (h', ret_addr (e # es), Some (length es))"
    using h(1,2) h'(1) by (auto simp: Let_def)
  moreover have "node_matches (h' ! (length es - j)) ((e # es) ! j) (drop j es)"
    if "j < Suc (length es)" for j
  proof (cases j)
    case 0
    have "node_matches ((h @ [?n]) ! length es) e es" by (simp add: node_matches_def h(2) nth_append)
    with 0 same_nodes_matches [OF h'(3), of "length es"] h(2) show ?thesis by simp
  next
    case (Suc i)
    then have i: "i < length es" using that by simp
    then have "node_matches ((h @ [?n]) ! (length es - 1 - i)) (es ! i) (drop (Suc i) es)"
      using h(2,4) diff_less [of "Suc i" "length es"] by (auto simp: nth_append)
    with Suc i same_nodes_matches [OF h'(3), of "length es - 1 - i"] h(2) show ?thesis by simp
  qed
  ultimately show ?case using len h'(2) h(2) by auto
qed simp

section \<open>Properties\<close>

text \<open>
  C14. \<open>lift\<close> takes a call and its return out of the doubly linked list and \<open>unlift\<close> puts them back:
  the heap after the two operations is the heap before, and in between the list is the old one without
  the two nodes. Neither operation panics. (Some node, at least the head entry, stands in
  front of the call.)
\<close>

theorem unlift_lift:
  assumes "dseg h None (us @ x # vs @ y # ws) None" and "distinct (us @ x # vs @ y # ws)"
    and "us \<noteq> []" and "nd_match (h ! x) = Some y"
  shows "\<exists>h'. lift h (Some x) = Some h' \<and> dseg h' None (us @ vs @ ws) None \<and> unlift h' (Some x) = Some h"
  using lift_unlift [OF assms] by blast

definition ex_heap :: "nat heap" where
  "ex_heap =
     [\<lparr>nd_value = Some 5, nd_match = None, nd_id = 0, nd_next = None, nd_prev = Some 1\<rparr>,
      \<lparr>nd_value = Some 7, nd_match = Some 0, nd_id = 0, nd_next = Some 0, nd_prev = Some 2\<rparr>,
      \<lparr>nd_value = None, nd_match = None, nd_id = -1, nd_next = Some 1, nd_prev = None\<rparr>]"

theorem unlift_lift_witness:
  "\<exists>h'. lift ex_heap (Some 1) = Some h' \<and> dseg h' None [2] None \<and> unlift h' (Some 1) = Some ex_heap"
  using unlift_lift [of ex_heap "[2]" 1 "[]" 0 "[]"] by (simp add: ex_heap_def)

text \<open>
  \<open>makeLinkedEntries\<close> never panics, and the list it returns has the entries in their order, forward
  and backward; a call node points at the node of the return with its identifier, a return node at
  nothing. \<open>length\<close> counts the entries.
\<close>

theorem makeLinkedEntries_list:
  "\<exists>h root. makeLinkedEntries es = Some (h, root) \<and> root = first_of (rev [0..<length es]) None \<and>
     dseg h None (rev [0..<length es]) None \<and> node_length h root 0 = Some (length es) \<and>
     (\<forall>j < length es. nd_value (h ! (length es - 1 - j)) = Some (en_value (es ! j)) \<and>
        nd_id (h ! (length es - 1 - j)) = en_id (es ! j) \<and>
        nd_match (h ! (length es - 1 - j)) =
          (if en_kind (es ! j) = returnEntry then None else ret_addr (drop (Suc j) es) (en_id (es ! j))))"
proof -
  from makeLinkedEntries_loop_ok [of es] obtain h where
    h: "makeLinkedEntries_loop es = Some (h, ret_addr es, first_of (rev [0..<length es]) None)"
      "dseg h None (rev [0..<length es]) None"
      "\<forall>j < length es. node_matches (h ! (length es - 1 - j)) (es ! j) (drop (Suc j) es)" by blast
  with node_length_dseg [OF h(2), of 0] show ?thesis
    by (auto simp: makeLinkedEntries_def node_matches_def)
qed

theorem makeLinkedEntries_list_witness:
  "\<exists>h. makeLinkedEntries [\<lparr>en_kind = callEntry, en_value = (7 :: nat), en_id = 0, en_time = 0, en_clientId = 0\<rparr>,
      \<lparr>en_kind = returnEntry, en_value = 5, en_id = 0, en_time = 1, en_clientId = 0\<rparr>] = Some (h, Some 1) \<and>
    nd_match (h ! 1) = Some 0 \<and> nd_match (h ! 0) = None"
  using makeLinkedEntries_list [of "[\<lparr>en_kind = callEntry, en_value = (7 :: nat), en_id = 0, en_time = 0, en_clientId = 0\<rparr>,
      \<lparr>en_kind = returnEntry, en_value = 5, en_id = 0, en_time = 1, en_clientId = 0\<rparr>]"]
  by (auto simp: All_less_Suc)

end
