(* ===== verification/Check_Single.thy ===== *)
theory Check_Single
  imports Bitset Linked_Entries
begin

text \<open>
  \<open>checkSingle\<close> of \<open>porcupine/checker.go\<close>: the search for a linearization of one partition.

  The search state is the record \<open>cs\<close>: the heap with the linked list of entries, the current
  entry, the set of linearized operations, the cache, the stack \<open>calls\<close>, the array \<open>longest\<close>
  and the state of the modelled system. A pointer of \<open>longest\<close> is an index into \<open>cs_seqs\<close>, the
  sequences allocated so far.

  One iteration of the loop is \<open>checkSingle_step\<close>; \<open>Panicked\<close> is a Go panic. Whether
  \<open>atomic.LoadInt32(kill)\<close> is non-zero in iteration \<open>t\<close> is the parameter \<open>kill t\<close>: another
  goroutine may set the flag at any time. The loop itself is a partial function, and \<open>None\<close>
  is a loop that never ends.
\<close>

section \<open>State\<close>

record 's cacheEntry =
  ce_linearized :: bitset
  ce_state :: 's

type_synonym 's cache = "64 word \<Rightarrow> 's cacheEntry list"

record 's callsEntry =
  ca_entry :: ptr
  ca_state :: 's

record ('v, 's) cs =
  cs_heap :: "'v heap"
  cs_head :: ptr
  cs_n :: nat
  cs_entry :: ptr
  cs_linearized :: bitset
  cs_cache :: "'s cache"
  cs_calls :: "'s callsEntry list"
  cs_longest :: "ptr list"
  cs_seqs :: "int list list"
  cs_state :: 's

datatype ('v, 's) cs_result =
    Continue "('v, 's) cs"
  | Return bool "('v, 's) cs"
  | Panicked

section \<open>The cache\<close>

primrec cacheContains_loop ::
  "('v, 's) Model \<Rightarrow> 's cacheEntry \<Rightarrow> 's cacheEntry list \<Rightarrow> bool option" where
  "cacheContains_loop model entry [] = Some False"
| "cacheContains_loop model entry (elem # elems) =
     (if bitset_equals (ce_linearized entry) (ce_linearized elem) then do {
        eq \<leftarrow> Equal model;
        (if eq (ce_state entry) (ce_state elem) then Some True
         else cacheContains_loop model entry elems)
      } else cacheContains_loop model entry elems)"

definition cacheContains :: "('v, 's) Model \<Rightarrow> 's cache \<Rightarrow> 's cacheEntry \<Rightarrow> bool option" where
  "cacheContains model cache entry =
     cacheContains_loop model entry (cache (bitset_hash (ce_linearized entry)))"

section \<open>The longest partial linearizations\<close>

text \<open>Indexing a slice with a Go \<open>int\<close>: a negative index panics.\<close>

definition int_index :: "int \<Rightarrow> nat option" where
  "int_index i = (if 0 \<le> i then Some (nat i) else None)"

primrec call_ids :: "'v heap \<Rightarrow> 's callsEntry list \<Rightarrow> int list option" where
  "call_ids h [] = Some []"
| "call_ids h (v # vs) = do {
     nd \<leftarrow> deref h (ca_entry v);
     ids \<leftarrow> call_ids h vs;
     Some (nd_id nd # ids)
   }"

primrec record_longest ::
  "'v heap \<Rightarrow> 's callsEntry list \<Rightarrow> 's callsEntry list \<Rightarrow> ptr list \<times> int list list \<times> ptr \<Rightarrow>
   (ptr list \<times> int list list \<times> ptr) option" where
  "record_longest h calls [] acc = Some acc"
| "record_longest h calls (v # vs) acc = (case acc of (longest, seqs, seq) \<Rightarrow> do {
     nd \<leftarrow> deref h (ca_entry v);
     i \<leftarrow> int_index (nd_id nd);
     old \<leftarrow> slice_get longest i;
     better \<leftarrow> (case old of
                 None \<Rightarrow> Some True
               | Some p \<Rightarrow> do { l \<leftarrow> slice_get seqs p; Some (length calls > length l) });
     (if better then do {
        (seqs', seq') \<leftarrow> (if seq = None then do {
                           ids \<leftarrow> call_ids h calls;
                           Some (seqs @ [ids], Some (length seqs))
                         } else Some (seqs, seq));
        longest' \<leftarrow> slice_set longest i seq';
        record_longest h calls vs (longest', seqs', seq')
      } else record_longest h calls vs (longest, seqs, seq))
   })"

section \<open>One iteration\<close>

text \<open>The call branch: try to linearize the current call next.\<close>

definition try_call ::
  "('v, 's) Model \<Rightarrow> ('v, 's) cs \<Rightarrow> 'v node \<Rightarrow> ('v, 's) cs_result option" where
  "try_call model st en = do {
     matching \<leftarrow> deref (cs_heap st) (nd_match en);
     input \<leftarrow> nd_value en;
     output \<leftarrow> nd_value matching;
     (ok, newState) \<leftarrow> Step model (cs_state st) input output;
     (if ok then do {
        newLinearized \<leftarrow> bitset_set (bitset_clone (cs_linearized st)) (to_uint (nd_id en));
        let newCacheEntry = \<lparr>ce_linearized = newLinearized, ce_state = newState\<rparr>;
        hit \<leftarrow> cacheContains model (cs_cache st) newCacheEntry;
        (if \<not> hit then do {
           let hash = bitset_hash newLinearized;
           linearized \<leftarrow> bitset_set (cs_linearized st) (to_uint (nd_id en));
           h \<leftarrow> lift (cs_heap st) (cs_entry st);
           head \<leftarrow> deref h (cs_head st);
           Some (Continue (st\<lparr>
             cs_cache := (cs_cache st)(hash := cs_cache st hash @ [newCacheEntry]),
             cs_calls := cs_calls st @ [\<lparr>ca_entry = cs_entry st, ca_state = cs_state st\<rparr>],
             cs_state := newState,
             cs_linearized := linearized,
             cs_heap := h,
             cs_entry := nd_next head\<rparr>))
         } else Some (Continue (st\<lparr>cs_entry := nd_next en\<rparr>)))
      } else Some (Continue (st\<lparr>cs_entry := nd_next en\<rparr>)))
   }"

text \<open>The return branch: give up the last call of the stack and go on after it.\<close>

definition backtrack :: "bool \<Rightarrow> ('v, 's) cs \<Rightarrow> ('v, 's) cs_result option" where
  "backtrack computePartial st =
     (if cs_calls st = [] then Some (Return False st)
      else do {
        (longest, seqs, _) \<leftarrow>
          (if computePartial
           then record_longest (cs_heap st) (cs_calls st) (cs_calls st) (cs_longest st, cs_seqs st, None)
           else Some (cs_longest st, cs_seqs st, None));
        let callsTop = last (cs_calls st);
        en \<leftarrow> deref (cs_heap st) (ca_entry callsTop);
        linearized \<leftarrow> bitset_clear (cs_linearized st) (to_uint (nd_id en));
        h \<leftarrow> unlift (cs_heap st) (ca_entry callsTop);
        en' \<leftarrow> deref h (ca_entry callsTop);
        Some (Continue (st\<lparr>
          cs_longest := longest,
          cs_seqs := seqs,
          cs_state := ca_state callsTop,
          cs_linearized := linearized,
          cs_calls := butlast (cs_calls st),
          cs_heap := h,
          cs_entry := nd_next en'\<rparr>))
      })"

text \<open>After the loop: every entry of \<open>longest\<close> points at the complete linearization.\<close>

definition finish :: "('v, 's) cs \<Rightarrow> ('v, 's) cs_result option" where
  "finish st = do {
     seq \<leftarrow> call_ids (cs_heap st) (cs_calls st);
     Some (Return True (st\<lparr>
       cs_seqs := cs_seqs st @ [seq],
       cs_longest := replicate (cs_n st) (Some (length (cs_seqs st)))\<rparr>))
   }"

definition checkSingle_body ::
  "('v, 's) Model \<Rightarrow> bool \<Rightarrow> bool \<Rightarrow> ('v, 's) cs \<Rightarrow> ('v, 's) cs_result option" where
  "checkSingle_body model computePartial killed st = do {
     head \<leftarrow> deref (cs_heap st) (cs_head st);
     (if nd_next head = None then finish st
      else if killed then Some (Return False st)
      else do {
        en \<leftarrow> deref (cs_heap st) (cs_entry st);
        (if nd_match en \<noteq> None then try_call model st en else backtrack computePartial st)
      })
   }"

definition checkSingle_step ::
  "('v, 's) Model \<Rightarrow> bool \<Rightarrow> bool \<Rightarrow> ('v, 's) cs \<Rightarrow> ('v, 's) cs_result" where
  "checkSingle_step model computePartial killed st =
     (case checkSingle_body model computePartial killed st of None \<Rightarrow> Panicked | Some r \<Rightarrow> r)"

section \<open>The loop\<close>

partial_function (option) checkSingle_loop ::
  "('v, 's) Model \<Rightarrow> bool \<Rightarrow> (nat \<Rightarrow> bool) \<Rightarrow> nat \<Rightarrow> ('v, 's) cs \<Rightarrow> ('v, 's) cs_result option" where
  "checkSingle_loop model computePartial kill t st =
     (case checkSingle_step model computePartial (kill t) st of
        Continue st' \<Rightarrow> checkSingle_loop model computePartial kill (Suc t) st'
      | Return ok st' \<Rightarrow> Some (Return ok st')
      | Panicked \<Rightarrow> Some Panicked)"

declare checkSingle_loop.simps [code]

definition headNode :: "'v node" where
  "headNode = \<lparr>nd_value = None, nd_match = None, nd_id = -1, nd_next = None, nd_prev = None\<rparr>"

text \<open>Everything ahead of the loop: \<open>Continue\<close> carries the state in which the loop is entered.\<close>

definition checkSingle_enter ::
  "('v, 's) Model \<Rightarrow> 'v entry list \<Rightarrow> ('v, 's) cs_result option" where
  "checkSingle_enter model history =
     (case makeLinkedEntries history of
        None \<Rightarrow> Some Panicked
      | Some (h, entry) \<Rightarrow>
          (case node_length h entry 0 of
             None \<Rightarrow> None
           | Some len \<Rightarrow>
               (let n = len div 2;
                    headEntry = Some (length h)
                in case insertBefore (h @ [headNode]) headEntry entry of
                     None \<Rightarrow> Some Panicked
                   | Some h' \<Rightarrow>
                       Some (Continue
                         \<lparr>cs_heap = h', cs_head = headEntry, cs_n = n, cs_entry = entry,
                          cs_linearized = newBitset n, cs_cache = (\<lambda>_. []), cs_calls = [],
                          cs_longest = replicate n None, cs_seqs = [], cs_state = Init model\<rparr>))))"

definition checkSingle ::
  "('v, 's) Model \<Rightarrow> 'v entry list \<Rightarrow> bool \<Rightarrow> (nat \<Rightarrow> bool) \<Rightarrow> ('v, 's) cs_result option" where
  "checkSingle model history computePartial kill =
     (case checkSingle_enter model history of
        Some (Continue st) \<Rightarrow> checkSingle_loop model computePartial kill 0 st
      | r \<Rightarrow> r)"

end
