(* ===== verification/Search_Space.thy ===== *)
theory Search_Space
  imports Check_Single
begin

text \<open>
  The search space of \<open>checkSingle\<close>, free of heaps and caches: what remains to be linearized
  (\<open>rem es B\<close>, the addresses of the entries whose operations are not in \<open>B\<close>), when a set of
  linearized operations and a state are a dead end (\<open>dead\<close>), and the partial linearizations
  that the stack of \<open>checkSingle\<close> describes (\<open>path\<close>).

  The two facts the correctness of the search rests on are here: an operation can come next
  exactly when its call stands before the first return that remains, and a position is dead when
  each of those calls is refused by the model or leads to a dead position.
\<close>

section \<open>Addresses\<close>

text \<open>\<open>makeLinkedEntries\<close> gives the entry with index \<open>j\<close> the address \<open>N - 1 - j\<close>.\<close>

definition ent :: "'v entry list \<Rightarrow> nat \<Rightarrow> 'v entry" where
  "ent es a = es ! (length es - 1 - a)"

definition aid :: "'v entry list \<Rightarrow> nat \<Rightarrow> int" where
  "aid es a = en_id (ent es a)"

definition is_call :: "'v entry list \<Rightarrow> nat \<Rightarrow> bool" where
  "is_call es a \<longleftrightarrow> en_kind (ent es a) = callEntry"

abbreviation ids :: "'v entry list \<Rightarrow> int set" where
  "ids es \<equiv> en_id ` set es"

definition rem :: "'v entry list \<Rightarrow> int set \<Rightarrow> nat list" where
  "rem es B = filter (\<lambda>a. aid es a \<notin> B) (rev [0..<length es])"

lemma set_rem: "set (rem es B) = {a. a < length es \<and> aid es a \<notin> B}"
  by (auto simp: rem_def)

lemma distinct_rem [simp]: "distinct (rem es B)"
  by (simp add: rem_def)

lemma sorted_rem: "sorted_wrt (>) (rem es B)"
proof -
  have "sorted_wrt (>) (rev [0..<length es])" by (simp add: sorted_wrt_rev)
  then show ?thesis by (simp add: rem_def sorted_wrt_filter)
qed

lemma rem_empty: "rem es {} = rev [0..<length es]"
  by (simp add: rem_def)

lemma rem_insert: "rem es (insert i B) = filter (\<lambda>a. aid es a \<noteq> i) (rem es B)"
  by (auto simp: rem_def intro: filter_cong)

lemma entry_at_addr:
  "a < length es \<Longrightarrow> entry_at es (en_kind (ent es a)) (aid es a) (length es - 1 - a)"
  by (simp add: entry_at_def ent_def aid_def)

lemma addr_entry_at:
  assumes "entry_at es k i j"
  shows "length es - 1 - j < length es" and "aid es (length es - 1 - j) = i"
    and "en_kind (ent es (length es - 1 - j)) = k"
  using assms by (auto simp: entry_at_def aid_def ent_def)

lemma aid_ids: "a < length es \<Longrightarrow> aid es a \<in> ids es"
  by (simp add: aid_def ent_def)

lemma entryKind_neq: "k \<noteq> callEntry \<longleftrightarrow> k = returnEntry"
  by (cases k) auto

lemma addr_unique:
  assumes "wf_entries es" and "a < length es" and "b < length es"
    and "aid es a = aid es b" and "is_call es a \<longleftrightarrow> is_call es b"
  shows "a = b"
proof -
  have "en_kind (ent es a) = en_kind (ent es b)"
    using assms(5) by (metis entryKind.exhaust is_call_def)
  then have "length es - 1 - a = length es - 1 - b"
    using wf_entries_unique [OF assms(1)] entry_at_addr [OF assms(2)] entry_at_addr [OF assms(3)]
      assms(4) by metis
  with assms(2,3) show ?thesis by simp
qed

lemma addr_exists:
  assumes "wf_entries es" and "i \<in> ids es"
  obtains a where "a < length es" and "aid es a = i" and "is_call es a = c"
proof -
  from assms have "0 \<le> i" "i < int (length es div 2)" by (auto simp: wf_entries_ids)
  from wf_entries_complete [OF assms(1) this, of "if c then callEntry else returnEntry"]
  obtain j where "entry_at es (if c then callEntry else returnEntry) i j" by blast
  from addr_entry_at [OF this] show thesis using that by (auto simp: is_call_def)
qed

text \<open>Addresses fall along the list, so an earlier entry has the larger address.\<close>

lemma rt_before_addr:
  assumes "wf_entries es" and "r < length es" and "c < length es"
    and "\<not> is_call es r" and "is_call es c"
  shows "rt_before es (aid es r) (aid es c) \<longleftrightarrow> c < r"
proof -
  have "entry_at es returnEntry (aid es r) (length es - 1 - r)"
    using entry_at_addr [OF assms(2)] assms(4) by (simp add: is_call_def entryKind_neq)
  moreover have "entry_at es callEntry (aid es c) (length es - 1 - c)"
    using entry_at_addr [OF assms(3)] assms(5) by (simp add: is_call_def)
  ultimately show ?thesis
    using rt_before_iff [OF assms(1)] assms(2,3) by auto
qed

section \<open>The next operation\<close>

definition inp_of :: "'v entry list \<Rightarrow> int \<Rightarrow> 'v" where
  "inp_of es = value_of es callEntry"

definition out_of :: "'v entry list \<Rightarrow> int \<Rightarrow> 'v" where
  "out_of es = value_of es returnEntry"

text \<open>A call that only calls stand before may be linearized next.\<close>

lemma call_minimal:
  assumes "wf_entries es" and "rem es B = pre @ c # post" and "\<forall>a \<in> set pre. is_call es a"
    and "is_call es c" and "y \<in> ids es - B"
  shows "\<not> rt_before es y (aid es c)"
proof
  assume rt: "rt_before es y (aid es c)"
  from assms(5) addr_exists [OF assms(1)] obtain r where
    r: "r < length es" "aid es r = y" "\<not> is_call es r" by blast
  have c: "c \<in> set (rem es B)" using assms(2) by simp
  then have "c < r" using rt r rt_before_addr [OF assms(1) r(1) _ r(3) assms(4)] by (simp add: set_rem)
  moreover have "r \<in> set (pre @ c # post)" using r assms(5) unfolding assms(2) [symmetric] set_rem by simp
  moreover have "\<forall>a \<in> set post. a < c" using sorted_rem [of es B] by (simp add: assms(2) sorted_wrt_append)
  ultimately show False using r(3) assms(3,4) by auto
qed

text \<open>An operation that is linearized next has its call before the first return.\<close>

lemma minimal_call:
  assumes "wf_entries es" and "rem es B = pre @ r # post" and "\<not> is_call es r"
    and "x \<in> ids es - B" and "\<forall>y \<in> ids es - B. \<not> rt_before es y x"
  obtains c where "c \<in> set pre" and "is_call es c" and "aid es c = x"
proof -
  from assms(4) addr_exists [OF assms(1)] obtain c where
    c: "c < length es" "aid es c = x" "is_call es c" by blast
  have r: "r \<in> set (rem es B)" using assms(2) by simp
  then have "aid es r \<in> ids es - B" by (auto simp: set_rem aid_ids)
  then have "\<not> c < r"
    using assms(5) rt_before_addr [OF assms(1) _ c(1) assms(3) c(3)] r c(2) by (auto simp: set_rem)
  moreover have "\<forall>a \<in> set post. a < r" using sorted_rem [of es B] by (simp add: assms(2) sorted_wrt_append)
  moreover have "c \<in> set (pre @ r # post)" using c assms(4) unfolding assms(2) [symmetric] set_rem by simp
  ultimately show thesis using that c assms(3) by auto
qed

section \<open>Dead positions\<close>

definition dead :: "('v, 's) Model \<Rightarrow> 'v entry list \<Rightarrow> int set \<Rightarrow> 's \<Rightarrow> bool" where
  "dead m es B s \<longleftrightarrow> \<not> (\<exists>lin. linearizes m (ids es - B) (rt_before es) (inp_of es) (out_of es) s lin)"

text \<open>Trying the call \<open>c\<close> in state \<open>s\<close> leads nowhere.\<close>

definition call_fails :: "('v, 's) Model \<Rightarrow> 'v entry list \<Rightarrow> int set \<Rightarrow> 's \<Rightarrow> nat \<Rightarrow> bool" where
  "call_fails m es B s c \<longleftrightarrow>
     (\<forall>s'. Step m s (inp_of es (aid es c)) (out_of es (aid es c)) = Some (True, s') \<longrightarrow>
        dead m es (insert (aid es c) B) s')"

lemma dead_if_calls_fail:
  assumes "wf_entries es" and "rem es B = pre @ r # post" and "\<not> is_call es r"
    and "\<forall>c \<in> set pre. call_fails m es B s c"
  shows "dead m es B s"
  unfolding dead_def
proof
  assume "\<exists>lin. linearizes m (ids es - B) (rt_before es) (inp_of es) (out_of es) s lin"
  then obtain lin where lin: "distinct lin" "set lin = ids es - B"
    "sorted_wrt (\<lambda>a b. \<not> rt_before es b a) lin"
    "run_ops m s (map (\<lambda>i. (inp_of es i, out_of es i)) lin) \<noteq> None"
    by (auto simp: linearizes_def)
  have "r \<in> set (rem es B)" using assms(2) by simp
  then have "aid es r \<in> ids es - B" by (auto simp: set_rem aid_ids)
  then obtain x xs where x: "lin = x # xs" using lin(2) by (cases lin) auto
  have "\<forall>y \<in> ids es - B. \<not> rt_before es y x"
    unfolding lin(2) [symmetric] using lin(3) rt_before_irrefl [OF assms(1)] by (auto simp: x)
  moreover have "x \<in> ids es - B" unfolding lin(2) [symmetric] by (simp add: x)
  ultimately obtain c where c: "c \<in> set pre" "aid es c = x"
    using minimal_call [OF assms(1-3), of x] by blast
  from lin(4) obtain s' where s': "Step m s (inp_of es x) (out_of es x) = Some (True, s')"
    "run_ops m s' (map (\<lambda>i. (inp_of es i, out_of es i)) xs) \<noteq> None"
    unfolding x list.map run_ops_Cons_Some by blast
  have "set xs = ids es - insert x B" using lin(1,2) x by auto
  then have "linearizes m (ids es - insert x B) (rt_before es) (inp_of es) (out_of es) s' xs"
    using lin s'(2) x by (simp add: linearizes_def)
  moreover have "dead m es (insert x B) s'"
    using assms(4) c s'(1) by (auto simp: call_fails_def)
  ultimately show False by (auto simp: dead_def)
qed

section \<open>Partial linearizations\<close>

text \<open>
  A partial linearization is what the checker reports in \<open>longest\<close>: the model accepts the
  operations in the given order, and no operation is left out that had to come before one of them.
\<close>

definition partial_linearization :: "('v, 's) Model \<Rightarrow> 'v entry list \<Rightarrow> int list \<Rightarrow> bool" where
  "partial_linearization m es lin \<longleftrightarrow>
     distinct lin \<and> set lin \<subseteq> ids es \<and> sorted_wrt (\<lambda>a b. \<not> rt_before es b a) lin \<and>
     (\<forall>a \<in> set lin. \<forall>b \<in> ids es - set lin. \<not> rt_before es b a) \<and>
     run_ops m (Init m) (map (\<lambda>i. (inp_of es i, out_of es i)) lin) \<noteq> None"

lemma partial_linearization_all:
  "partial_linearization m es lin \<Longrightarrow> set lin = ids es \<Longrightarrow> entries_linearize m es lin"
  by (simp add: partial_linearization_def entries_linearize_def linearizes_def inp_of_def out_of_def)

text \<open>The stack of calls, with the operations it linearizes and the state it leads to.\<close>

inductive path :: "('v, 's) Model \<Rightarrow> 'v entry list \<Rightarrow> 's callsEntry list \<Rightarrow> int list \<Rightarrow> 's \<Rightarrow> bool"
  for m es where
  path_empty: "path m es [] [] (Init m)"
| path_push: "path m es cs lin s \<Longrightarrow> a < length es \<Longrightarrow> is_call es a \<Longrightarrow> aid es a \<notin> set lin \<Longrightarrow>
    \<forall>y \<in> ids es - set lin. \<not> rt_before es y (aid es a) \<Longrightarrow>
    Step m s (inp_of es (aid es a)) (out_of es (aid es a)) = Some (True, s') \<Longrightarrow>
    path m es (cs @ [\<lparr>ca_entry = Some a, ca_state = s\<rparr>]) (lin @ [aid es a]) s'"

inductive_cases path_snocE: "path m es (cs @ [c]) lin s"

lemma path_run:
  "path m es cs lin s \<Longrightarrow> run_ops m (Init m) (map (\<lambda>i. (inp_of es i, out_of es i)) lin) = Some s"
  by (induction rule: path.induct) (auto simp: run_ops_append)

lemma path_partial:
  assumes "path m es cs lin s"
  shows "partial_linearization m es lin"
proof -
  have "distinct lin \<and> set lin \<subseteq> ids es \<and> sorted_wrt (\<lambda>a b. \<not> rt_before es b a) lin \<and>
     (\<forall>a \<in> set lin. \<forall>b \<in> ids es - set lin. \<not> rt_before es b a)"
    using assms
    by (induction rule: path.induct) (auto simp: sorted_wrt_append aid_ids)
  with path_run [OF assms] show ?thesis by (simp add: partial_linearization_def)
qed

lemma path_calls:
  assumes "path m es cs lin s"
  shows "length cs = length lin" and "\<forall>c \<in> set cs. \<exists>a < length es. ca_entry c = Some a \<and> aid es a \<in> set lin"
  using assms by (induction rule: path.induct) auto

end
