(* ===== verification/Check_Single_Correct.thy ===== *)
theory Check_Single_Correct
  imports Search_Space
begin

text \<open>
  The correctness of \<open>checkSingle\<close>: its loop ends, never panics, answers \<open>true\<close> exactly when the
  entries are linearizable (unless it is killed), and the partial linearizations it
  reports are partial linearizations.

  The proof follows the search. \<open>cs_inv\<close> is what every iteration keeps; \<open>outcome\<close> says how
  the exploration from one position ends (a complete linearization, the kill flag, or the first
  remaining return entry with the position shown dead and the heap, the stack and the
  bitset as they were); \<open>explore\<close> proves it by induction on what remains.
\<close>

section \<open>The nodes of the heap\<close>

definition static :: "'v entry list \<Rightarrow> 'v heap \<Rightarrow> bool" where
  "static es h \<longleftrightarrow> length h = Suc (length es) \<and>
     (\<forall>a < length es. node_matches (h ! a) (ent es a) (drop (length es - a) es))"

lemma static_same: "static es h \<Longrightarrow> same_nodes h h' \<Longrightarrow> static es h'"
  by (auto simp: static_def same_nodes_matches) (simp add: same_nodes_def)

lemma ret_addr_Some:
  assumes "ret_addr es i = Some b"
  shows "b < length es" and "en_kind (es ! (length es - 1 - b)) = returnEntry"
    and "en_id (es ! (length es - 1 - b)) = i"
proof -
  have "b < length es \<and> en_kind (es ! (length es - 1 - b)) = returnEntry \<and>
      en_id (es ! (length es - 1 - b)) = i"
    using assms
  proof (induction es)
    case (Cons e es)
    show ?case
    proof (cases "en_kind e = returnEntry \<and> en_id e = i")
      case False
      with Cons have b: "b < length es" "en_kind (es ! (length es - 1 - b)) = returnEntry"
        "en_id (es ! (length es - 1 - b)) = i" by auto
      then have "length (e # es) - 1 - b = Suc (length es - 1 - b)" by simp
      with b show ?thesis by simp
    qed (use Cons in auto)
  qed simp
  then show "b < length es" and "en_kind (es ! (length es - 1 - b)) = returnEntry"
    and "en_id (es ! (length es - 1 - b)) = i" by auto
qed

lemma ret_addr_None: "ret_addr es i = None \<longleftrightarrow> (\<forall>e \<in> set es. \<not> (en_kind e = returnEntry \<and> en_id e = i))"
  by (induction es) auto

lemma static_call:
  assumes "wf_entries es" and "static es h" and "a < length es" and "is_call es a"
  obtains b where "nd_match (h ! a) = Some b" and "b < a" and "\<not> is_call es b" and "aid es b = aid es a"
proof -
  let ?es' = "drop (length es - a) es"
  have match: "nd_match (h ! a) = ret_addr ?es' (aid es a)"
    using assms(2-4) by (simp add: static_def node_matches_def is_call_def aid_def)
  from addr_exists [OF assms(1) aid_ids [OF assms(3)]] obtain r where
    r: "r < length es" "aid es r = aid es a" "\<not> is_call es r" by blast
  have "\<not> a < r"
    using rt_before_addr [OF assms(1) r(1) assms(3) r(3) assms(4)] r(2) rt_before_irrefl [OF assms(1)]
    by simp
  moreover have "r \<noteq> a" using r(3) assms(4) by auto
  ultimately have "r < a" by simp
  then have "ent es r \<in> set ?es'"
    using assms(3) by (auto simp: ent_def in_set_conv_nth intro!: exI [of _ "a - 1 - r"])
  then obtain b where b: "ret_addr ?es' (aid es a) = Some b"
    using r(2,3) ret_addr_None [of ?es' "aid es a"] by (auto simp: aid_def is_call_def entryKind_neq)
  from ret_addr_Some [OF b] have b': "b < a" "en_kind (?es' ! (a - 1 - b)) = returnEntry"
    "en_id (?es' ! (a - 1 - b)) = aid es a" using assms(3) by auto
  have "?es' ! (a - 1 - b) = ent es b"
    using b'(1) assms(3) by (simp add: ent_def)
  with b' b match show thesis using that by (auto simp: is_call_def aid_def)
qed

lemma static_return:
  "static es h \<Longrightarrow> a < length es \<Longrightarrow> \<not> is_call es a \<Longrightarrow> nd_match (h ! a) = None"
  by (simp add: static_def node_matches_def is_call_def entryKind_neq)

lemma static_id: "static es h \<Longrightarrow> a < length es \<Longrightarrow> nd_id (h ! a) = aid es a"
  by (simp add: static_def node_matches_def aid_def)

lemma static_value:
  assumes "wf_entries es" and "static es h" and "a < length es"
  shows "nd_value (h ! a) = Some (if is_call es a then inp_of es (aid es a) else out_of es (aid es a))"
proof -
  have "value_of es (en_kind (ent es a)) (aid es a) = en_value (ent es a)"
    using value_of_nth [OF assms(1) entry_at_addr [OF assms(3)]] by (simp add: ent_def)
  moreover have "nd_value (h ! a) = Some (en_value (ent es a))"
    using assms(2,3) by (simp add: static_def node_matches_def)
  ultimately show ?thesis by (auto simp: is_call_def inp_of_def out_of_def entryKind_neq)
qed

lemma deref_nth: "a < length h \<Longrightarrow> deref h (Some a) = Some (h ! a)"
  by (simp add: deref_def)

lemma call_ids_path:
  assumes "static es h" and "path m es cs lin s"
  shows "call_ids h cs = Some lin"
proof -
  have app: "call_ids h (xs @ ys) = do { a \<leftarrow> call_ids h xs; b \<leftarrow> call_ids h ys; Some (a @ b) }"
    for xs ys :: "'s callsEntry list"
    by (induction xs) (auto split: bind_splits)
  from assms(2) show ?thesis
    by (induction rule: path.induct)
      (use assms(1) in \<open>auto simp: app deref_def static_id static_def\<close>)
qed

section \<open>The reported partial linearizations\<close>

definition longest_ok :: "('v, 's) Model \<Rightarrow> 'v entry list \<Rightarrow> ptr list \<Rightarrow> int list list \<Rightarrow> bool" where
  "longest_ok m es longest seqs \<longleftrightarrow> length longest = length es div 2 \<and>
     (\<forall>i < length longest. \<forall>p. longest ! i = Some p \<longrightarrow>
        p < length seqs \<and> int i \<in> set (seqs ! p) \<and> partial_linearization m es (seqs ! p))"

lemma longest_ok_extend: "longest_ok m es longest seqs \<Longrightarrow> longest_ok m es longest (seqs @ [q])"
  by (fastforce simp: longest_ok_def nth_append)

lemma record_longest_ok:
  assumes "wf_entries es" and "static es h" and "path m es calls lin s"
    and "set vs \<subseteq> set calls" and "longest_ok m es longest seqs"
    and "seq = None \<or> (\<exists>p. seq = Some p \<and> p < length seqs \<and> seqs ! p = lin)"
  shows "\<exists>longest' seqs' seq'. record_longest h calls vs (longest, seqs, seq) = Some (longest', seqs', seq') \<and>
     longest_ok m es longest' seqs'"
  using assms(4-6)
proof (induction vs arbitrary: longest seqs seq)
  case (Cons v vs)
  from Cons.prems(1) path_calls(2) [OF assms(3)] obtain a where
    a: "a < length es" "ca_entry v = Some a" "aid es a \<in> set lin" by auto
  have "aid es a \<in> {0..<int (length es div 2)}"
    using aid_ids [OF a(1)] wf_entries_ids [OF assms(1)] by simp
  then obtain i where i: "aid es a = int i" "i < length longest"
    using Cons.prems(2) by (metis atLeastLessThan_iff longest_ok_def nonneg_int_cases of_nat_less_iff)
  have node: "deref h (ca_entry v) = Some (h ! a)" "nd_id (h ! a) = int i"
    using a assms(2) i(1) by (auto simp: deref_def static_id static_def)
  obtain better where better: "(case longest ! i of None \<Rightarrow> Some True
      | Some p \<Rightarrow> do { l \<leftarrow> slice_get seqs p; Some (length calls > length l) }) = Some better"
    using Cons.prems(2) i(2) by (fastforce simp: longest_ok_def split: option.splits)
  show ?case
  proof (cases better)
    case False
    with Cons.IH [of longest seqs seq] Cons.prems node i better show ?thesis
      by (simp add: int_index_def)
  next
    case True
    define seqs' where "seqs' = (if seq = None then seqs @ [lin] else seqs)"
    define p where "p = (if seq = None then length seqs else the seq)"
    have p: "p < length seqs'" "seqs' ! p = lin"
      using Cons.prems(3) by (auto simp: p_def seqs'_def)
    have "longest_ok m es longest seqs'"
      using Cons.prems(2) longest_ok_extend by (auto simp: seqs'_def)
    then have "longest_ok m es (longest[i := Some p]) seqs'"
      using p i a(3) path_partial [OF assms(3)]
      by (auto simp: longest_ok_def nth_list_update)
    from Cons.IH [OF _ this, of "Some p"] Cons.prems(1) p obtain l2 s2 q2 where
      "record_longest h calls vs (longest[i := Some p], seqs', Some p) = Some (l2, s2, q2)"
      "longest_ok m es l2 s2" by auto
    moreover have "(if seq = None then do { ids \<leftarrow> call_ids h calls; Some (seqs @ [ids], Some (length seqs)) }
        else Some (seqs, seq)) = Some (seqs', Some p)"
      using call_ids_path [OF assms(2,3)] Cons.prems(3) by (auto simp: seqs'_def p_def)
    ultimately show ?thesis using node i better True by (simp add: int_index_def)
  qed
qed simp

section \<open>The invariant of the search\<close>

definition cs_inv :: "('v, 's) Model \<Rightarrow> 'v entry list \<Rightarrow> ('v, 's) cs \<Rightarrow> int list \<Rightarrow> bool" where
  "cs_inv m es st lin \<longleftrightarrow>
     static es (cs_heap st) \<and> cs_head st = Some (length es) \<and> cs_n st = length es div 2 \<and>
     dseg (cs_heap st) None (length es # rem es (set lin)) None \<and>
     bits (cs_linearized st) = nat ` set lin \<and>
     length (cs_linearized st) = length (newBitset (length es div 2)) \<and>
     path m es (cs_calls st) lin (cs_state st) \<and>
     longest_ok m es (cs_longest st) (cs_seqs st)"

lemma cs_inv_head:
  assumes "cs_inv m es st lin"
  shows "deref (cs_heap st) (cs_head st) = Some (cs_heap st ! length es)"
    and "nd_next (cs_heap st ! length es) = first_of (rem es (set lin)) None"
  using assms by (auto simp: cs_inv_def deref_def)

lemma cs_inv_partial: "cs_inv m es st lin \<Longrightarrow> partial_linearization m es lin"
  by (auto simp: cs_inv_def dest: path_partial)

lemma cs_inv_frame:
  assumes "cs_inv m es st lin" and "cs_heap st' = cs_heap st" and "cs_head st' = cs_head st"
    and "cs_n st' = cs_n st" and "cs_linearized st' = cs_linearized st" and "cs_calls st' = cs_calls st"
    and "cs_state st' = cs_state st" and "longest_ok m es (cs_longest st') (cs_seqs st')"
  shows "cs_inv m es st' lin"
  using assms by (simp add: cs_inv_def)

lemma ids_nat:
  assumes "wf_entries es" and "B \<subseteq> ids es"
  shows "int ` nat ` B = B" and "inj_on nat B"
proof -
  have "\<forall>i \<in> B. 0 \<le> i" using assms by (auto simp: wf_entries_ids)
  then show "int ` nat ` B = B" by (force simp: image_iff)
  show "inj_on nat B"
    using \<open>\<forall>i \<in> B. 0 \<le> i\<close> by (intro inj_onI) (metis eq_nat_nat_iff)
qed

lemma to_uint_id:
  assumes "wf_entries es" and "length es < 2 ^ 63" and "i \<in> ids es"
  shows "to_uint i = nat i" and "nat i < 64 * length (newBitset (length es div 2))"
proof -
  from assms(1,3) have i: "0 \<le> i" "i < int (length es div 2)" by (auto simp: wf_entries_ids)
  have "int (length es) < 2 ^ 64" using assms(2) by simp
  with i(2) have "i < 2 ^ 64" by linarith
  with i(1) show "to_uint i = nat i" by (rule to_uint_nonneg)
  show "nat i < 64 * length (newBitset (length es div 2))"
    using i length_newBitset [of "length es div 2"] by linarith
qed

text \<open>Removing an operation from what remains takes away its call and its return.\<close>

lemma rem_split:
  assumes "wf_entries es" and "rem es B = pre @ c # post" and "is_call es c"
    and "b < c" and "\<not> is_call es b" and "aid es b = aid es c"
  obtains vs ws where "post = vs @ b # ws" and "rem es (insert (aid es c) B) = pre @ vs @ ws"
proof -
  have c: "c < length es" "aid es c \<notin> B" using assms(2) set_rem [of es B] by auto
  then have "b \<in> set (pre @ c # post)"
    unfolding assms(2) [symmetric] using assms(4,6) by (simp add: set_rem)
  moreover have "\<forall>a \<in> set pre. c < a" using sorted_rem [of es B] by (auto simp: assms(2) sorted_wrt_append)
  ultimately have "b \<in> set post" using assms(4) by auto
  then obtain vs ws where post: "post = vs @ b # ws" by (auto simp: in_set_conv_decomp)
  have dist: "distinct (pre @ c # vs @ b # ws)" using distinct_rem [of es B] by (simp add: assms(2) post)
  have only: "aid es a \<noteq> aid es c" if "a \<in> set pre \<union> set vs \<union> set ws" for a
  proof
    assume eq: "aid es a = aid es c"
    have "a \<in> set (rem es B)" using that by (auto simp: assms(2) post)
    then have "a < length es" by (simp add: set_rem)
    then have "a = c \<or> a = b"
      using addr_unique [OF assms(1) _ c(1)] addr_unique [OF assms(1), of a b] c(1) assms(3-6) eq
      by (cases "is_call es a") auto
    with that dist show False by auto
  qed
  have keep: "filter (\<lambda>a. aid es a \<noteq> aid es c) xs = xs" if "\<forall>a \<in> set xs. a \<in> set pre \<union> set vs \<union> set ws" for xs
    using only that by (intro filter_True) blast
  have "rem es (insert (aid es c) B) = pre @ vs @ ws"
    using assms(6) keep [of pre] keep [of vs] keep [of ws] by (simp add: rem_insert assms(2) post)
  with post show thesis by (rule that)
qed

section \<open>Single iterations\<close>

lemma step_finish:
  assumes "cs_inv m es st lin" and "rem es (set lin) = []"
  shows "checkSingle_step m cp k st = Return True (st\<lparr>cs_seqs := cs_seqs st @ [lin],
     cs_longest := replicate (cs_n st) (Some (length (cs_seqs st)))\<rparr>)"
proof -
  have "call_ids (cs_heap st) (cs_calls st) = Some lin"
    using assms(1) by (auto simp: cs_inv_def intro: call_ids_path)
  with cs_inv_head [OF assms(1)] assms(2) show ?thesis
    by (simp add: checkSingle_step_def checkSingle_body_def finish_def)
qed

lemma step_killed:
  assumes "cs_inv m es st lin" and "rem es (set lin) \<noteq> []"
  shows "checkSingle_step m cp True st = Return False st"
  using cs_inv_head [OF assms(1)] assms(2)
  by (auto simp: checkSingle_step_def checkSingle_body_def first_of_def split: list.splits)

lemma step_at:
  assumes "cs_inv m es st lin" and "cs_entry st = Some c" and "c \<in> set (rem es (set lin))"
  shows "checkSingle_body m cp False st =
    (if nd_match (cs_heap st ! c) \<noteq> None then try_call m st (cs_heap st ! c) else backtrack cp st)"
proof -
  have "rem es (set lin) \<noteq> []" using assms(3) by auto
  moreover have "c < length (cs_heap st)" using assms by (auto simp: cs_inv_def static_def set_rem)
  moreover note assms(2)
  ultimately show ?thesis using cs_inv_head [OF assms(1)]
    by (auto simp: checkSingle_body_def deref_def first_of_def split: list.splits)
qed

lemma cacheContains_Some:
  assumes "Equal m = Some eq"
  obtains hit where "cacheContains m cache ce = Some hit"
    and "hit \<Longrightarrow> \<exists>elem \<in> set (cache (bitset_hash (ce_linearized ce))).
        ce_linearized elem = ce_linearized ce \<and> eq (ce_state ce) (ce_state elem)"
proof -
  have "\<exists>hit. cacheContains_loop m ce es = Some hit \<and> (hit \<longrightarrow> (\<exists>elem \<in> set es.
        ce_linearized elem = ce_linearized ce \<and> eq (ce_state ce) (ce_state elem)))" for es
    by (induction es) (auto simp: assms bitset_equals_iff)
  then show thesis using that by (auto simp: cacheContains_def)
qed

text \<open>The state after the call \<open>c\<close> has been linearized.\<close>

definition pushed :: "('v, 's) cs \<Rightarrow> nat \<Rightarrow> 's \<Rightarrow> bitset \<Rightarrow> 'v heap \<Rightarrow> ptr \<Rightarrow> ('v, 's) cs" where
  "pushed st c s' nb h nxt = st\<lparr>
     cs_cache := (cs_cache st)(bitset_hash nb := cs_cache st (bitset_hash nb) @
        [\<lparr>ce_linearized = nb, ce_state = s'\<rparr>]),
     cs_calls := cs_calls st @ [\<lparr>ca_entry = Some c, ca_state = cs_state st\<rparr>],
     cs_state := s', cs_linearized := nb, cs_heap := h, cs_entry := nxt\<rparr>"

text \<open>The search looks at the call or return \<open>c\<close>, and only calls remain in front of it.\<close>

definition position ::
  "('v, 's) Model \<Rightarrow> 'v entry list \<Rightarrow> ('v, 's) cs \<Rightarrow> int list \<Rightarrow> nat list \<Rightarrow> nat \<Rightarrow> nat list \<Rightarrow> bool" where
  "position m es st lin pre c post \<longleftrightarrow>
     wf_entries es \<and> length es < 2 ^ 63 \<and> cs_inv m es st lin \<and> cs_entry st = Some c \<and>
     rem es (set lin) = pre @ c # post \<and> (\<forall>a \<in> set pre. is_call es a)"

lemma positionD:
  assumes "position m es st lin pre c post"
  shows "wf_entries es" and "length es < 2 ^ 63" and "cs_inv m es st lin" and "cs_entry st = Some c"
    and "rem es (set lin) = pre @ c # post" and "\<forall>a \<in> set pre. is_call es a"
  using assms by (simp_all add: position_def)

lemma position_facts:
  assumes "position m es st lin pre c post"
  shows "c \<in> set (rem es (set lin))" and "c < length es" and "aid es c \<notin> set lin"
    and "static es (cs_heap st)" and "nd_next (cs_heap st ! c) = first_of post None"
    and "path m es (cs_calls st) lin (cs_state st)"
proof -
  note pos = positionD [OF assms]
  show "c \<in> set (rem es (set lin))" by (simp add: pos(5))
  then show "c < length es" and "aid es c \<notin> set lin" by (simp_all add: set_rem)
  show "static es (cs_heap st)" and "nd_next (cs_heap st ! c) = first_of post None"
    and "path m es (cs_calls st) lin (cs_state st)"
    using pos(3,5) by (simp_all add: cs_inv_def)
qed

text \<open>A call's matching return, and what \<open>try_call\<close> reads before it asks the model.\<close>

lemma position_match:
  assumes "position m es st lin pre c post" and "is_call es c"
  obtains b where "nd_match (cs_heap st ! c) = Some b" and "b < c" and "\<not> is_call es b"
    and "aid es b = aid es c" and "deref (cs_heap st) (Some b) = Some (cs_heap st ! b)"
    and "nd_value (cs_heap st ! c) = Some (inp_of es (aid es c))"
    and "nd_value (cs_heap st ! b) = Some (out_of es (aid es c))"
proof -
  note pos = positionD [OF assms(1)] and facts = position_facts [OF assms(1)]
  from static_call [OF pos(1) facts(4,2) assms(2)] obtain b where
    b: "nd_match (cs_heap st ! c) = Some b" "b < c" "\<not> is_call es b" "aid es b = aid es c" .
  then have "b < length es" using facts(2) by simp
  then have "deref (cs_heap st) (Some b) = Some (cs_heap st ! b)"
    using facts(4) by (simp add: deref_def static_def)
  with b show thesis
    using that static_value [OF pos(1) facts(4,2)] static_value [OF pos(1) facts(4) \<open>b < length es\<close>]
      assms(2) by simp
qed

lemma step_refused:
  assumes "position m es st lin pre c post" and "is_call es c"
    and "Step m (cs_state st) (inp_of es (aid es c)) (out_of es (aid es c)) = Some (False, s')"
  shows "checkSingle_step m cp False st = Continue (st\<lparr>cs_entry := first_of post None\<rparr>)"
proof -
  note pos = positionD [OF assms(1)] and facts = position_facts [OF assms(1)]
  from position_match [OF assms(1,2)] obtain b where
    b: "nd_match (cs_heap st ! c) = Some b" "deref (cs_heap st) (Some b) = Some (cs_heap st ! b)"
      "nd_value (cs_heap st ! c) = Some (inp_of es (aid es c))"
      "nd_value (cs_heap st ! b) = Some (out_of es (aid es c))" .
  then have "try_call m st (cs_heap st ! c) = Some (Continue (st\<lparr>cs_entry := first_of post None\<rparr>))"
    using assms(3) facts(5) by (simp add: try_call_def)
  then show ?thesis
    using b(1) step_at [OF pos(3,4) facts(1)] by (simp add: checkSingle_step_def)
qed

text \<open>
  The model accepts: the operation is skipped when the cache knows the position it leads to,
  and linearized otherwise. Then \<open>backtrack\<close> undoes the step exactly.
\<close>

lemma step_accepted:
  assumes "position m es st lin pre c post" and "is_call es c" and "Equal m = Some eq"
    and "Step m (cs_state st) (inp_of es (aid es c)) (out_of es (aid es c)) = Some (True, s')"
  obtains (cached) ce hash where "checkSingle_step m cp False st = Continue (st\<lparr>cs_entry := first_of post None\<rparr>)"
    and "ce \<in> set (cs_cache st hash)" and "bits (ce_linearized ce) = nat ` insert (aid es c) (set lin)"
    and "eq s' (ce_state ce)"
  | (push) nb h nxt where "checkSingle_step m cp False st = Continue (pushed st c s' nb h nxt)"
    and "bits nb = nat ` insert (aid es c) (set lin)"
    and "cs_inv m es (pushed st c s' nb h nxt) (lin @ [aid es c])"
    and "nxt = first_of (rem es (insert (aid es c) (set lin))) None"
    and "length (rem es (insert (aid es c) (set lin))) < length (rem es (set lin))"
    and "unlift h (Some c) = Some (cs_heap st)"
    and "bitset_clear nb (to_uint (aid es c)) = Some (cs_linearized st)"
proof -
  note pos = positionD [OF assms(1)] and facts = position_facts [OF assms(1)]
  let ?i = "aid es c" and ?lin' = "lin @ [aid es c]"
  from position_match [OF assms(1,2)] obtain b where
    b: "nd_match (cs_heap st ! c) = Some b" "b < c" "\<not> is_call es b" "aid es b = ?i"
      "deref (cs_heap st) (Some b) = Some (cs_heap st ! b)"
      "nd_value (cs_heap st ! c) = Some (inp_of es ?i)" "nd_value (cs_heap st ! b) = Some (out_of es ?i)" .
  have bits: "bits (cs_linearized st) = nat ` set lin"
    and room: "length (cs_linearized st) = length (newBitset (length es div 2))"
    and seg: "dseg (cs_heap st) None (length es # rem es (set lin)) None"
    using pos(3) by (simp_all add: cs_inv_def)
  have i: "?i \<in> ids es" by (rule aid_ids [OF facts(2)])
  note uint = to_uint_id [OF pos(1,2) i]
  have "nat ?i < 64 * length (cs_linearized st)" using uint(2) room by simp
  from bs.add_ok [OF this] obtain nb where
    nb: "bitset_set (cs_linearized st) (nat ?i) = Some nb" "64 * length nb = 64 * length (cs_linearized st)"
      "bits nb = insert (nat ?i) (nat ` set lin)" using bits by auto
  have id: "nd_id (cs_heap st ! c) = ?i" using static_id [OF facts(4,2)] .
  obtain hit where hit: "cacheContains m (cs_cache st) \<lparr>ce_linearized = nb, ce_state = s'\<rparr> = Some hit"
    "hit \<Longrightarrow> \<exists>elem \<in> set (cs_cache st (bitset_hash nb)). ce_linearized elem = nb \<and> eq s' (ce_state elem)"
    using cacheContains_Some [OF assms(3), of "cs_cache st" "\<lparr>ce_linearized = nb, ce_state = s'\<rparr>"]
    by auto
  note step = step_at [OF pos(3,4) facts(1)] and eval = b(1,5-7) assms(4) id uint(1) nb(1) hit(1) pos(4)
  show thesis
  proof (cases hit)
    case True
    with hit(2) obtain ce where ce: "ce \<in> set (cs_cache st (bitset_hash nb))" "ce_linearized ce = nb"
      "eq s' (ce_state ce)" by auto
    have "checkSingle_step m cp False st = Continue (st\<lparr>cs_entry := first_of post None\<rparr>)"
      using True eval facts(5) by (simp add: checkSingle_step_def step try_call_def)
    from cached [OF this ce(1) _ ce(3)] ce(2) nb(3) show ?thesis by simp
  next
    case False
    from rem_split [OF pos(1,5) assms(2) b(2-4)] obtain vs ws where
      vs: "post = vs @ b # ws" "rem es (insert ?i (set lin)) = pre @ vs @ ws" .
    have "distinct ((length es # pre) @ c # vs @ b # ws)"
      using distinct_rem [of es "set lin"] set_rem [of es "set lin"] unfolding pos(5) vs(1) by auto
    moreover have "dseg (cs_heap st) None ((length es # pre) @ c # vs @ b # ws) None"
      using seg by (simp add: pos(5) vs(1))
    ultimately obtain h where h: "lift (cs_heap st) (Some c) = Some h"
      "dseg h None ((length es # pre) @ vs @ ws) None" "unlift h (Some c) = Some (cs_heap st)"
      "same_nodes (cs_heap st) h"
      using lift_unlift [of "cs_heap st" "length es # pre" c vs b ws] b(1) by auto
    let ?nxt = "first_of (rem es (insert ?i (set lin))) None"
    have head: "deref h (Some (length es)) = Some (h ! length es)" "nd_next (h ! length es) = ?nxt"
      using h(2) by (auto simp: deref_def vs(2))
    have "checkSingle_step m cp False st = Continue (pushed st c s' nb h ?nxt)"
      using False eval h(1) head pos(3)
      by (simp add: Let_def checkSingle_step_def step try_call_def pushed_def cs_inv_def)
    moreover have "cs_inv m es (pushed st c s' nb h ?nxt) ?lin'"
    proof -
      have "path m es (cs_calls st @ [\<lparr>ca_entry = Some c, ca_state = cs_state st\<rparr>]) ?lin' s'"
        using path_push [OF facts(6,2) assms(2) facts(3) _ assms(4)]
          call_minimal [OF pos(1,5,6) assms(2)] by blast
      then show ?thesis
        using pos(3) static_same [OF facts(4) h(4)] h(2) nb(2,3)
        by (simp add: cs_inv_def pushed_def vs(2))
    qed
    moreover have "bitset_clear nb (to_uint ?i) = Some (cs_linearized st)"
    proof -
      have "nat ?i \<notin> nat ` set lin"
        using facts(3) cs_inv_partial [OF pos(3)] ids_nat(2) [OF pos(1), of "insert ?i (set lin)"] i
        by (auto simp: partial_linearization_def inj_on_def)
      then show ?thesis
        using bs.add_del [of "nat ?i" "cs_linearized st" nb] uint room nb(1) bits by simp
    qed
    ultimately show ?thesis
      using push [of nb h ?nxt] nb(3) h(3) vs pos(5) by simp
  qed
qed

lemma step_backtrack:
  assumes "position m es st lin pre c post" and "is_call es c"
    and "unlift h (Some c) = Some (cs_heap st)" and "bitset_clear nb (to_uint (aid es c)) = Some (cs_linearized st)"
    and "cs_inv m es st2 (lin @ [aid es c])" and "cs_heap st2 = h" and "cs_linearized st2 = nb"
    and "cs_calls st2 = cs_calls st @ [\<lparr>ca_entry = Some c, ca_state = cs_state st\<rparr>]"
    and "cs_entry st2 = Some r" and "r < length es" and "\<not> is_call es r"
    and "rem es (insert (aid es c) (set lin)) \<noteq> []"
  obtains st3 where "checkSingle_step m cp False st2 = Continue st3"
    and "cs_heap st3 = cs_heap st" and "cs_linearized st3 = cs_linearized st"
    and "cs_calls st3 = cs_calls st" and "cs_state st3 = cs_state st"
    and "cs_entry st3 = first_of post None" and "cs_cache st3 = cs_cache st2"
    and "cs_head st3 = cs_head st2" and "cs_n st3 = cs_n st2"
    and "longest_ok m es (cs_longest st3) (cs_seqs st3)"
proof -
  note pos = positionD [OF assms(1)] and facts = position_facts [OF assms(1)]
  have inv2: "static es h" "path m es (cs_calls st2) (lin @ [aid es c]) (cs_state st2)"
    "longest_ok m es (cs_longest st2) (cs_seqs st2)" using assms(5,6) by (auto simp: cs_inv_def)
  obtain longest seqs seq where rec: "(if cp
      then record_longest (cs_heap st2) (cs_calls st2) (cs_calls st2) (cs_longest st2, cs_seqs st2, None)
      else Some (cs_longest st2, cs_seqs st2, None)) = Some (longest, seqs, seq)"
    "longest_ok m es longest seqs"
    using record_longest_ok [OF pos(1) inv2(1,2) subset_refl inv2(3), of None] assms(6) inv2(3)
    by (cases cp) auto
  have heap: "deref h (Some c) = Some (h ! c)" "nd_id (h ! c) = aid es c"
    "deref (cs_heap st) (Some c) = Some (cs_heap st ! c)" "deref h (Some r) = Some (h ! r)"
    "nd_match (h ! r) = None"
    using facts(2,4) inv2(1) assms(10,11) static_return
    by (auto simp: deref_def static_def static_id)
  have bt: "backtrack cp st2 = Some (Continue (st2\<lparr>cs_longest := longest, cs_seqs := seqs,
      cs_state := cs_state st, cs_linearized := cs_linearized st, cs_calls := cs_calls st,
      cs_heap := cs_heap st, cs_entry := first_of post None\<rparr>))"
    using rec(1) assms(3,4,6-8) heap facts(5) by (simp add: backtrack_def)
  have "first_of (rem es (insert (aid es c) (set lin))) None \<noteq> None"
    using assms(12) by (auto simp: first_of_def split: list.splits)
  then have "checkSingle_body m cp False st2 = backtrack cp st2"
    using cs_inv_head [OF assms(5)] heap assms(6,9) by (auto simp: checkSingle_body_def)
  then show thesis
    using that [of "st2\<lparr>cs_longest := longest, cs_seqs := seqs,
      cs_state := cs_state st, cs_linearized := cs_linearized st, cs_calls := cs_calls st,
      cs_heap := cs_heap st, cs_entry := first_of post None\<rparr>"] bt rec(2)
    by (simp add: checkSingle_step_def)
qed

section \<open>Runs of the loop\<close>

definition step_rel ::
  "('v, 's) Model \<Rightarrow> bool \<Rightarrow> (nat \<Rightarrow> bool) \<Rightarrow> nat \<times> ('v, 's) cs \<Rightarrow> nat \<times> ('v, 's) cs \<Rightarrow> bool" where
  "step_rel m cp kill p q \<longleftrightarrow>
     checkSingle_step m cp (kill (fst p)) (snd p) = Continue (snd q) \<and> fst q = Suc (fst p)"

abbreviation runs ::
  "('v, 's) Model \<Rightarrow> bool \<Rightarrow> (nat \<Rightarrow> bool) \<Rightarrow> nat \<times> ('v, 's) cs \<Rightarrow> nat \<times> ('v, 's) cs \<Rightarrow> bool" where
  "runs m cp kill \<equiv> (step_rel m cp kill)\<^sup>*\<^sup>*"

lemma runs_step:
  "\<not> kill t \<Longrightarrow> checkSingle_step m cp False st = Continue st' \<Longrightarrow> runs m cp kill (Suc t, st') q \<Longrightarrow>
    runs m cp kill (t, st) q"
  by (rule converse_rtranclp_into_rtranclp) (auto simp: step_rel_def)

lemma loop_runs:
  assumes "runs m cp kill p q"
  shows "checkSingle_loop m cp kill (fst p) (snd p) = checkSingle_loop m cp kill (fst q) (snd q)"
  using assms
proof (induction rule: rtranclp_induct)
  case (step q q')
  then have "checkSingle_loop m cp kill (fst q) (snd q) = checkSingle_loop m cp kill (fst q') (snd q')"
    by (subst checkSingle_loop.simps) (simp add: step_rel_def)
  with step show ?case by simp
qed simp

lemma loop_Return:
  "checkSingle_step m cp (kill t) st = Return ok st' \<Longrightarrow> checkSingle_loop m cp kill t st = Some (Return ok st')"
  by (subst checkSingle_loop.simps) simp

section \<open>The outcome of exploring a position\<close>

definition cache_dead :: "('v, 's) Model \<Rightarrow> 'v entry list \<Rightarrow> 's cacheEntry \<Rightarrow> bool" where
  "cache_dead m es ce \<longleftrightarrow> dead m es (int ` bits (ce_linearized ce)) (ce_state ce)"

definition cache_ok :: "('v, 's) Model \<Rightarrow> 'v entry list \<Rightarrow> ('v, 's) cs \<Rightarrow> nat \<Rightarrow> bool" where
  "cache_ok m es st k \<longleftrightarrow>
     (\<forall>hash. \<forall>ce \<in> set (cs_cache st hash). k < card (bits (ce_linearized ce)) \<longrightarrow> cache_dead m es ce)"

definition same_position :: "('v, 's) cs \<Rightarrow> ('v, 's) cs \<Rightarrow> bool" where
  "same_position st st' \<longleftrightarrow> cs_heap st' = cs_heap st \<and> cs_linearized st' = cs_linearized st \<and>
     cs_calls st' = cs_calls st \<and> cs_state st' = cs_state st"

definition found :: "('v, 's) Model \<Rightarrow> bool \<Rightarrow> (nat \<Rightarrow> bool) \<Rightarrow> 'v entry list \<Rightarrow> nat \<times> ('v, 's) cs \<Rightarrow> bool" where
  "found m cp kill es p \<longleftrightarrow>
     (\<exists>q lin. runs m cp kill p q \<and> cs_inv m es (snd q) lin \<and> rem es (set lin) = [])"

definition stopped :: "('v, 's) Model \<Rightarrow> bool \<Rightarrow> (nat \<Rightarrow> bool) \<Rightarrow> 'v entry list \<Rightarrow> nat \<times> ('v, 's) cs \<Rightarrow> bool" where
  "stopped m cp kill es p \<longleftrightarrow>
     (\<exists>q lin. runs m cp kill p q \<and> cs_inv m es (snd q) lin \<and> rem es (set lin) \<noteq> [] \<and> kill (fst q))"

definition exhausted ::
  "('v, 's) Model \<Rightarrow> bool \<Rightarrow> (nat \<Rightarrow> bool) \<Rightarrow> 'v entry list \<Rightarrow> nat \<times> ('v, 's) cs \<Rightarrow> int list \<Rightarrow> bool" where
  "exhausted m cp kill es p lin \<longleftrightarrow>
     (\<exists>q r. runs m cp kill p q \<and> cs_inv m es (snd q) lin \<and> same_position (snd p) (snd q) \<and>
        cs_entry (snd q) = Some r \<and> r \<in> set (rem es (set lin)) \<and> \<not> is_call es r \<and>
        dead m es (set lin) (cs_state (snd p)) \<and>
        (\<forall>hash. \<forall>ce \<in> set (cs_cache (snd q) hash). ce \<in> set (cs_cache (snd p) hash) \<or> cache_dead m es ce))"

definition outcome ::
  "('v, 's) Model \<Rightarrow> bool \<Rightarrow> (nat \<Rightarrow> bool) \<Rightarrow> 'v entry list \<Rightarrow> nat \<times> ('v, 's) cs \<Rightarrow> int list \<Rightarrow> bool" where
  "outcome m cp kill es p lin \<longleftrightarrow>
     found m cp kill es p \<or> stopped m cp kill es p \<or> exhausted m cp kill es p lin"

lemma found_runs: "runs m cp kill p p' \<Longrightarrow> found m cp kill es p' \<Longrightarrow> found m cp kill es p"
  unfolding found_def by (meson rtranclp_trans)

lemma stopped_runs: "runs m cp kill p p' \<Longrightarrow> stopped m cp kill es p' \<Longrightarrow> stopped m cp kill es p"
  unfolding stopped_def by (meson rtranclp_trans)

lemma exhausted_runs:
  assumes "runs m cp kill p p'" and "same_position (snd p) (snd p')"
    and "\<forall>hash. \<forall>ce \<in> set (cs_cache (snd p') hash). ce \<in> set (cs_cache (snd p) hash) \<or> cache_dead m es ce"
    and "exhausted m cp kill es p' lin"
  shows "exhausted m cp kill es p lin"
proof -
  from assms(4) obtain q r where "runs m cp kill p' q" "cs_inv m es (snd q) lin"
    "same_position (snd p') (snd q)" "cs_entry (snd q) = Some r" "r \<in> set (rem es (set lin))"
    "\<not> is_call es r" "dead m es (set lin) (cs_state (snd p'))"
    "\<forall>hash. \<forall>ce \<in> set (cs_cache (snd q) hash). ce \<in> set (cs_cache (snd p') hash) \<or> cache_dead m es ce"
    by (auto simp: exhausted_def)
  moreover from this assms(1,2) have "runs m cp kill p q" "same_position (snd p) (snd q)"
    by (auto simp: same_position_def)
  moreover have "cs_state (snd p) = cs_state (snd p')" using assms(2) by (simp add: same_position_def)
  ultimately show ?thesis using assms(3) unfolding exhausted_def by metis
qed

section \<open>Exploring a position\<close>

text \<open>
  The contract of a model on which the cache may be used: states that \<open>Equal\<close> identifies
  accept the same operations and stay identified.
\<close>

locale equal_model =
  fixes m :: "('v, 's) Model" and eq :: "'s \<Rightarrow> 's \<Rightarrow> bool"
  assumes equal: "Equal m = Some eq"
    and equal_step: "eq s t \<Longrightarrow> Step m s x y = Some (True, s') \<Longrightarrow>
      \<exists>t'. Step m t x y = Some (True, t') \<and> eq s' t'"
begin

lemma run_ops_equal: "eq s t \<Longrightarrow> run_ops m s ops \<noteq> None \<Longrightarrow> run_ops m t ops \<noteq> None"
proof (induction ops arbitrary: s t)
  case (Cons a ops)
  obtain x y where a: "a = (x, y)" by force
  from Cons.prems(2) obtain s' where s': "Step m s x y = Some (True, s')" "run_ops m s' ops \<noteq> None"
    unfolding a run_ops_Cons_Some by blast
  from equal_step [OF Cons.prems(1) s'(1)] obtain t' where
    "Step m t x y = Some (True, t')" "eq s' t'" by blast
  with Cons.IH s'(2) show ?case unfolding a run_ops_Cons_Some by blast
qed simp

lemma dead_equal:
  assumes "eq s t" and "dead m es B t"
  shows "dead m es B s"
  unfolding dead_def
proof
  assume "\<exists>lin. linearizes m (ids es - B) (rt_before es) (inp_of es) (out_of es) s lin"
  then obtain lin where "linearizes m (ids es - B) (rt_before es) (inp_of es) (out_of es) s lin" ..
  then have "linearizes m (ids es - B) (rt_before es) (inp_of es) (out_of es) t lin"
    unfolding linearizes_def using run_ops_equal [OF assms(1)] by blast
  with assms(2) show False unfolding dead_def by blast
qed

end

text \<open>
  \<open>Step\<close> does not panic on the inputs and outputs of the history, in no state that it can itself
  lead to from the initial one.
\<close>

definition steps_safe :: "('v, 's) Model \<Rightarrow> 'v entry list \<Rightarrow> bool" where
  "steps_safe m es \<longleftrightarrow> (\<forall>lin s. set lin \<subseteq> ids es \<longrightarrow>
     run_ops m (Init m) (map (\<lambda>i. (inp_of es i, out_of es i)) lin) = Some s \<longrightarrow>
     (\<forall>i \<in> ids es. Step m s (inp_of es i) (out_of es i) \<noteq> None))"

lemma run_ops_invariant:
  assumes "P s" and "run_ops m s ops = Some s'"
    and "\<forall>(x, y) \<in> set ops. \<forall>s s'. P s \<longrightarrow> Step m s x y = Some (True, s') \<longrightarrow> P s'"
  shows "P s'"
  using assms
proof (induction ops arbitrary: s)
  case (Cons a ops)
  obtain x y where a: "a = (x, y)" by force
  from Cons.prems(2) a obtain s1 where s1: "Step m s x y = Some (True, s1)" "run_ops m s1 ops = Some s'"
    by (auto split: option.splits if_splits)
  from Cons.prems(1,3) s1(1) a have "P s1" by auto
  from Cons.IH [OF this s1(2)] Cons.prems(3) show ?case by simp
qed simp

text \<open>It is enough that the states keep an invariant under which \<open>Step\<close> does not panic.\<close>

lemma steps_safeI:
  assumes "P (Init m)"
    and "\<And>s i r. i \<in> ids es \<Longrightarrow> P s \<Longrightarrow> Step m s (inp_of es i) (out_of es i) = Some (True, r) \<Longrightarrow> P r"
    and "\<And>s i. i \<in> ids es \<Longrightarrow> P s \<Longrightarrow> Step m s (inp_of es i) (out_of es i) \<noteq> None"
  shows "steps_safe m es"
  unfolding steps_safe_def
proof (intro allI impI ballI)
  fix lin s i
  assume "set lin \<subseteq> ids es" and "run_ops m (Init m) (map (\<lambda>i. (inp_of es i, out_of es i)) lin) = Some s"
    and "i \<in> ids es"
  moreover have "\<forall>(x, y) \<in> set (map (\<lambda>i. (inp_of es i, out_of es i)) lin). \<forall>s s'. P s \<longrightarrow>
      Step m s x y = Some (True, s') \<longrightarrow> P s'"
    using assms(2) calculation(1) by (fastforce simp: subset_iff)
  ultimately have "P s" using run_ops_invariant [of P, OF assms(1)] by blast
  with \<open>i \<in> ids es\<close> show "Step m s (inp_of es i) (out_of es i) \<noteq> None" using assms(3) by blast
qed

text \<open>The measure of a position: first what remains, then what stands behind the current entry.\<close>

definition pos_measure :: "'v entry list \<Rightarrow> int list \<Rightarrow> nat list \<Rightarrow> nat" where
  "pos_measure es lin post = length (rem es (set lin)) * Suc (length es) + length post"

lemma length_rem_le: "length (rem es B) \<le> length es"
  unfolding rem_def by (metis length_filter_le length_rev length_upt diff_zero)

definition explored ::
  "('v, 's) Model \<Rightarrow> bool \<Rightarrow> (nat \<Rightarrow> bool) \<Rightarrow> 'v entry list \<Rightarrow> nat \<Rightarrow> bool" where
  "explored m cp kill es k \<longleftrightarrow>
     (\<forall>t st lin pre c post. pos_measure es lin post < k \<longrightarrow> position m es st lin pre c post \<longrightarrow>
        (\<forall>a \<in> set pre. call_fails m es (set lin) (cs_state st) a) \<longrightarrow> cache_ok m es st (length lin) \<longrightarrow>
        outcome m cp kill es (t, st) lin)"

lemma post_nonempty:
  assumes "position m es st lin pre c post" and "is_call es c"
  obtains c' post' where "post = c' # post'"
proof -
  from position_match [OF assms] obtain b where b: "b < c" "\<not> is_call es b" "aid es b = aid es c" .
  from rem_split [OF positionD(1,5) [OF assms(1)] assms(2) b] show thesis
    using that by (metis neq_Nil_conv Nil_is_append_conv list.distinct(1))
qed

text \<open>The search goes on behind the call \<open>c\<close> once \<open>c\<close> is known to fail.\<close>

lemma outcome_advance:
  assumes pos: "position m es st lin pre c post" and "is_call es c"
    and fails: "\<forall>a \<in> set (pre @ [c]). call_fails m es (set lin) (cs_state st) a"
    and cache: "cache_ok m es st (length lin)"
    and rest: "explored m cp kill es (pos_measure es lin post)"
    and run: "runs m cp kill (t, st) (t', st')" and same: "same_position st st'"
    and "cs_head st' = cs_head st" and "cs_n st' = cs_n st"
    and "longest_ok m es (cs_longest st') (cs_seqs st')" and "cs_entry st' = first_of post None"
    and new: "\<forall>hash. \<forall>ce \<in> set (cs_cache st' hash). ce \<in> set (cs_cache st hash) \<or> cache_dead m es ce"
  shows "outcome m cp kill es (t, st) lin"
proof -
  from post_nonempty [OF pos assms(2)] obtain c' post' where post: "post = c' # post'" .
  have "cs_inv m es st' lin"
    using cs_inv_frame [OF positionD(3) [OF pos]] same assms(8-10) by (simp add: same_position_def)
  then have "position m es st' lin (pre @ [c]) c' post'"
    using pos assms(2,11) post by (simp add: position_def)
  moreover have "\<forall>a \<in> set (pre @ [c]). call_fails m es (set lin) (cs_state st') a"
    using fails same by (simp add: same_position_def)
  moreover have "cache_ok m es st' (length lin)"
    using cache new unfolding cache_ok_def by blast
  moreover have "pos_measure es lin post' < pos_measure es lin post"
    by (simp add: pos_measure_def post)
  ultimately have "outcome m cp kill es (t', st') lin"
    using rest unfolding explored_def by blast
  then show ?thesis
    unfolding outcome_def
    using found_runs [OF run] stopped_runs [OF run] exhausted_runs [OF run] same new by auto
qed

text \<open>Below a pushed call only dead configurations are added to the cache.\<close>

lemma pushed_cache:
  assumes "wf_entries es" and bits: "bits nb = nat ` insert i (set lin)" and lin1: "set (lin @ [i]) \<subseteq> ids es"
    and dead: "dead m es (insert i (set lin)) s'"
    and new: "\<forall>hash. \<forall>ce \<in> set (cs_cache st2 hash). ce \<in> set (cs_cache (pushed st c s' nb h nxt) hash) \<or> cache_dead m es ce"
  shows "\<forall>hash. \<forall>ce \<in> set (cs_cache st2 hash). ce \<in> set (cs_cache st hash) \<or> cache_dead m es ce"
proof -
  have "cache_dead m es \<lparr>ce_linearized = nb, ce_state = s'\<rparr>"
    using dead bits ids_nat(1) [OF assms(1), of "insert i (set lin)"] lin1 by (simp add: cache_dead_def)
  moreover have "set (cs_cache (pushed st c s' nb h nxt) hash) \<subseteq>
      insert \<lparr>ce_linearized = nb, ce_state = s'\<rparr> (set (cs_cache st hash))" for hash
    by (auto simp: pushed_def)
  ultimately show ?thesis using new by blast
qed

context equal_model
begin

lemma explore_return:
  assumes pos: "position m es st lin pre c post" and "\<not> is_call es c"
    and fails: "\<forall>a \<in> set pre. call_fails m es (set lin) (cs_state st) a"
  shows "exhausted m cp kill es (t, st) lin"
proof -
  have "dead m es (set lin) (cs_state st)"
    using dead_if_calls_fail [OF positionD(1,5) [OF pos] assms(2) fails] .
  with positionD [OF pos] assms(2) show ?thesis
    unfolding exhausted_def
    by (intro exI [of _ "(t, st)"] exI [of _ c]) (simp add: same_position_def)
qed

lemma push_measure:
  assumes "rem es (set lin1) = c1 # post1" and "length (rem es (set lin1)) < length (rem es (set lin))"
  shows "pos_measure es lin1 post1 < pos_measure es lin post"
proof -
  have "length post1 < Suc (length es)" using length_rem_le [of es "set lin1"] assms(1) by simp
  moreover have "Suc (length (rem es (set lin1))) * Suc (length es) \<le> length (rem es (set lin)) * Suc (length es)"
    using assms(2) by (intro mult_right_mono) auto
  ultimately show ?thesis by (simp add: pos_measure_def)
qed

text \<open>The call \<open>c\<close> was pushed and the search below it found nothing: it is popped again and fails.\<close>

lemma explore_pop:
  assumes pos: "position m es st lin pre c post" and call: "is_call es c"
    and step: "Step m (cs_state st) (inp_of es (aid es c)) (out_of es (aid es c)) = Some (True, s')"
    and bits: "bits nb = nat ` insert (aid es c) (set lin)"
    and lin1: "set (lin @ [aid es c]) \<subseteq> ids es"
    and un: "unlift h (Some c) = Some (cs_heap st)"
      "bitset_clear nb (to_uint (aid es c)) = Some (cs_linearized st)"
    and fails: "\<forall>a \<in> set pre. call_fails m es (set lin) (cs_state st) a"
    and cache: "cache_ok m es st (length lin)"
    and rest: "explored m cp kill es (pos_measure es lin post)"
    and run1: "runs m cp kill (t, st) (Suc t, pushed st c s' nb h nxt)"
    and ex: "exhausted m cp kill es (Suc t, pushed st c s' nb h nxt) (lin @ [aid es c])"
  shows "outcome m cp kill es (t, st) lin"
proof -
  let ?i = "aid es c" and ?st1 = "pushed st c s' nb h nxt" and ?lin1 = "lin @ [aid es c]"
  note p = positionD [OF pos]
  from ex obtain t2 st2 r where q: "runs m cp kill (Suc t, ?st1) (t2, st2)" "cs_inv m es st2 ?lin1"
    "same_position ?st1 st2" "cs_entry st2 = Some r" "r \<in> set (rem es (set ?lin1))"
    "\<not> is_call es r" "dead m es (set ?lin1) s'"
    "\<forall>hash. \<forall>ce \<in> set (cs_cache st2 hash). ce \<in> set (cs_cache ?st1 hash) \<or> cache_dead m es ce"
    by (auto simp: exhausted_def pushed_def)
  have run2: "runs m cp kill (t, st) (t2, st2)" using run1 q(1) by (rule rtranclp_trans)
  have left: "rem es (set ?lin1) \<noteq> []" using q(5) by auto
  show ?thesis
  proof (cases "kill t2")
    case True
    with left run2 q(2) have "stopped m cp kill es (t, st)" unfolding stopped_def
      by (intro exI [of _ "(t2, st2)"] exI [of _ ?lin1]) simp
    then show ?thesis by (simp add: outcome_def)
  next
    case False
    have "cs_heap st2 = h" "cs_linearized st2 = nb"
      "cs_calls st2 = cs_calls st @ [\<lparr>ca_entry = Some c, ca_state = cs_state st\<rparr>]"
      "r < length es" "rem es (insert ?i (set lin)) \<noteq> []"
      using q(3,5) left by (auto simp: same_position_def pushed_def set_rem)
    from step_backtrack [OF pos call un q(2) this(1-3) q(4) this(4) q(6) this(5), of cp]
    obtain st3 where st3: "checkSingle_step m cp False st2 = Continue st3"
      "cs_heap st3 = cs_heap st" "cs_linearized st3 = cs_linearized st" "cs_calls st3 = cs_calls st"
      "cs_state st3 = cs_state st" "cs_entry st3 = first_of post None" "cs_cache st3 = cs_cache st2"
      "cs_head st3 = cs_head st2" "cs_n st3 = cs_n st2"
      "longest_ok m es (cs_longest st3) (cs_seqs st3)" .
    have "runs m cp kill (t2, st2) (Suc t2, st3)"
      by (rule runs_step [of kill t2, OF False st3(1)]) simp
    with run2 have run3: "runs m cp kill (t, st) (Suc t2, st3)" by (rule rtranclp_trans)
    have head: "cs_head st3 = cs_head st" "cs_n st3 = cs_n st"
      using st3(8,9) q(2) p(3) by (simp_all add: cs_inv_def)
    have dead: "dead m es (insert ?i (set lin)) s'" using q(7) by simp
    have new: "\<forall>hash. \<forall>ce \<in> set (cs_cache st3 hash). ce \<in> set (cs_cache st hash) \<or> cache_dead m es ce"
      unfolding st3(7) by (rule pushed_cache [OF p(1) bits lin1 dead q(8)])
    show ?thesis
      by (rule outcome_advance [OF pos call _ cache rest run3 _ head st3(10,6) new])
        (use fails dead step st3 in \<open>auto simp: call_fails_def same_position_def\<close>)
  qed
qed

lemma explore_push:
  assumes pos: "position m es st lin pre c post" and call: "is_call es c" and kill: "\<not> kill t"
    and step: "Step m (cs_state st) (inp_of es (aid es c)) (out_of es (aid es c)) = Some (True, s')"
    and push: "checkSingle_step m cp False st = Continue (pushed st c s' nb h nxt)"
      "bits nb = nat ` insert (aid es c) (set lin)"
      "cs_inv m es (pushed st c s' nb h nxt) (lin @ [aid es c])"
      "nxt = first_of (rem es (insert (aid es c) (set lin))) None"
      "length (rem es (insert (aid es c) (set lin))) < length (rem es (set lin))"
      "unlift h (Some c) = Some (cs_heap st)"
      "bitset_clear nb (to_uint (aid es c)) = Some (cs_linearized st)"
    and fails: "\<forall>a \<in> set pre. call_fails m es (set lin) (cs_state st) a"
    and cache: "cache_ok m es st (length lin)"
    and rest: "explored m cp kill es (pos_measure es lin post)"
  shows "outcome m cp kill es (t, st) lin"
proof -
  let ?st1 = "pushed st c s' nb h nxt" and ?lin1 = "lin @ [aid es c]"
  note p = positionD [OF pos]
  have lin: "set ?lin1 \<subseteq> ids es" "distinct ?lin1"
    using cs_inv_partial [OF push(3)] by (auto simp: partial_linearization_def)
  have card: "card (bits nb) = length ?lin1"
    using push(2) lin ids_nat(2) [OF p(1) lin(1)] by (simp add: card_image distinct_card)
  have run1: "runs m cp kill (t, st) (Suc t, ?st1)"
    by (rule runs_step [of kill t, OF kill push(1)]) simp
  have "outcome m cp kill es (Suc t, ?st1) ?lin1"
  proof (cases "rem es (set ?lin1)")
    case Nil
    with push(3) have "found m cp kill es (Suc t, ?st1)"
      unfolding found_def by (intro exI [of _ "(Suc t, ?st1)"] exI [of _ ?lin1]) simp
    then show ?thesis by (simp add: outcome_def)
  next
    case (Cons c1 post1)
    have "position m es ?st1 ?lin1 [] c1 post1"
      using p push(3,4) Cons by (simp add: position_def pushed_def)
    moreover have "cache_ok m es ?st1 (length ?lin1)"
      using cache card by (auto simp: cache_ok_def pushed_def)
    moreover have "pos_measure es ?lin1 post1 < pos_measure es lin post"
      using push_measure [OF Cons] push(5) by simp
    ultimately show ?thesis using rest unfolding explored_def by fastforce
  qed
  then show ?thesis
    using explore_pop [OF pos call step push(2) lin(1) push(6,7) fails cache rest run1]
      found_runs [OF run1] stopped_runs [OF run1] unfolding outcome_def by blast
qed

lemma explore_step:
  assumes safe: "steps_safe m es" and pos: "position m es st lin pre c post"
    and fails: "\<forall>a \<in> set pre. call_fails m es (set lin) (cs_state st) a"
    and cache: "cache_ok m es st (length lin)"
    and rest: "explored m cp kill es (pos_measure es lin post)"
    and call: "is_call es c" and kill: "\<not> kill t"
  shows "outcome m cp kill es (t, st) lin"
proof -
  note p = positionD [OF pos] and facts = position_facts [OF pos]
  let ?i = "aid es c"
  have i: "?i \<in> ids es" by (rule aid_ids [OF facts(2)])
  moreover have "run_ops m (Init m) (map (\<lambda>i. (inp_of es i, out_of es i)) lin) = Some (cs_state st)"
    using p(3) unfolding cs_inv_def by (blast intro: path_run)
  moreover have "set lin \<subseteq> ids es"
    using cs_inv_partial [OF p(3)] by (simp add: partial_linearization_def)
  ultimately have "Step m (cs_state st) (inp_of es ?i) (out_of es ?i) \<noteq> None"
    using safe unfolding steps_safe_def by blast
  then obtain ok s' where step: "Step m (cs_state st) (inp_of es ?i) (out_of es ?i) = Some (ok, s')"
    by (metis old.prod.exhaust option.exhaust)
  have long: "longest_ok m es (cs_longest st) (cs_seqs st)" using p(3) by (simp add: cs_inv_def)
  have lin: "insert ?i (set lin) \<subseteq> ids es" "distinct lin"
    using i cs_inv_partial [OF p(3)] by (auto simp: partial_linearization_def)
  have card: "card (nat ` insert ?i (set lin)) = Suc (length lin)"
    using facts(3) lin ids_nat(2) [OF p(1) lin(1)] by (simp add: card_image distinct_card)
  have advance: "outcome m cp kill es (t, st) lin"
    if "checkSingle_step m cp False st = Continue (st\<lparr>cs_entry := first_of post None\<rparr>)"
      and "call_fails m es (set lin) (cs_state st) c"
  proof (rule outcome_advance [OF pos call _ cache rest, where t' = "Suc t" and st' = "st\<lparr>cs_entry := first_of post None\<rparr>"])
    show "runs m cp kill (t, st) (Suc t, st\<lparr>cs_entry := first_of post None\<rparr>)"
      by (rule runs_step [of kill t, OF kill that(1)]) simp
  qed (use fails that(2) long in \<open>auto simp: same_position_def\<close>)
  show ?thesis
  proof (cases ok)
    case False
    with step step_refused [OF pos call] advance show ?thesis by (simp add: call_fails_def)
  next
    case True
    with step have step': "Step m (cs_state st) (inp_of es ?i) (out_of es ?i) = Some (True, s')" by simp
    from pos call equal step' show ?thesis
    proof (cases rule: step_accepted [where cp = cp])
      case (cached ce hash)
      then have "cache_dead m es ce" using cache card by (auto simp: cache_ok_def)
      then have "dead m es (insert ?i (set lin)) (ce_state ce)"
        using cached(3) ids_nat(1) [OF p(1) lin(1)] by (simp add: cache_dead_def)
      with cached(4) have "dead m es (insert ?i (set lin)) s'" by (rule dead_equal)
      with advance cached(1) step' show ?thesis by (simp add: call_fails_def)
    next
      case (push nb h nxt)
      show ?thesis
        by (rule explore_push [OF pos call kill step' push fails cache rest])
    qed
  qed
qed

lemma explored_all: "steps_safe m es \<Longrightarrow> explored m cp kill es k"
proof (induction k rule: less_induct)
  case (less k)
  show ?case
    unfolding explored_def
  proof (intro allI impI)
    fix t st lin pre c post
    assume k: "pos_measure es lin post < k" and pos: "position m es st lin pre c post"
      and fails: "\<forall>a \<in> set pre. call_fails m es (set lin) (cs_state st) a"
      and cache: "cache_ok m es st (length lin)"
    show "outcome m cp kill es (t, st) lin"
    proof (cases "kill t")
      case True
      with positionD [OF pos] have "stopped m cp kill es (t, st)"
        unfolding stopped_def by (intro exI [of _ "(t, st)"] exI [of _ lin]) simp
      then show ?thesis by (simp add: outcome_def)
    next
      case False
      then show ?thesis
        using explore_return [OF pos _ fails] explore_step [OF less.prems pos fails cache less.IH [OF k less.prems]]
        by (cases "is_call es c") (auto simp: outcome_def)
    qed
  qed
qed

end

section \<open>The whole search\<close>

lemma checkSingle_start:
  obtains st where "checkSingle_enter m es = Some (Continue st)" and "cs_inv m es st []"
    and "cs_entry st = first_of (rem es {}) None" and "cs_cache st = (\<lambda>_. [])" and "cs_calls st = []"
proof -
  let ?addrs = "rev [0..<length es]"
  from makeLinkedEntries_loop_ok [of es] obtain h where
    h: "makeLinkedEntries_loop es = Some (h, ret_addr es, first_of ?addrs None)"
      "length h = length es" "dseg h None ?addrs None"
      "\<forall>j < length es. node_matches (h ! (length es - 1 - j)) (es ! j) (drop (Suc j) es)" by blast
  from insertBefore_front [of h headNode] h(2,3) obtain h' where
    h': "insertBefore (h @ [headNode]) (Some (length es)) (first_of ?addrs None) = Some h'"
      "dseg h' None (rev [0..<Suc (length es)]) None" "same_nodes (h @ [headNode]) h'"
    by (auto simp: headNode_def)
  have len: "length h' = Suc (length es)" using h'(3) h(2) by (simp add: same_nodes_def)
  have "node_matches (h' ! a) (ent es a) (drop (length es - a) es)" if "a < length es" for a
  proof -
    have "length es - 1 - (length es - 1 - a) = a" "Suc (length es - 1 - a) = length es - a"
      using that by auto
    with h(4) [rule_format, of "length es - 1 - a"] that
    have "node_matches ((h @ [headNode]) ! a) (ent es a) (drop (length es - a) es)"
      by (simp add: ent_def nth_append h(2))
    with same_nodes_matches [OF h'(3), of a] that h(2) show ?thesis by simp
  qed
  with len have static: "static es h'" by (simp add: static_def)
  have "node_length h (first_of ?addrs None) 0 = Some (length es)"
    using node_length_dseg [OF h(3), of 0] by simp
  with h h' have "checkSingle_enter m es = Some (Continue
      \<lparr>cs_heap = h', cs_head = Some (length es), cs_n = length es div 2, cs_entry = first_of ?addrs None,
       cs_linearized = newBitset (length es div 2), cs_cache = (\<lambda>_. []), cs_calls = [],
       cs_longest = replicate (length es div 2) None, cs_seqs = [], cs_state = Init m\<rparr>)" (is "_ = Some (Continue ?st)")
    by (simp add: checkSingle_enter_def makeLinkedEntries_def Let_def)
  moreover have "cs_inv m es ?st []"
    using static h'(2) by (simp add: cs_inv_def rem_empty path_empty longest_ok_def)
  ultimately show thesis by (rule that) (simp_all add: rem_empty)
qed

lemma rem_Nil: "wf_entries es \<Longrightarrow> rem es (set lin) = [] \<Longrightarrow> set lin \<subseteq> ids es \<Longrightarrow> set lin = ids es"
proof
  assume wf: "wf_entries es" and rem: "rem es (set lin) = []"
  show "ids es \<subseteq> set lin"
  proof
    fix i assume "i \<in> ids es"
    from addr_exists [OF wf this] obtain a where "a < length es" "aid es a = i" by blast
    with rem set_rem [of es "set lin"] show "i \<in> set lin" by auto
  qed
qed

text \<open>
  The result of the search. Every entry of \<open>longest\<close> is a partial linearization that contains
  its operation; the answer \<open>true\<close> comes with a linearization, and without the kill flag the answer
  \<open>false\<close> means that there is none.
\<close>

definition search_result ::
  "('v, 's) Model \<Rightarrow> 'v entry list \<Rightarrow> (nat \<Rightarrow> bool) \<Rightarrow> bool \<Rightarrow> ('v, 's) cs \<Rightarrow> bool" where
  "search_result m es kill ok st \<longleftrightarrow>
     longest_ok m es (cs_longest st) (cs_seqs st) \<and>
     (ok \<longrightarrow> (\<exists>lin. entries_linearize m es lin \<and>
        (\<forall>p \<in> set (cs_longest st). \<exists>q. p = Some q \<and> cs_seqs st ! q = lin))) \<and>
     (\<not> ok \<longrightarrow> (\<forall>t. \<not> kill t) \<longrightarrow> \<not> linearizable m es)"

lemma result_found:
  assumes wf: "wf_entries es" and start: "checkSingle m es cp kill = checkSingle_loop m cp kill 0 st"
    and "found m cp kill es (0, st)"
  shows "\<exists>st'. checkSingle m es cp kill = Some (Return True st') \<and> search_result m es kill True st'"
proof -
  from assms(3) obtain t' st' lin where q: "runs m cp kill (0, st) (t', st')" "cs_inv m es st' lin"
    "rem es (set lin) = []" by (auto simp: found_def)
  let ?r = "st'\<lparr>cs_seqs := cs_seqs st' @ [lin],
    cs_longest := replicate (cs_n st') (Some (length (cs_seqs st')))\<rparr>"
  have part: "partial_linearization m es lin" by (rule cs_inv_partial [OF q(2)])
  then have all: "set lin = ids es"
    using rem_Nil [OF wf q(3)] by (simp add: partial_linearization_def)
  have n: "cs_n st' = length es div 2" using q(2) by (simp add: cs_inv_def)
  have "checkSingle m es cp kill = Some (Return True ?r)"
    using start loop_runs [OF q(1)] loop_Return [of m cp kill t', OF step_finish [OF q(2,3)]] by simp
  moreover have "longest_ok m es (cs_longest ?r) (cs_seqs ?r)"
    using part all wf_entries_ids [OF wf] by (simp add: longest_ok_def n)
  ultimately show ?thesis
    using partial_linearization_all [OF part all]
    by (intro exI [of _ ?r]) (auto simp: search_result_def)
qed

lemma result_stopped:
  assumes start: "checkSingle m es cp kill = checkSingle_loop m cp kill 0 st"
    and "stopped m cp kill es (0, st)"
  shows "\<exists>st'. checkSingle m es cp kill = Some (Return False st') \<and> search_result m es kill False st'"
proof -
  from assms(2) obtain t' st' lin where q: "runs m cp kill (0, st) (t', st')" "cs_inv m es st' lin"
    "rem es (set lin) \<noteq> []" "kill t'" by (auto simp: stopped_def)
  have "checkSingle_step m cp (kill t') st' = Return False st'"
    using step_killed [OF q(2,3)] q(4) by simp
  from loop_Return [of m cp kill t', OF this] have "checkSingle m es cp kill = Some (Return False st')"
    using start loop_runs [OF q(1)] by simp
  then show ?thesis using q(2,4) by (auto simp: cs_inv_def search_result_def)
qed

text \<open>At a return entry with an empty stack the search is over.\<close>

lemma step_give_up:
  assumes "cs_inv m es st []" and "cs_entry st = Some r" and "r \<in> set (rem es (set []))"
    and "\<not> is_call es r" and "cs_calls st = []"
  shows "checkSingle_step m cp killed st = Return False st"
proof (cases killed)
  case True
  moreover have "rem es (set []) \<noteq> []" using assms(3) by auto
  ultimately show ?thesis using step_killed [OF assms(1)] by simp
next
  case False
  have "static es (cs_heap st)" "r < length es" using assms(1,3) by (auto simp: cs_inv_def set_rem)
  then have "nd_match (cs_heap st ! r) = None" using static_return assms(4) by blast
  then have "checkSingle_body m cp False st = backtrack cp st"
    using step_at [OF assms(1-3)] by simp
  with False assms(5) show ?thesis by (simp add: checkSingle_step_def backtrack_def)
qed

lemma result_exhausted:
  assumes start: "checkSingle m es cp kill = checkSingle_loop m cp kill 0 st"
    and st: "cs_inv m es st []" "cs_calls st = []" and "exhausted m cp kill es (0, st) []"
  shows "\<exists>st'. checkSingle m es cp kill = Some (Return False st') \<and> search_result m es kill False st'"
proof -
  from assms(4) obtain t' st' r where q: "runs m cp kill (0, st) (t', st')" "cs_inv m es st' []"
    "same_position st st'" "cs_entry st' = Some r" "r \<in> set (rem es (set []))" "\<not> is_call es r"
    "dead m es {} (cs_state st)" by (auto simp: exhausted_def)
  have "cs_state st = Init m" using st by (auto simp: cs_inv_def elim: path.cases)
  with q(7) have no: "\<not> linearizable m es"
    by (simp add: dead_def linearizable_def entries_linearize_def inp_of_def out_of_def)
  have "cs_calls st' = []" using q(3) st(2) by (simp add: same_position_def)
  from step_give_up [OF q(2,4,5,6) this] have "checkSingle_step m cp (kill t') st' = Return False st'" .
  from loop_Return [of m cp kill t', OF this] have "checkSingle m es cp kill = Some (Return False st')"
    using start loop_runs [OF q(1)] by simp
  then show ?thesis using q(2) no by (auto simp: cs_inv_def search_result_def)
qed

context equal_model
begin

lemma checkSingle_result:
  assumes wf: "wf_entries es" and len: "length es < 2 ^ 63" and safe: "steps_safe m es"
  shows "\<exists>ok st. checkSingle m es cp kill = Some (Return ok st) \<and> search_result m es kill ok st"
proof -
  obtain st where enter: "checkSingle_enter m es = Some (Continue st)" and st: "cs_inv m es st []"
    "cs_entry st = first_of (rem es {}) None" "cs_cache st = (\<lambda>_. [])" "cs_calls st = []"
    by (rule checkSingle_start)
  have start: "checkSingle m es cp kill = checkSingle_loop m cp kill 0 st"
    by (simp add: checkSingle_def enter)
  have "outcome m cp kill es (0, st) []"
  proof (cases "rem es {}")
    case Nil
    with st(1) have "found m cp kill es (0, st)"
      unfolding found_def by (intro exI [of _ "(0, st)"] exI [of _ "[]"]) simp
    then show ?thesis by (simp add: outcome_def)
  next
    case (Cons c post)
    with wf len st have "position m es st [] [] c post" by (simp add: position_def)
    moreover have "cache_ok m es st (length ([] :: int list))" by (simp add: cache_ok_def st(3))
    ultimately show ?thesis
      using explored_all [OF safe, of cp kill "Suc (pos_measure es [] post)"]
      unfolding explored_def by fastforce
  qed
  then show ?thesis
    using result_found [OF wf start] result_stopped [OF start] result_exhausted [OF start st(1,4)]
    unfolding outcome_def by blast
qed

end

end
