(* ===== verification/Check_Parallel.thy ===== *)
theory Check_Parallel
  imports Check_Single_Correct
begin

text \<open>
  \<open>checkParallel\<close> of \<open>porcupine/checker.go\<close>: one goroutine for each partition, a buffered channel
  of results, the shared flag \<open>kill\<close>, a timer, and the \<open>select\<close> loop that collects the results.

  The program is a state machine \<open>ps\<close>. An event is one atomic step of a goroutine, of the main
  routine or of the timer; \<open>ps_step\<close> executes an event and is \<open>None\<close> when the event is not
  enabled, and \<open>ps_run\<close> executes a schedule. A worker executes one iteration of its search at a time
  and reads the flag as it is then. The timer may fire at any time once it was created.

  The order in which \<open>range\<close> visits the keys of a map is the parameter \<open>order\<close>, any rearrangement
  of the keys.

  The theory shows what every schedule guarantees: no goroutine panics, the array \<open>longest\<close> is read
  only when all goroutines are done with it, the answers are right, and every schedule ends.
\<close>

section \<open>The state machine\<close>

datatype ('v, 's) worker =
    Spawned
  | Searching "('v, 's) cs"
  | Storing bool "('v, 's) cs"
  | Sending bool
  | Exited bool

record 'v linearizationInfo =
  li_history :: "'v entry list list"
  li_partialLinearizations :: "int list list list"

datatype 'v main_pc = InLoop | AfterLoop | Returned CheckResult "'v linearizationInfo" | Aborted

record ('v, 's) ps =
  ps_workers :: "('v, 's) worker list"
  ps_results :: "bool list"
  ps_longest :: "(ptr list \<times> int list list) list"
  ps_kill :: bool
  ps_ok :: bool
  ps_timedOut :: bool
  ps_count :: nat
  ps_main :: "'v main_pc"

datatype event = RunWorker nat | Receive | FireTimeout | Finish

definition checkParallel_init :: "'v entry list list \<Rightarrow> ('v, 's) ps" where
  "checkParallel_init history =
     \<lparr>ps_workers = replicate (length history) Spawned, ps_results = [],
      ps_longest = replicate (length history) ([], []), ps_kill = False,
      ps_ok = True, ps_timedOut = False, ps_count = 0, ps_main = InLoop\<rparr>"

text \<open>One step of the goroutine that checks partition \<open>i\<close>.\<close>

definition search_step ::
  "nat \<Rightarrow> ('v, 's) ps \<Rightarrow> ('v, 's) cs_result \<Rightarrow> ('v, 's) ps" where
  "search_step i st r =
     (case r of
        Continue s \<Rightarrow> st\<lparr>ps_workers := (ps_workers st)[i := Searching s]\<rparr>
      | Return ok s \<Rightarrow> st\<lparr>ps_workers := (ps_workers st)[i := Storing ok s]\<rparr>
      | Panicked \<Rightarrow> st\<lparr>ps_main := Aborted\<rparr>)"

definition worker_step ::
  "('v, 's) Model \<Rightarrow> 'v entry list list \<Rightarrow> bool \<Rightarrow> nat \<Rightarrow> ('v, 's) ps \<Rightarrow> ('v, 's) ps option" where
  "worker_step model history computeInfo i st =
     (if i < length (ps_workers st) then
        (case ps_workers st ! i of
           Spawned \<Rightarrow>
             (case checkSingle_enter model (history ! i) of
                Some r \<Rightarrow> Some (search_step i st r)
              | None \<Rightarrow> Some st)
         | Searching s \<Rightarrow>
             Some (search_step i st (checkSingle_step model computeInfo (ps_kill st) s))
         | Storing ok s \<Rightarrow>
             Some (st\<lparr>ps_longest := (ps_longest st)[i := (cs_longest s, cs_seqs s)],
                      ps_workers := (ps_workers st)[i := Sending ok]\<rparr>)
         | Sending ok \<Rightarrow>
             (if length (ps_results st) < length history
              then Some (st\<lparr>ps_results := ps_results st @ [ok],
                            ps_workers := (ps_workers st)[i := Exited ok]\<rparr>)
              else None)
         | Exited ok \<Rightarrow> None)
      else None)"

text \<open>The case \<open>result := <-results\<close> of the loop, and the receive that waits for the other goroutines.\<close>

definition receive_step ::
  "'v entry list list \<Rightarrow> bool \<Rightarrow> ('v, 's) ps \<Rightarrow> ('v, 's) ps option" where
  "receive_step history computeInfo st =
     (case ps_results st of
        [] \<Rightarrow> None
      | result # results \<Rightarrow>
          (let st1 = st\<lparr>ps_results := results, ps_count := ps_count st + 1\<rparr> in
           case ps_main st of
             InLoop \<Rightarrow>
               (let ok = (ps_ok st \<and> result) in
                if \<not> ok \<and> \<not> computeInfo
                then Some (st1\<lparr>ps_ok := ok, ps_kill := True, ps_main := AfterLoop\<rparr>)
                else if ps_count st1 \<ge> length history
                then Some (st1\<lparr>ps_ok := ok, ps_main := AfterLoop\<rparr>)
                else Some (st1\<lparr>ps_ok := ok\<rparr>))
           | AfterLoop \<Rightarrow> if computeInfo \<and> ps_count st < length history then Some st1 else None
           | _ \<Rightarrow> None))"

definition timeout_step :: "int \<Rightarrow> ('v, 's) ps \<Rightarrow> ('v, 's) ps option" where
  "timeout_step timeout st =
     (if ps_main st = InLoop \<and> timeout > 0
      then Some (st\<lparr>ps_timedOut := True, ps_kill := True, ps_main := AfterLoop\<rparr>) else None)"

text \<open>
  The pointers of \<open>longest\<close> without repetitions, and the sequences they point at. A pointer that is
  not in the store cannot be dereferenced.
\<close>

primrec deref_all :: "int list list \<Rightarrow> nat list \<Rightarrow> int list list option" where
  "deref_all seqs [] = Some []"
| "deref_all seqs (k # ks) = do {
     arr \<leftarrow> slice_get seqs k;
     partials \<leftarrow> deref_all seqs ks;
     Some (arr # partials)
   }"

definition unique_partials ::
  "(nat list \<Rightarrow> nat list) \<Rightarrow> ptr list \<times> int list list \<Rightarrow> int list list option" where
  "unique_partials order l = (case l of (longest, seqs) \<Rightarrow>
     deref_all seqs (order (remdups (List.map_filter id longest))))"

primrec all_partials ::
  "(nat list \<Rightarrow> nat list) \<Rightarrow> (ptr list \<times> int list list) list \<Rightarrow> int list list list option" where
  "all_partials order [] = Some []"
| "all_partials order (l # ls) = do {
     partials \<leftarrow> unique_partials order l;
     rest \<leftarrow> all_partials order ls;
     Some (partials # rest)
   }"

definition verdict :: "bool \<Rightarrow> bool \<Rightarrow> CheckResult" where
  "verdict ok timedOut = (if \<not> ok then Illegal else if timedOut then Unknown else Ok)"

definition finish_step ::
  "(nat list \<Rightarrow> nat list) \<Rightarrow> 'v entry list list \<Rightarrow> bool \<Rightarrow> ('v, 's) ps \<Rightarrow> ('v, 's) ps option" where
  "finish_step order history computeInfo st =
     (if ps_main st \<noteq> AfterLoop \<or> computeInfo \<and> ps_count st < length history then None
      else if computeInfo
      then (case all_partials order (ps_longest st) of
              None \<Rightarrow> Some (st\<lparr>ps_main := Aborted\<rparr>)
            | Some pl \<Rightarrow> Some (st\<lparr>ps_main := Returned (verdict (ps_ok st) (ps_timedOut st))
                \<lparr>li_history = history, li_partialLinearizations = pl\<rparr>\<rparr>))
      else Some (st\<lparr>ps_main := Returned (verdict (ps_ok st) (ps_timedOut st))
             \<lparr>li_history = [], li_partialLinearizations = []\<rparr>\<rparr>))"

definition ps_step ::
  "(nat list \<Rightarrow> nat list) \<Rightarrow> ('v, 's) Model \<Rightarrow> 'v entry list list \<Rightarrow> bool \<Rightarrow> int \<Rightarrow> event \<Rightarrow>
   ('v, 's) ps \<Rightarrow> ('v, 's) ps option" where
  "ps_step order model history computeInfo timeout ev st =
     (if ps_main st = Aborted then None
      else case ev of
        RunWorker i \<Rightarrow> worker_step model history computeInfo i st
      | Receive \<Rightarrow> receive_step history computeInfo st
      | FireTimeout \<Rightarrow> timeout_step timeout st
      | Finish \<Rightarrow> finish_step order history computeInfo st)"

primrec ps_run ::
  "(nat list \<Rightarrow> nat list) \<Rightarrow> ('v, 's) Model \<Rightarrow> 'v entry list list \<Rightarrow> bool \<Rightarrow> int \<Rightarrow> event list \<Rightarrow>
   ('v, 's) ps \<Rightarrow> ('v, 's) ps option" where
  "ps_run order model history computeInfo timeout [] st = Some st"
| "ps_run order model history computeInfo timeout (ev # evs) st = do {
     st' \<leftarrow> ps_step order model history computeInfo timeout ev st;
     ps_run order model history computeInfo timeout evs st'
   }"

text \<open>The call under a schedule: what it returned, if the schedule lets it return.\<close>

definition checkParallel ::
  "(nat list \<Rightarrow> nat list) \<Rightarrow> ('v, 's) Model \<Rightarrow> 'v entry list list \<Rightarrow> bool \<Rightarrow> int \<Rightarrow> event list \<Rightarrow>
   (CheckResult \<times> 'v linearizationInfo) option" where
  "checkParallel order model history computeInfo timeout sched =
     (case ps_run order model history computeInfo timeout sched (checkParallel_init history) of
        Some st \<Rightarrow> (case ps_main st of Returned res info \<Rightarrow> Some (res, info) | _ \<Rightarrow> None)
      | None \<Rightarrow> None)"

section \<open>The goroutines\<close>

text \<open>What the search needs of a partition: its entries are well formed and \<open>Step\<close> does not panic.\<close>

definition checkable :: "('v, 's) Model \<Rightarrow> 'v entry list \<Rightarrow> bool" where
  "checkable m es \<longleftrightarrow> wf_entries es \<and> length es < 2 ^ 63 \<and> steps_safe m es"

text \<open>
  A goroutine in the middle of its search has executed the first \<open>t\<close> iterations of \<open>checkSingle\<close> under
  the values of the flag that it read; it has read no set flag unless the flag is set now.
\<close>

definition searched ::
  "('v, 's) Model \<Rightarrow> bool \<Rightarrow> bool \<Rightarrow> 'v entry list \<Rightarrow> ('v, 's) cs \<Rightarrow> bool" where
  "searched m cp killed es s \<longleftrightarrow>
     (\<exists>kf t. (\<not> killed \<longrightarrow> (\<forall>j < t. \<not> kf j)) \<and>
        (\<forall>kf'. (\<forall>j < t. kf' j = kf j) \<longrightarrow> checkSingle m es cp kf' = checkSingle_loop m cp kf' t s))"

definition answered ::
  "('v, 's) Model \<Rightarrow> bool \<Rightarrow> bool \<Rightarrow> 'v entry list \<Rightarrow> bool \<Rightarrow> ('v, 's) cs \<Rightarrow> bool" where
  "answered m cp killed es ok s \<longleftrightarrow>
     (\<exists>kf. (\<not> killed \<longrightarrow> (\<forall>j. \<not> kf j)) \<and> checkSingle m es cp kf = Some (Return ok s))"

lemma searched_mono: "searched m cp k es s \<Longrightarrow> (k \<Longrightarrow> k') \<Longrightarrow> searched m cp k' es s"
  unfolding searched_def by blast

lemma answered_mono: "answered m cp k es ok s \<Longrightarrow> (k \<Longrightarrow> k') \<Longrightarrow> answered m cp k' es ok s"
  unfolding answered_def by blast

lemma loop_unfold:
  "checkSingle_loop m cp kf t s =
     (case checkSingle_step m cp (kf t) s of
        Continue s' \<Rightarrow> checkSingle_loop m cp kf (Suc t) s'
      | Return ok s' \<Rightarrow> Some (Return ok s')
      | Panicked \<Rightarrow> Some Panicked)"
  by (rule checkSingle_loop.simps)

lemma searched_enter:
  assumes "checkSingle_enter m es = Some (Continue s)"
  shows "searched m cp killed es s"
  unfolding searched_def by (intro exI [of _ "\<lambda>_. False"] exI [of _ 0]) (simp add: checkSingle_def assms)

lemma searched_Continue:
  assumes "searched m cp killed es s" and step: "checkSingle_step m cp killed s = Continue s'"
  shows "searched m cp killed es s'"
proof -
  from assms(1) obtain kf t where kf: "\<not> killed \<longrightarrow> (\<forall>j < t. \<not> kf j)"
    "\<And>kf'. (\<forall>j < t. kf' j = kf j) \<Longrightarrow> checkSingle m es cp kf' = checkSingle_loop m cp kf' t s"
    unfolding searched_def by blast
  have "checkSingle m es cp kf' = checkSingle_loop m cp kf' (Suc t) s'"
    if "\<forall>j < Suc t. kf' j = (kf(t := killed)) j" for kf'
    using kf(2) [of kf'] that step loop_unfold [of m cp kf' t s] by simp
  moreover have "\<not> killed \<longrightarrow> (\<forall>j < Suc t. \<not> (kf(t := killed)) j)"
    using kf(1) by (auto simp: less_Suc_eq)
  ultimately show ?thesis unfolding searched_def by blast
qed

lemma searched_Return:
  assumes "searched m cp killed es s" and step: "checkSingle_step m cp killed s = Return ok s'"
  shows "answered m cp killed es ok s'"
proof -
  from assms(1) obtain kf t where kf: "\<not> killed \<longrightarrow> (\<forall>j < t. \<not> kf j)"
    "\<And>kf'. (\<forall>j < t. kf' j = kf j) \<Longrightarrow> checkSingle m es cp kf' = checkSingle_loop m cp kf' t s"
    unfolding searched_def by blast
  define kf' where "kf' j = (if j < t then kf j else killed)" for j
  have same: "\<forall>j < t. kf' j = kf j" and last: "kf' t = killed" by (simp_all add: kf'_def)
  have "checkSingle m es cp kf' = Some (Return ok s')"
    unfolding kf(2) [OF same] loop_unfold [of m cp kf' t s] last step by simp
  moreover have "\<not> killed \<longrightarrow> (\<forall>j. \<not> kf' j)" using kf(1) by (simp add: kf'_def)
  ultimately show ?thesis unfolding answered_def by blast
qed

context equal_model
begin

lemma answered_result:
  assumes "checkable m es" and "answered m cp killed es ok s"
  obtains kf where "\<not> killed \<longrightarrow> (\<forall>j. \<not> kf j)" and "search_result m es kf ok s"
proof -
  from assms(2) obtain kf where kf: "\<not> killed \<longrightarrow> (\<forall>j. \<not> kf j)" "checkSingle m es cp kf = Some (Return ok s)"
    unfolding answered_def by blast
  with checkSingle_result [of es cp kf] assms(1) have "search_result m es kf ok s"
    by (auto simp: checkable_def)
  with kf(1) show thesis by (rule that)
qed

lemma answered_True: "checkable m es \<Longrightarrow> answered m cp killed es True s \<Longrightarrow> linearizable m es"
  by (auto elim!: answered_result simp: search_result_def linearizable_def)

lemma answered_False: "checkable m es \<Longrightarrow> answered m cp False es False s \<Longrightarrow> \<not> linearizable m es"
  by (auto elim!: answered_result simp: search_result_def)

lemma answered_longest:
  "checkable m es \<Longrightarrow> answered m cp killed es ok s \<Longrightarrow> longest_ok m es (cs_longest s) (cs_seqs s)"
  by (auto elim!: answered_result simp: search_result_def)

lemma searched_no_panic:
  assumes "checkable m es" and "searched m cp killed es s"
  shows "checkSingle_step m cp killed s \<noteq> Panicked"
proof
  assume step: "checkSingle_step m cp killed s = Panicked"
  from assms(2) obtain kf t where
    kf: "\<And>kf'. (\<forall>j < t. kf' j = kf j) \<Longrightarrow> checkSingle m es cp kf' = checkSingle_loop m cp kf' t s"
    unfolding searched_def by blast
  define kf' where "kf' j = (if j < t then kf j else killed)" for j
  have same: "\<forall>j < t. kf' j = kf j" and last: "kf' t = killed" by (simp_all add: kf'_def)
  have "checkSingle m es cp kf' = Some Panicked"
    unfolding kf [OF same] loop_unfold [of m cp kf' t s] last step by simp
  moreover have "\<exists>ok s. checkSingle m es cp kf' = Some (Return ok s)"
    using checkSingle_result [of es cp kf'] assms(1) by (auto simp: checkable_def)
  ultimately show False by auto
qed

end

section \<open>The invariant of all schedules\<close>

fun exit_of :: "('v, 's) worker \<Rightarrow> bool option" where
  "exit_of (Exited ok) = Some ok"
| "exit_of _ = None"

abbreviation exits :: "('v, 's) worker list \<Rightarrow> bool list" where
  "exits ws \<equiv> List.map_filter exit_of ws"

fun worker_ok ::
  "('v, 's) Model \<Rightarrow> bool \<Rightarrow> bool \<Rightarrow> 'v entry list \<Rightarrow> ptr list \<times> int list list \<Rightarrow>
   ('v, 's) worker \<Rightarrow> bool" where
  "worker_ok m cp killed es l Spawned \<longleftrightarrow> True"
| "worker_ok m cp killed es l (Searching s) \<longleftrightarrow> searched m cp killed es s"
| "worker_ok m cp killed es l (Storing ok s) \<longleftrightarrow> answered m cp killed es ok s"
| "worker_ok m cp killed es l (Sending ok) \<longleftrightarrow>
     (\<exists>s. answered m cp killed es ok s \<and> l = (cs_longest s, cs_seqs s))"
| "worker_ok m cp killed es l (Exited ok) \<longleftrightarrow>
     (\<exists>s. answered m cp killed es ok s \<and> l = (cs_longest s, cs_seqs s))"

lemma worker_ok_kill: "worker_ok m cp k es l w \<Longrightarrow> worker_ok m cp True es l w"
  by (cases w) (auto intro: searched_mono answered_mono)

definition settled :: "('v, 's) Model \<Rightarrow> 'v entry list list \<Rightarrow> int \<Rightarrow> ('v, 's) ps \<Rightarrow> bool" where
  "settled m history timeout st \<longleftrightarrow>
     (\<not> ps_ok st \<longrightarrow> (\<exists>es \<in> set history. \<not> linearizable m es)) \<and>
     (ps_ok st \<longrightarrow> \<not> ps_timedOut st \<longrightarrow> (\<forall>es \<in> set history. linearizable m es)) \<and>
     (ps_timedOut st \<longrightarrow> 0 < timeout)"

text \<open>The sequences reported for each partition are partial linearizations of it.\<close>

definition info_ok :: "('v, 's) Model \<Rightarrow> 'v entry list list \<Rightarrow> 'v linearizationInfo \<Rightarrow> bool" where
  "info_ok m history info \<longleftrightarrow>
     li_history info = history \<and> length (li_partialLinearizations info) = length history \<and>
     (\<forall>i < length history. \<forall>lin \<in> set (li_partialLinearizations info ! i).
        partial_linearization m (history ! i) lin)"

definition main_ok ::
  "('v, 's) Model \<Rightarrow> 'v entry list list \<Rightarrow> bool \<Rightarrow> int \<Rightarrow> ('v, 's) ps \<Rightarrow> bool" where
  "main_ok m history cp timeout st \<longleftrightarrow>
     (case ps_main st of
        InLoop \<Rightarrow> \<not> ps_kill st \<and> \<not> ps_timedOut st \<and> (history \<noteq> [] \<longrightarrow> ps_count st < length history)
      | AfterLoop \<Rightarrow> settled m history timeout st
      | Returned res info \<Rightarrow> settled m history timeout st \<and>
          res = verdict (ps_ok st) (ps_timedOut st) \<and> (cp \<longrightarrow> info_ok m history info)
      | Aborted \<Rightarrow> False)"

definition workers_ok ::
  "('v, 's) Model \<Rightarrow> 'v entry list list \<Rightarrow> bool \<Rightarrow> ('v, 's) ps \<Rightarrow> bool" where
  "workers_ok m history cp st \<longleftrightarrow>
     length (ps_workers st) = length history \<and> length (ps_longest st) = length history \<and>
     (\<forall>i < length history.
        worker_ok m cp (ps_kill st) (history ! i) (ps_longest st ! i) (ps_workers st ! i))"

text \<open>
  The results that were received and those in the channel are those of the goroutines that exited; in
  the loop \<open>ok\<close> is the conjunction of the received ones.
\<close>

definition channel_ok :: "('v, 's) ps \<Rightarrow> bool" where
  "channel_ok st \<longleftrightarrow>
     (\<exists>recv. length recv = ps_count st \<and> mset recv + mset (ps_results st) = mset (exits (ps_workers st)) \<and>
        (ps_main st = InLoop \<longrightarrow> ps_ok st = (\<forall>r \<in> set recv. r)))"

definition ps_inv ::
  "('v, 's) Model \<Rightarrow> 'v entry list list \<Rightarrow> bool \<Rightarrow> int \<Rightarrow> ('v, 's) ps \<Rightarrow> bool" where
  "ps_inv m history cp timeout st \<longleftrightarrow>
     workers_ok m history cp st \<and> channel_ok st \<and> main_ok m history cp timeout st"

lemma ps_inv_init: "ps_inv m history cp timeout (checkParallel_init history)"
  by (auto simp: ps_inv_def workers_ok_def channel_ok_def main_ok_def checkParallel_init_def
      map_filter_def)

lemma exits_length: "length (exits ws) \<le> length ws"
  by (simp add: map_filter_def)

lemma exits_simps [simp]:
  "exits [] = []"
  "exits (w # ws) = (case exit_of w of None \<Rightarrow> exits ws | Some ok \<Rightarrow> ok # exits ws)"
  by (simp_all add: map_filter_def split: option.split)

lemma exits_update:
  assumes "i < length ws" and "exit_of (ws ! i) = None"
  shows "mset (exits (ws[i := w])) = mset (exits [w]) + mset (exits ws)"
  using assms
proof (induction ws arbitrary: i)
  case (Cons a ws)
  then show ?case by (cases i) (auto split: option.splits)
qed simp

lemma channel_ok_count:
  assumes "channel_ok st"
  shows "ps_count st + length (ps_results st) = length (exits (ps_workers st))"
  using assms unfolding channel_ok_def by (metis size_mset size_union)

lemma exits_all:
  assumes "length (exits ws) = length ws"
  shows "\<forall>w \<in> set ws. \<exists>ok. w = Exited ok"
  using assms
proof (induction ws)
  case (Cons w ws)
  then show ?case using exits_length [of ws] by (cases w) auto
qed simp

subsection \<open>A goroutine\<close>

lemma ps_inv_worker_update:
  assumes inv: "ps_inv m history cp timeout st" and i: "i < length history"
    and ws: "exit_of (ps_workers st ! i) = None" "worker_ok m cp (ps_kill st) (history ! i) l w"
    and st': "ps_workers st' = (ps_workers st)[i := w]"
      "ps_longest st' = (ps_longest st)[i := l]"
      "ps_results st' = ps_results st @ exits [w]" "ps_kill st' = ps_kill st" "ps_ok st' = ps_ok st"
      "ps_timedOut st' = ps_timedOut st" "ps_count st' = ps_count st" "ps_main st' = ps_main st"
  shows "ps_inv m history cp timeout st'"
proof -
  from inv have wok: "workers_ok m history cp st" and ch: "channel_ok st"
    and main: "main_ok m history cp timeout st" by (simp_all add: ps_inv_def)
  have len: "length (ps_workers st) = length history" "length (ps_longest st) = length history"
    using wok by (simp_all add: workers_ok_def)
  have "workers_ok m history cp st'"
    using wok ws(2) i unfolding workers_ok_def by (auto simp: st'(1,2,4) nth_list_update)
  moreover have "mset (exits (ps_workers st')) = mset (exits [w]) + mset (exits (ps_workers st))"
    unfolding st'(1) using i ws(1) len by (intro exits_update) simp_all
  then have "channel_ok st'"
    using ch unfolding channel_ok_def st'(3,5,7,8) by (auto simp: ac_simps split: option.splits)
  moreover have "main_ok m history cp timeout st'"
    using main by (simp add: main_ok_def settled_def st' cong: main_pc.case_cong)
  ultimately show ?thesis by (simp add: ps_inv_def)
qed

context equal_model
begin

lemma enter_Continue: "\<exists>s. checkSingle_enter m es = Some (Continue s)"
  by (rule checkSingle_start [of m es]) blast

lemma ps_inv_worker:
  assumes inv: "ps_inv m history cp timeout st" and all: "\<forall>es \<in> set history. checkable m es"
    and step: "worker_step m history cp i st = Some st'"
  shows "ps_inv m history cp timeout st'"
proof -
  have len: "length (ps_workers st) = length history" "length (ps_longest st) = length history"
    using inv by (simp_all add: ps_inv_def workers_ok_def)
  from step have i: "i < length history" by (auto simp: worker_step_def len split: if_splits)
  have ok: "worker_ok m cp (ps_kill st) (history ! i) (ps_longest st ! i) (ps_workers st ! i)"
    using inv i by (simp add: ps_inv_def workers_ok_def)
  have es: "checkable m (history ! i)" using all i by simp
  note upd = ps_inv_worker_update [OF inv i]
  show ?thesis
  proof (cases "ps_workers st ! i")
    case Spawned
    from enter_Continue [of "history ! i"] obtain s where s: "checkSingle_enter m (history ! i) = Some (Continue s)" ..
    with Spawned step have "st' = st\<lparr>ps_workers := (ps_workers st)[i := Searching s]\<rparr>"
      by (simp add: worker_step_def len i search_step_def)
    then show ?thesis
      using searched_enter [OF s] Spawned by (intro upd [of "ps_longest st ! i" "Searching s"]) simp_all
  next
    case (Searching s)
    with ok have srch: "searched m cp (ps_kill st) (history ! i) s" by simp
    from Searching step have st': "st' = search_step i st (checkSingle_step m cp (ps_kill st) s)"
      by (simp add: worker_step_def len i)
    show ?thesis
    proof (cases "checkSingle_step m cp (ps_kill st) s")
      case (Continue s')
      with searched_Continue [OF srch] st' Searching show ?thesis
        by (intro upd [of "ps_longest st ! i" "Searching s'"]) (simp_all add: search_step_def)
    next
      case (Return r s')
      with searched_Return [OF srch] st' Searching show ?thesis
        by (intro upd [of "ps_longest st ! i" "Storing r s'"]) (simp_all add: search_step_def)
    qed (use searched_no_panic [OF es srch] in simp)
  next
    case (Storing r s)
    with ok step show ?thesis
      by (intro upd [of "(cs_longest s, cs_seqs s)" "Sending r"]) (auto simp: worker_step_def len i)
  next
    case (Sending r)
    with ok step show ?thesis
      by (intro upd [of "ps_longest st ! i" "Exited r"]) (auto simp: worker_step_def len i split: if_splits)
  next
    case (Exited r)
    with step show ?thesis by (simp add: worker_step_def len i)
  qed
qed

end

subsection \<open>The main routine\<close>

lemma exits_set: "ok \<in> set (exits ws) \<longleftrightarrow> Exited ok \<in> set ws"
proof (induction ws)
  case (Cons w ws)
  then show ?case by (cases w) auto
qed simp

lemma channel_ok_frame:
  assumes "channel_ok st" and "ps_main st' \<noteq> InLoop" and "ps_workers st' = ps_workers st"
    and "ps_results st' = ps_results st" and "ps_count st' = ps_count st"
  shows "channel_ok st'"
  using assms unfolding channel_ok_def by auto

lemma workers_ok_frame:
  assumes "workers_ok m history cp st" and "ps_workers st' = ps_workers st"
    and "ps_longest st' = ps_longest st" and "ps_kill st' \<or> ps_kill st' = ps_kill st"
  shows "workers_ok m history cp st'"
  using assms worker_ok_kill [where m = m and cp = cp] unfolding workers_ok_def by (metis (full_types))

lemma channel_ok_receive:
  assumes "channel_ok st" and "ps_results st = result # results"
    and "ps_workers st' = ps_workers st" and "ps_results st' = results" and "ps_count st' = ps_count st + 1"
    and "ps_main st' = InLoop \<longrightarrow> ps_main st = InLoop \<and> ps_ok st' = (ps_ok st \<and> result)"
  shows "channel_ok st'"
proof -
  from assms(1) obtain recv where "length recv = ps_count st"
    "mset recv + mset (ps_results st) = mset (exits (ps_workers st))"
    "ps_main st = InLoop \<longrightarrow> ps_ok st = (\<forall>r \<in> set recv. r)" unfolding channel_ok_def by blast
  with assms(2-6) show ?thesis unfolding channel_ok_def by (intro exI [of _ "result # recv"]) auto
qed

text \<open>In the loop, \<open>ok\<close> false means that a goroutine has exited with \<open>false\<close>.\<close>

lemma channel_ok_False:
  assumes "channel_ok st" and "ps_main st = InLoop" and "\<not> ps_ok st"
  shows "Exited False \<in> set (ps_workers st)"
proof -
  from assms obtain recv where recv: "mset recv + mset (ps_results st) = mset (exits (ps_workers st))"
    "False \<in> set recv" unfolding channel_ok_def by auto
  from recv(1) have "set recv \<union> set (ps_results st) = set (exits (ps_workers st))"
    by (metis mset_append set_append mset_eq_setD)
  with recv(2) show ?thesis by (auto simp flip: exits_set)
qed

text \<open>When all results are received and \<open>ok\<close> is true, every goroutine has exited with \<open>true\<close>.\<close>

lemma channel_ok_True:
  assumes "channel_ok st" and "ps_main st = InLoop" and "ps_ok st"
    and "length (ps_workers st) \<le> ps_count st"
  shows "\<forall>w \<in> set (ps_workers st). w = Exited True"
proof -
  have "length (ps_results st) = 0" and len: "length (exits (ps_workers st)) = length (ps_workers st)"
    using channel_ok_count [OF assms(1)] exits_length [of "ps_workers st"] assms(4) by linarith+
  with assms(1-3) obtain recv where "mset recv = mset (exits (ps_workers st))" "\<forall>r \<in> set recv. r"
    unfolding channel_ok_def by auto
  then have "\<forall>r \<in> set (exits (ps_workers st)). r" using mset_eq_setD by blast
  then have "Exited False \<notin> set (ps_workers st)" using exits_set by blast
  with exits_all [OF len] show ?thesis by (metis (full_types))
qed

context equal_model
begin

lemma exited_False_illegal:
  assumes "workers_ok m history cp st" and "\<forall>es \<in> set history. checkable m es" and "\<not> ps_kill st"
    and "Exited False \<in> set (ps_workers st)"
  shows "\<exists>es \<in> set history. \<not> linearizable m es"
proof -
  from assms(1,4) obtain i where i: "i < length history" "ps_workers st ! i = Exited False"
    by (auto simp: workers_ok_def in_set_conv_nth)
  with assms(1,3) obtain s where "answered m cp False (history ! i) False s"
    by (fastforce simp: workers_ok_def)
  with answered_False assms(2) nth_mem [OF i(1)] show ?thesis by blast
qed

lemma exited_True_linearizable:
  assumes "workers_ok m history cp st" and "\<forall>es \<in> set history. checkable m es"
    and "\<forall>w \<in> set (ps_workers st). w = Exited True"
  shows "\<forall>es \<in> set history. linearizable m es"
proof
  fix es assume "es \<in> set history"
  then obtain i where i: "i < length history" "history ! i = es" by (auto simp: in_set_conv_nth)
  with assms(1,3) have "ps_workers st ! i = Exited True" by (simp add: workers_ok_def)
  with assms(1) i obtain s where "answered m cp (ps_kill st) es True s"
    by (fastforce simp: workers_ok_def)
  with answered_True assms(2) \<open>es \<in> set history\<close> show "linearizable m es" by blast
qed

text \<open>Leaving the loop: the verdict is settled.\<close>

lemma settled_leave:
  assumes wok: "workers_ok m history cp st" and all: "\<forall>es \<in> set history. checkable m es"
    and ch: "channel_ok st" and main: "ps_main st = InLoop" "\<not> ps_kill st"
    and why: "\<not> ps_ok st \<or> length history \<le> ps_count st \<or> ps_timedOut st' \<and> 0 < timeout"
    and st': "ps_ok st' = ps_ok st" "ps_timedOut st' \<longrightarrow> 0 < timeout"
  shows "settled m history timeout st'"
proof -
  have "\<not> ps_ok st \<Longrightarrow> \<exists>es \<in> set history. \<not> linearizable m es"
    using exited_False_illegal [OF wok all main(2)] channel_ok_False [OF ch main(1)] by blast
  moreover have "ps_ok st \<Longrightarrow> length history \<le> ps_count st \<Longrightarrow> \<forall>es \<in> set history. linearizable m es"
    using exited_True_linearizable [OF wok all] channel_ok_True [OF ch main(1)] wok
    by (simp add: workers_ok_def)
  ultimately show ?thesis using why st' by (auto simp: settled_def)
qed

lemma ps_inv_timeout:
  assumes inv: "ps_inv m history cp timeout st" and all: "\<forall>es \<in> set history. checkable m es"
    and step: "timeout_step timeout st = Some st'"
  shows "ps_inv m history cp timeout st'"
proof -
  from step have main: "ps_main st = InLoop" "0 < timeout"
    and st': "st' = st\<lparr>ps_timedOut := True, ps_kill := True, ps_main := AfterLoop\<rparr>"
    by (auto simp: timeout_step_def split: if_splits)
  from inv have wok: "workers_ok m history cp st" and ch: "channel_ok st" and "\<not> ps_kill st"
    using main by (simp_all add: ps_inv_def main_ok_def)
  from settled_leave [OF wok all ch main(1) this(3)] main(2) have "settled m history timeout st'"
    by (simp add: st')
  with channel_ok_frame [OF ch] workers_ok_frame [OF wok] show ?thesis
    by (simp add: ps_inv_def main_ok_def st')
qed

lemma ps_inv_receive:
  assumes inv: "ps_inv m history cp timeout st" and all: "\<forall>es \<in> set history. checkable m es"
    and step: "receive_step history cp st = Some st'"
  shows "ps_inv m history cp timeout st'"
proof -
  from step obtain result results where res: "ps_results st = result # results"
    by (auto simp: receive_step_def split: list.splits)
  let ?st1 = "st\<lparr>ps_results := results, ps_count := ps_count st + 1, ps_ok := ps_ok st \<and> result\<rparr>"
  from inv have wok: "workers_ok m history cp st" and ch: "channel_ok st"
    and main: "main_ok m history cp timeout st" by (simp_all add: ps_inv_def)
  show ?thesis
  proof (cases "ps_main st")
    case InLoop
    then have kill: "\<not> ps_kill st" "\<not> ps_timedOut st" using main by (simp_all add: main_ok_def)
    have wok1: "workers_ok m history cp ?st1" by (rule workers_ok_frame [OF wok]) simp_all
    have ch1: "channel_ok ?st1" using InLoop by (intro channel_ok_receive [OF ch res]) simp_all
    from step InLoop res consider
        (stay) "st' = ?st1" "ps_count ?st1 < length history"
      | (kill) "st' = ?st1\<lparr>ps_kill := True, ps_main := AfterLoop\<rparr>" "\<not> ps_ok ?st1"
      | (leave) "st' = ?st1\<lparr>ps_main := AfterLoop\<rparr>" "length history \<le> ps_count ?st1"
      by (auto simp: receive_step_def Let_def not_le split: if_splits)
    then show ?thesis
    proof cases
      case stay
      with wok1 ch1 InLoop kill show ?thesis by (simp add: ps_inv_def main_ok_def)
    qed (use InLoop kill settled_leave [OF wok1 all ch1, of st'] channel_ok_frame [OF ch1, of st']
        workers_ok_frame [OF wok1, of st'] in \<open>simp_all add: ps_inv_def main_ok_def\<close>)
  next
    case AfterLoop
    with step res have st': "st' = st\<lparr>ps_results := results, ps_count := ps_count st + 1\<rparr>"
      by (simp add: receive_step_def Let_def split: if_splits)
    with channel_ok_receive [OF ch res, of st'] workers_ok_frame [OF wok, of st'] main AfterLoop
    show ?thesis by (simp add: ps_inv_def main_ok_def settled_def)
  qed (use step res in \<open>simp_all add: receive_step_def Let_def\<close>)
qed

end

subsection \<open>The reported linearizations\<close>

definition map_order :: "(nat list \<Rightarrow> nat list) \<Rightarrow> bool" where
  "map_order order \<longleftrightarrow> (\<forall>ks. mset (order ks) = mset ks)"

lemma map_order_set: "map_order order \<Longrightarrow> set (order ks) = set ks"
  unfolding map_order_def by (metis mset_eq_setD)

lemma deref_all_Some: "\<forall>k \<in> set ks. k < length seqs \<Longrightarrow> deref_all seqs ks = Some (map ((!) seqs) ks)"
  by (induction ks) auto

lemma unique_partials_eq:
  assumes "map_order order" and "longest_ok m es longest seqs"
  shows "unique_partials order (longest, seqs) =
      Some (map ((!) seqs) (order (remdups (List.map_filter id longest))))"
    and "\<forall>lin \<in> set (the (unique_partials order (longest, seqs))). partial_linearization m es lin"
proof -
  have "p < length seqs \<and> partial_linearization m es (seqs ! p)" if "Some p \<in> set longest" for p
    using that assms(2) by (auto simp: in_set_conv_nth longest_ok_def)
  then have "\<forall>p \<in> set (order (remdups (List.map_filter id longest))).
      p < length seqs \<and> partial_linearization m es (seqs ! p)"
    unfolding map_order_set [OF assms(1)] by (auto simp: map_filter_def)
  then show "unique_partials order (longest, seqs) =
      Some (map ((!) seqs) (order (remdups (List.map_filter id longest))))"
    and "\<forall>lin \<in> set (the (unique_partials order (longest, seqs))). partial_linearization m es lin"
    by (simp_all add: unique_partials_def deref_all_Some)
qed

lemma all_partials_Some:
  "\<forall>l \<in> set ls. unique_partials order l \<noteq> None \<Longrightarrow>
    all_partials order ls = Some (map (\<lambda>l. the (unique_partials order l)) ls)"
  by (induction ls) auto

text \<open>When the main routine reads \<open>longest\<close>, every goroutine has exited.\<close>

lemma finish_exited:
  assumes "ps_inv m history cp timeout st" and "length history \<le> ps_count st"
  shows "\<forall>w \<in> set (ps_workers st). \<exists>ok. w = Exited ok"
proof (rule exits_all)
  have "length (ps_workers st) = length history" "channel_ok st"
    using assms(1) by (simp_all add: ps_inv_def workers_ok_def)
  then show "length (exits (ps_workers st)) = length (ps_workers st)"
    using channel_ok_count exits_length [of "ps_workers st"] assms(2) by fastforce
qed

context equal_model
begin

lemma finish_longest:
  assumes inv: "ps_inv m history cp timeout st" and all: "\<forall>es \<in> set history. checkable m es"
    and count: "length history \<le> ps_count st" and i: "i < length history"
  shows "longest_ok m (history ! i) (fst (ps_longest st ! i)) (snd (ps_longest st ! i))"
proof -
  have wok: "workers_ok m history cp st" using inv by (simp add: ps_inv_def)
  then have "ps_workers st ! i \<in> set (ps_workers st)" using i by (simp add: workers_ok_def)
  with finish_exited [OF inv count] obtain ok where "ps_workers st ! i = Exited ok" by blast
  with wok i obtain s where "answered m cp (ps_kill st) (history ! i) ok s"
    "ps_longest st ! i = (cs_longest s, cs_seqs s)" by (fastforce simp: workers_ok_def)
  with answered_longest all nth_mem [OF i] show ?thesis by fastforce
qed

lemma finish_partials:
  assumes inv: "ps_inv m history cp timeout st" and all: "\<forall>es \<in> set history. checkable m es"
    and count: "length history \<le> ps_count st" and order: "map_order order"
  shows "\<exists>pl. all_partials order (ps_longest st) = Some pl \<and>
      info_ok m history \<lparr>li_history = history, li_partialLinearizations = pl\<rparr>"
proof -
  have len: "length (ps_longest st) = length history" using inv by (simp add: ps_inv_def workers_ok_def)
  have up: "unique_partials order (ps_longest st ! i) \<noteq> None \<and>
      (\<forall>lin \<in> set (the (unique_partials order (ps_longest st ! i))). partial_linearization m (history ! i) lin)"
    if "i < length history" for i
    using unique_partials_eq [OF order finish_longest [OF inv all count that]] by simp
  then have "\<forall>l \<in> set (ps_longest st). unique_partials order l \<noteq> None"
    unfolding all_set_conv_all_nth len by blast
  from all_partials_Some [OF this] up len show ?thesis by (simp add: info_ok_def)
qed

lemma ps_inv_finish:
  assumes inv: "ps_inv m history cp timeout st" and all: "\<forall>es \<in> set history. checkable m es"
    and order: "map_order order" and step: "finish_step order history cp st = Some st'"
  shows "ps_inv m history cp timeout st'"
proof -
  from step have main: "ps_main st = AfterLoop" and count: "cp \<Longrightarrow> length history \<le> ps_count st"
    by (auto simp: finish_step_def split: if_splits)
  from inv main have inv': "workers_ok m history cp st" "channel_ok st" "settled m history timeout st"
    by (simp_all add: ps_inv_def main_ok_def)
  from step main finish_partials [OF inv all count order] obtain info where
    "st' = st\<lparr>ps_main := Returned (verdict (ps_ok st) (ps_timedOut st)) info\<rparr>" "cp \<longrightarrow> info_ok m history info"
    by (cases cp) (auto simp: finish_step_def split: if_splits)
  with inv' channel_ok_frame [OF inv'(2), of st'] workers_ok_frame [OF inv'(1), of st'] show ?thesis
    by (simp add: ps_inv_def main_ok_def settled_def)
qed

lemma ps_inv_step:
  assumes "ps_inv m history cp timeout st" and "\<forall>es \<in> set history. checkable m es" and "map_order order"
    and "ps_step order m history cp timeout ev st = Some st'"
  shows "ps_inv m history cp timeout st'"
proof (cases ev)
  case (RunWorker i)
  with assms(4) show ?thesis
    by (intro ps_inv_worker [OF assms(1,2), of i]) (simp add: ps_step_def split: if_splits)
next
  case Receive
  with assms(4) show ?thesis
    by (intro ps_inv_receive [OF assms(1,2)]) (simp add: ps_step_def split: if_splits)
next
  case FireTimeout
  with assms(4) show ?thesis
    by (intro ps_inv_timeout [OF assms(1,2)]) (simp add: ps_step_def split: if_splits)
next
  case Finish
  with assms(4) show ?thesis
    by (intro ps_inv_finish [OF assms(1-3)]) (simp add: ps_step_def split: if_splits)
qed

lemma ps_inv_run:
  assumes "ps_inv m history cp timeout st" and "\<forall>es \<in> set history. checkable m es" and "map_order order"
    and "ps_run order m history cp timeout evs st = Some st'"
  shows "ps_inv m history cp timeout st'"
  using assms(1,4)
proof (induction evs arbitrary: st)
  case (Cons ev evs)
  from Cons.prems(2) obtain st1 where
    st1: "ps_step order m history cp timeout ev st = Some st1"
      "ps_run order m history cp timeout evs st1 = Some st'" by (auto split: bind_splits)
  show ?case by (rule Cons.IH [OF ps_inv_step [OF Cons.prems(1) assms(2,3) st1(1)] st1(2)])
qed simp

end

section \<open>Every schedule ends\<close>

text \<open>The loop of \<open>checkSingle\<close> ends within \<open>n\<close> iterations when the flag stays clear.\<close>

primrec loop_bound :: "('v, 's) Model \<Rightarrow> bool \<Rightarrow> nat \<Rightarrow> ('v, 's) cs \<Rightarrow> bool" where
  "loop_bound m cp 0 s \<longleftrightarrow> False"
| "loop_bound m cp (Suc n) s \<longleftrightarrow>
     (case checkSingle_step m cp False s of Continue s' \<Rightarrow> loop_bound m cp n s' | _ \<Rightarrow> True)"

lemma loop_bound_ex:
  assumes "checkSingle_loop m cp kf t s = Some r" and "\<forall>j. \<not> kf j"
  shows "\<exists>n. loop_bound m cp n s"
proof -
  have "(\<forall>j. \<not> kf j) \<longrightarrow> (\<exists>n. loop_bound m cp n s)"
    using _ assms(1)
  proof (rule checkSingle_loop.raw_induct [where P = "\<lambda>m cp kf t s r. (\<forall>j. \<not> kf j) \<longrightarrow> (\<exists>n. loop_bound m cp n s)"])
    fix loop m cp kf t s r
    assume IH: "\<And>m cp kf t s r. loop m cp kf t s = Some r \<Longrightarrow> (\<forall>j. \<not> kf j) \<longrightarrow> (\<exists>n. loop_bound m cp n s)"
      and body: "(case checkSingle_step m cp (kf t) s of Continue s' \<Rightarrow> loop m cp kf (Suc t) s'
        | Return ok s' \<Rightarrow> Some (Return ok s') | Panicked \<Rightarrow> Some Panicked) = Some r"
    show "(\<forall>j. \<not> kf j) \<longrightarrow> (\<exists>n. loop_bound m cp n s)"
    proof
      assume kf: "\<forall>j. \<not> kf j"
      show "\<exists>n. loop_bound m cp n s"
      proof (cases "checkSingle_step m cp False s")
        case (Continue s')
        with body kf IH obtain n where "loop_bound m cp n s'" by fastforce
        with Continue show ?thesis by (intro exI [of _ "Suc n"]) simp
      qed (auto intro: exI [of _ "Suc 0"])
    qed
  qed
  with assms(2) show ?thesis by blast
qed

definition steps_left :: "('v, 's) Model \<Rightarrow> bool \<Rightarrow> ('v, 's) cs \<Rightarrow> nat" where
  "steps_left m cp s = (LEAST n. loop_bound m cp n s)"

lemma steps_left_Continue:
  assumes "loop_bound m cp n s" and "checkSingle_step m cp False s = Continue s'"
  shows "steps_left m cp s' < steps_left m cp s" and "\<exists>n. loop_bound m cp n s'"
proof -
  have "loop_bound m cp (steps_left m cp s) s"
    unfolding steps_left_def by (rule LeastI) (rule assms(1))
  then obtain k where k: "steps_left m cp s = Suc k" "loop_bound m cp k s'"
    using assms(2) by (cases "steps_left m cp s") auto
  then show "\<exists>n. loop_bound m cp n s'" by blast
  have "steps_left m cp s' \<le> k" unfolding steps_left_def by (rule Least_le) (rule k(2))
  with k(1) show "steps_left m cp s' < steps_left m cp s" by simp
qed

lemma killed_stops: "checkSingle_step m cp True s \<noteq> Continue s'"
  by (auto simp: checkSingle_step_def checkSingle_body_def finish_def split: option.splits bind_splits if_splits)

definition bounded_workers :: "('v, 's) Model \<Rightarrow> bool \<Rightarrow> ('v, 's) ps \<Rightarrow> bool" where
  "bounded_workers m cp st \<longleftrightarrow> (\<forall>s. Searching s \<in> set (ps_workers st) \<longrightarrow> (\<exists>n. loop_bound m cp n s))"

fun worker_weight :: "('v, 's) Model \<Rightarrow> bool \<Rightarrow> 'v entry list \<Rightarrow> ('v, 's) worker \<Rightarrow> nat" where
  "worker_weight m cp es Spawned =
     4 + (case checkSingle_enter m es of Some (Continue s) \<Rightarrow> steps_left m cp s | _ \<Rightarrow> 0)"
| "worker_weight m cp es (Searching s) = 3 + steps_left m cp s"
| "worker_weight m cp es (Storing ok s) = 2"
| "worker_weight m cp es (Sending ok) = 1"
| "worker_weight m cp es (Exited ok) = 0"

definition main_weight :: "'v entry list list \<Rightarrow> ('v, 's) ps \<Rightarrow> nat" where
  "main_weight history st =
     (case ps_main st of
        InLoop \<Rightarrow> 2 + (length history - ps_count st)
      | AfterLoop \<Rightarrow> 1 + (length history - ps_count st)
      | _ \<Rightarrow> 0)"

definition ps_weight :: "('v, 's) Model \<Rightarrow> 'v entry list list \<Rightarrow> bool \<Rightarrow> ('v, 's) ps \<Rightarrow> nat" where
  "ps_weight m history cp st =
     main_weight history st + (\<Sum>i < length history. worker_weight m cp (history ! i) (ps_workers st ! i))"

lemma weight_worker:
  assumes "i < length history" and "length (ps_workers st) = length history"
    and "worker_weight m cp (history ! i) w < worker_weight m cp (history ! i) (ps_workers st ! i)"
    and "ps_workers st' = (ps_workers st)[i := w]" and "ps_main st' = ps_main st" and "ps_count st' = ps_count st"
  shows "ps_weight m history cp st' < ps_weight m history cp st"
proof -
  have "(\<Sum>j < length history. worker_weight m cp (history ! j) (ps_workers st' ! j)) <
      (\<Sum>j < length history. worker_weight m cp (history ! j) (ps_workers st ! j))"
    by (rule sum_strict_mono_ex1) (use assms(1-4) in \<open>auto simp: nth_list_update intro!: bexI [of _ i]\<close>)
  with assms(5,6) show ?thesis by (simp add: ps_weight_def main_weight_def cong: main_pc.case_cong)
qed

lemma weight_main:
  assumes "receive_step history cp st = Some st' \<or> timeout_step timeout st = Some st' \<or>
      finish_step order history cp st = Some st'"
  shows "ps_weight m history cp st' < ps_weight m history cp st" and "ps_workers st' = ps_workers st"
proof -
  have "main_weight history st' < main_weight history st \<and> ps_workers st' = ps_workers st"
    using assms
    by (auto simp: receive_step_def timeout_step_def finish_step_def main_weight_def Let_def
        split: list.splits main_pc.splits if_splits option.splits)
  then show "ps_weight m history cp st' < ps_weight m history cp st" and "ps_workers st' = ps_workers st"
    by (simp_all add: ps_weight_def)
qed

lemma bounded_workers_update:
  assumes "bounded_workers m cp st" and "ps_workers st' = (ps_workers st)[i := w]"
    and "\<And>s. w = Searching s \<Longrightarrow> \<exists>n. loop_bound m cp n s"
  shows "bounded_workers m cp st'"
  using assms set_update_subset_insert [of "ps_workers st" i w] unfolding bounded_workers_def by auto

context equal_model
begin

lemma enter_bounded:
  assumes "checkable m es" and "checkSingle_enter m es = Some (Continue s)"
  shows "\<exists>n. loop_bound m cp n s"
proof -
  have "\<exists>ok s'. checkSingle m es cp (\<lambda>_. False) = Some (Return ok s')"
    using checkSingle_result [of es cp "\<lambda>_. False"] assms(1) by (auto simp: checkable_def)
  then have "\<exists>r. checkSingle_loop m cp (\<lambda>_. False) 0 s = Some r"
    using assms(2) by (auto simp: checkSingle_def)
  then show ?thesis by (auto intro: loop_bound_ex)
qed

lemma weight_search:
  assumes inv: "ps_inv m history cp timeout st" "bounded_workers m cp st"
    and all: "\<forall>es \<in> set history. checkable m es" and i: "i < length history"
    and w: "ps_workers st ! i = Searching s"
  shows "ps_weight m history cp (search_step i st (checkSingle_step m cp (ps_kill st) s)) < ps_weight m history cp st
    \<and> bounded_workers m cp (search_step i st (checkSingle_step m cp (ps_kill st) s))"
proof -
  have len: "length (ps_workers st) = length history" using inv(1) by (simp add: ps_inv_def workers_ok_def)
  have srch: "searched m cp (ps_kill st) (history ! i) s"
    using inv(1) i w by (auto simp: ps_inv_def workers_ok_def dest!: spec [of _ i])
  have "Searching s \<in> set (ps_workers st)" using w i len by (metis nth_mem)
  with inv(2) obtain n where n: "loop_bound m cp n s" unfolding bounded_workers_def by blast
  show ?thesis
  proof (cases "checkSingle_step m cp (ps_kill st) s")
    case (Continue s')
    then have "\<not> ps_kill st" using killed_stops [of m cp s s'] by (cases "ps_kill st") auto
    with Continue steps_left_Continue [OF n] have
      "steps_left m cp s' < steps_left m cp s" "\<exists>n. loop_bound m cp n s'" by simp_all
    with Continue w i len show ?thesis
      by (intro conjI weight_worker [of i _ _ _ _ "Searching s'"] bounded_workers_update [OF inv(2), of _ i "Searching s'"])
        (simp_all add: search_step_def)
  next
    case (Return ok s')
    with w i len show ?thesis
      by (intro conjI weight_worker [of i _ _ _ _ "Storing ok s'"] bounded_workers_update [OF inv(2), of _ i "Storing ok s'"])
        (simp_all add: search_step_def)
  next
    case Panicked
    with searched_no_panic [OF _ srch] all nth_mem [OF i] show ?thesis by blast
  qed
qed

lemma weight_worker_step:
  assumes inv: "ps_inv m history cp timeout st" "bounded_workers m cp st"
    and all: "\<forall>es \<in> set history. checkable m es" and step: "worker_step m history cp i st = Some st'"
  shows "ps_weight m history cp st' < ps_weight m history cp st \<and> bounded_workers m cp st'"
proof -
  have len: "length (ps_workers st) = length history" using inv(1) by (simp add: ps_inv_def workers_ok_def)
  from step have i: "i < length history" by (auto simp: worker_step_def len split: if_splits)
  show ?thesis
  proof (cases "ps_workers st ! i")
    case Spawned
    from enter_Continue [of "history ! i"] obtain s where s: "checkSingle_enter m (history ! i) = Some (Continue s)" ..
    with Spawned step have "st' = st\<lparr>ps_workers := (ps_workers st)[i := Searching s]\<rparr>"
      by (simp add: worker_step_def len i search_step_def)
    moreover have "\<exists>n. loop_bound m cp n s" using enter_bounded [OF _ s] all i by simp
    ultimately show ?thesis
      using Spawned s i len
      by (intro conjI weight_worker [of i _ _ _ _ "Searching s"] bounded_workers_update [OF inv(2), of _ i "Searching s"])
        simp_all
  next
    case (Searching s)
    with weight_search [OF inv all i Searching] step show ?thesis by (simp add: worker_step_def len i)
  next
    case (Storing r s)
    with step i len show ?thesis
      by (intro conjI weight_worker [of i _ _ _ _ "Sending r"] bounded_workers_update [OF inv(2), of _ i "Sending r"])
        (auto simp: worker_step_def)
  next
    case (Sending r)
    with step i len show ?thesis
      by (intro conjI weight_worker [of i _ _ _ _ "Exited r"] bounded_workers_update [OF inv(2), of _ i "Exited r"])
        (auto simp: worker_step_def split: if_splits)
  qed (use step i len in \<open>simp add: worker_step_def\<close>)
qed

lemma weight_step:
  assumes inv: "ps_inv m history cp timeout st" "bounded_workers m cp st"
    and all: "\<forall>es \<in> set history. checkable m es" and step: "ps_step order m history cp timeout ev st = Some st'"
  shows "ps_weight m history cp st' < ps_weight m history cp st \<and> bounded_workers m cp st'"
proof (cases "\<exists>i. ev = RunWorker i")
  case True
  with step weight_worker_step [OF inv all] show ?thesis by (auto simp: ps_step_def split: if_splits)
next
  case False
  with step have "receive_step history cp st = Some st' \<or> timeout_step timeout st = Some st' \<or>
      finish_step order history cp st = Some st'" by (cases ev) (auto simp: ps_step_def split: if_splits)
  from weight_main [OF this] inv(2) show ?thesis by (simp add: bounded_workers_def)
qed

lemma run_bounded:
  assumes "ps_inv m history cp timeout st" and "bounded_workers m cp st"
    and "\<forall>es \<in> set history. checkable m es" and "map_order order"
    and "ps_run order m history cp timeout evs st = Some st'"
  shows "length evs + ps_weight m history cp st' \<le> ps_weight m history cp st"
  using assms(1,2,5)
proof (induction evs arbitrary: st)
  case (Cons ev evs)
  from Cons.prems(3) obtain st1 where
    st1: "ps_step order m history cp timeout ev st = Some st1"
      "ps_run order m history cp timeout evs st1 = Some st'" by (auto split: bind_splits)
  from weight_step [OF Cons.prems(1,2) assms(3) st1(1)]
    Cons.IH [OF ps_inv_step [OF Cons.prems(1) assms(3,4) st1(1)] _ st1(2)]
  show ?case by simp
qed simp

text \<open>As long as \<open>checkParallel\<close> has not returned, some event is enabled.\<close>

lemma progress_worker:
  assumes inv: "ps_inv m history cp timeout st" and busy: "w \<in> set (ps_workers st)" "exit_of w = None"
  shows "\<exists>i. worker_step m history cp i st \<noteq> None"
proof -
  have len: "length (ps_workers st) = length history" and ch: "channel_ok st"
    using inv by (simp_all add: ps_inv_def workers_ok_def)
  from busy obtain i where i: "i < length (ps_workers st)" "ps_workers st ! i = w" by (auto simp: in_set_conv_nth)
  have "\<not> (\<forall>w \<in> set (ps_workers st). \<exists>ok. w = Exited ok)" using busy by fastforce
  then have "length (exits (ps_workers st)) \<noteq> length (ps_workers st)" using exits_all by blast
  then have "length (exits (ps_workers st)) < length history"
    using exits_length [of "ps_workers st"] len by linarith
  then have "length (ps_results st) < length history" using channel_ok_count [OF ch] by simp
  with i busy(2) show ?thesis
    by (intro exI [of _ i]) (cases w; auto simp: worker_step_def split: option.splits)
qed

lemma progress:
  assumes inv: "ps_inv m history cp timeout st" and "history \<noteq> [] \<or> 0 < timeout"
    and running: "ps_main st = InLoop \<or> ps_main st = AfterLoop"
  shows "\<exists>ev. ps_step order m history cp timeout ev st \<noteq> None"
proof (cases "\<exists>w \<in> set (ps_workers st). exit_of w = None")
  case True
  then obtain i where "worker_step m history cp i st \<noteq> None" using progress_worker [OF inv] by blast
  with running show ?thesis by (intro exI [of _ "RunWorker i"]) (auto simp: ps_step_def)
next
  case False
  have len: "length (ps_workers st) = length history" and ch: "channel_ok st"
    and main: "main_ok m history cp timeout st" using inv by (simp_all add: ps_inv_def workers_ok_def)
  have "length (exits ws) = length ws" if "\<not> (\<exists>w \<in> set ws. exit_of w = None)" for ws :: "('v, 's) worker list"
    using that by (induction ws) auto
  then have count: "ps_count st + length (ps_results st) = length history"
    using False channel_ok_count [OF ch] len by simp
  consider (recv) "ps_main st = InLoop \<or> cp" "ps_count st < length history"
    | (fin) "ps_main st = AfterLoop" "cp \<longrightarrow> length history \<le> ps_count st"
    | (time) "ps_main st = InLoop" "0 < timeout"
    using running main assms(2) by (cases "ps_main st"; cases "ps_count st < length history") (auto simp: main_ok_def)
  then show ?thesis
  proof cases
    case recv
    then obtain r rs where "ps_results st = r # rs" using count by (cases "ps_results st") auto
    with recv running have "receive_step history cp st \<noteq> None" by (auto simp: receive_step_def Let_def)
    with running show ?thesis by (intro exI [of _ Receive]) (auto simp: ps_step_def)
  next
    case fin
    then have "finish_step order history cp st \<noteq> None" by (auto simp: finish_step_def split: option.splits)
    with running show ?thesis by (intro exI [of _ Finish]) (auto simp: ps_step_def)
  next
    case time
    then show ?thesis by (intro exI [of _ FireTimeout]) (auto simp: ps_step_def timeout_step_def)
  qed
qed

end

end
