(* ===== verification/Renumber.thy ===== *)
theory Renumber
  imports Porcupine_Model
begin

text \<open>
  \<open>renumber\<close> and \<open>convertEntries\<close> of \<open>porcupine/checker.go\<close>, the way of an event history into the
  checker: renumbering is an injective renaming of the identifiers onto \<open>0, \<dots>, n - 1\<close>, it makes
  the entries well formed and keeps them linearizable or not.
\<close>

section \<open>Event histories\<close>

text \<open>Every identifier is called once and returns once, the call first.\<close>

definition wf_events :: "'v Event list \<Rightarrow> bool" where
  "wf_events evs \<longleftrightarrow>
     distinct (map (\<lambda>e. (ev_Kind e, ev_Id e)) evs) \<and>
     (\<forall>k < length evs. ev_Kind (evs ! k) = ReturnEvent \<longrightarrow>
        (\<exists>j < k. ev_Kind (evs ! j) = CallEvent \<and> ev_Id (evs ! j) = ev_Id (evs ! k))) \<and>
     (\<forall>e \<in> set evs. ev_Kind e = CallEvent \<longrightarrow>
        (\<exists>r \<in> set evs. ev_Kind r = ReturnEvent \<and> ev_Id r = ev_Id e))"

definition entry_kind :: "EventKind \<Rightarrow> entryKind" where
  "entry_kind k = (if k = ReturnEvent then returnEntry else callEntry)"

lemma entry_kind_simps [simp]: "entry_kind CallEvent = callEntry" "entry_kind ReturnEvent = returnEntry"
  by (simp_all add: entry_kind_def)

lemma entry_kind_eq [simp]:
  "entry_kind k = entry_kind k' \<longleftrightarrow> k = k'"
  "entry_kind k = callEntry \<longleftrightarrow> k = CallEvent" "entry_kind k = returnEntry \<longleftrightarrow> k = ReturnEvent"
  by (cases k; cases k'; simp)+

section \<open>convertEntries\<close>

lemma convertEntries_loop_nth:
  "length (convertEntries_loop entries i evs) = length entries + length evs \<and>
   (\<forall>k < length evs. convertEntries_loop entries i evs ! (length entries + k) =
      \<lparr>en_kind = entry_kind (ev_Kind (evs ! k)), en_value = ev_Value (evs ! k), en_id = ev_Id (evs ! k),
       en_time = i + int k, en_clientId = ev_ClientId (evs ! k)\<rparr>) \<and>
   take (length entries) (convertEntries_loop entries i evs) = entries"
proof (induction evs arbitrary: entries i)
  case (Cons e evs)
  let ?e = "\<lparr>en_kind = entry_kind (ev_Kind e), en_value = ev_Value e, en_id = ev_Id e,
      en_time = i, en_clientId = ev_ClientId e\<rparr>"
  have step: "convertEntries_loop entries i (e # evs) = convertEntries_loop (entries @ [?e]) (i + 1) evs"
    by (simp add: entry_kind_def Let_def)
  note IH = Cons.IH [of "entries @ [?e]" "i + 1"]
  let ?r = "convertEntries_loop (entries @ [?e]) (i + 1) evs"
  have tk: "take (Suc (length entries)) ?r = entries @ [?e]" using IH by simp
  then have "?r ! length entries = ?e" by (metis lessI nth_append_length nth_take)
  moreover have "take (length entries) ?r = entries"
    using arg_cong [OF tk, of "take (length entries)"] by simp
  ultimately show ?case unfolding step using IH by (auto simp: less_Suc_eq_0_disj)
qed simp

lemma length_convertEntries [simp]: "length (convertEntries evs) = length evs"
  using convertEntries_loop_nth [of "[]" 0 evs] by (simp add: convertEntries_def)

lemma convertEntries_nth:
  "k < length evs \<Longrightarrow> convertEntries evs ! k =
     \<lparr>en_kind = entry_kind (ev_Kind (evs ! k)), en_value = ev_Value (evs ! k), en_id = ev_Id (evs ! k),
      en_time = int k, en_clientId = ev_ClientId (evs ! k)\<rparr>"
  using convertEntries_loop_nth [of "[]" 0 evs] by (simp add: convertEntries_def)

section \<open>renumber\<close>

definition rename_event :: "(int \<Rightarrow> int) \<Rightarrow> 'v Event \<Rightarrow> 'v Event" where
  "rename_event f e = e\<lparr>ev_Id := f (ev_Id e)\<rparr>"

text \<open>The map that the loop builds is a bijection from the identifiers seen to \<open>0, \<dots>, i - 1\<close>.\<close>

lemma renumber_loop_bij:
  assumes "inj_on m (dom m)" and "ran m = {0..<i}" and "0 \<le> i"
  shows "\<exists>m'. m \<subseteq>\<^sub>m m' \<and> inj_on m' (dom m') \<and> dom m' = dom m \<union> ev_Id ` set evs \<and> (\<exists>i'. ran m' = {0..<i'}) \<and>
     renumber_loop acc m i evs = acc @ map (rename_event (\<lambda>x. the (m' x))) evs"
  using assms
proof (induction evs arbitrary: acc m i)
  case Nil
  then show ?case by (intro exI [of _ m]) auto
next
  case (Cons e evs)
  show ?case
  proof (cases "m (ev_Id e)")
    case (Some r)
    from Cons.IH [OF Cons.prems, of "acc @ [e\<lparr>ev_Id := r\<rparr>]"] obtain m' where
      m': "m \<subseteq>\<^sub>m m'" "inj_on m' (dom m')" "dom m' = dom m \<union> ev_Id ` set evs"
        "\<exists>i'. ran m' = {0..<i'}"
        "renumber_loop (acc @ [e\<lparr>ev_Id := r\<rparr>]) m i evs = (acc @ [e\<lparr>ev_Id := r\<rparr>]) @ map (rename_event (\<lambda>x. the (m' x))) evs"
      by blast
    moreover have "m' (ev_Id e) = Some r" using m'(1) Some by (metis domI map_le_def)
    ultimately show ?thesis
      using Some by (intro exI [of _ m']) (auto simp: rename_event_def)
  next
    case None
    let ?m = "m(ev_Id e \<mapsto> i)"
    have "i \<notin> ran m" using Cons.prems(2) by simp
    then have "inj_on ?m (dom ?m)"
      using Cons.prems(1) None by (auto simp: inj_on_def ran_def dom_def)
    moreover have "ran ?m = {0..<i + 1}" using None Cons.prems(2,3) by (auto simp: ran_map_upd)
    ultimately obtain m' where m': "?m \<subseteq>\<^sub>m m'" "inj_on m' (dom m')" "dom m' = dom ?m \<union> ev_Id ` set evs"
        "\<exists>i'. ran m' = {0..<i'}"
        "renumber_loop (acc @ [e\<lparr>ev_Id := i\<rparr>]) ?m (i + 1) evs =
          (acc @ [e\<lparr>ev_Id := i\<rparr>]) @ map (rename_event (\<lambda>x. the (m' x))) evs"
      using Cons.IH [of ?m "i + 1" "acc @ [e\<lparr>ev_Id := i\<rparr>]"] Cons.prems(3) by (metis add_increasing2 zero_le_one)
    have "m \<subseteq>\<^sub>m m'" using m'(1) None by (auto simp: map_le_def dom_def split: if_splits)
    moreover have "m' (ev_Id e) = Some i" using m'(1) by (auto simp: map_le_def)
    ultimately show ?thesis
      using None m'(2-5) by (intro exI [of _ m']) (auto simp: rename_event_def)
  qed
qed

lemma the_image_dom: "(\<lambda>x. the (m x)) ` dom m = ran m"
proof (intro equalityI subsetI)
  show "y \<in> ran m" if "y \<in> (\<lambda>x. the (m x)) ` dom m" for y
    using that by (auto simp: ran_def)
  show "y \<in> (\<lambda>x. the (m x)) ` dom m" if "y \<in> ran m" for y
    using that unfolding ran_def by (force simp: image_iff dom_def)
qed

lemma renumber_rename:
  obtains f n where "inj_on f (ev_Id ` set evs)" and "f ` ev_Id ` set evs = {0..<n}"
    and "renumber evs = map (rename_event f) evs"
proof -
  from renumber_loop_bij [of Map.empty 0 evs "[]"] obtain m' i' where
    m': "inj_on m' (dom m')" "dom m' = ev_Id ` set evs" "ran m' = {0..<i'}"
      "renumber evs = map (rename_event (\<lambda>x. the (m' x))) evs" by (auto simp: renumber_def)
  have "inj_on (\<lambda>x. the (m' x)) (ev_Id ` set evs)"
    using m'(1) unfolding m'(2) [symmetric] by (force simp: inj_on_def dom_def)
  moreover have "(\<lambda>x. the (m' x)) ` ev_Id ` set evs = {0..<i'}"
    unfolding m'(2) [symmetric] m'(3) [symmetric] by (rule the_image_dom)
  ultimately show thesis using m'(4) that by blast
qed

lemma length_renumber [simp]: "length (renumber evs) = length evs"
  by (rule renumber_rename [of evs]) simp

section \<open>The entries of an event history\<close>

definition rename_entry :: "(int \<Rightarrow> int) \<Rightarrow> 'v entry \<Rightarrow> 'v entry" where
  "rename_entry f e = e\<lparr>en_id := f (en_id e)\<rparr>"

lemma rename_entry_simps [simp]:
  "en_kind (rename_entry f e) = en_kind e" "en_value (rename_entry f e) = en_value e"
  "en_id (rename_entry f e) = f (en_id e)"
  by (simp_all add: rename_entry_def)

lemma convertEntries_rename: "convertEntries (map (rename_event f) evs) = map (rename_entry f) (convertEntries evs)"
  by (rule nth_equalityI) (simp_all add: convertEntries_nth rename_event_def rename_entry_def)

lemma convertEntries_ids: "en_id ` set (convertEntries evs) = ev_Id ` set evs"
proof -
  have "map en_id (convertEntries evs) = map ev_Id evs"
    by (rule nth_equalityI) (simp_all add: convertEntries_nth)
  then show ?thesis by (metis set_map)
qed

lemma wf_events_both:
  assumes wf: "wf_events evs" and "i \<in> ev_Id ` set evs"
  shows "\<exists>e \<in> set evs. ev_Kind e = k \<and> ev_Id e = i"
proof -
  from assms(2) obtain e where e: "e \<in> set evs" "ev_Id e = i" by blast
  have call: "\<exists>e \<in> set evs. ev_Kind e = CallEvent \<and> ev_Id e = i"
  proof (cases "ev_Kind e")
    case ReturnEvent
    from e(1) obtain k where k: "k < length evs" "evs ! k = e" by (auto simp: in_set_conv_nth)
    with ReturnEvent e wf obtain j where "j < k" "ev_Kind (evs ! j) = CallEvent" "ev_Id (evs ! j) = i"
      unfolding wf_events_def by blast
    with k(1) show ?thesis by (intro bexI [of _ "evs ! j"]) simp_all
  qed (use e in blast)
  then have "\<exists>e \<in> set evs. ev_Kind e = ReturnEvent \<and> ev_Id e = i"
    using wf unfolding wf_events_def by blast
  with call show ?thesis by (cases k) simp_all
qed

lemma wf_events_length:
  assumes "wf_events evs"
  shows "length evs = 2 * card (ev_Id ` set evs)"
proof -
  let ?ks = "(\<lambda>e. (ev_Kind e, ev_Id e)) ` set evs"
  have mem: "(k, i) \<in> ?ks" if "i \<in> ev_Id ` set evs" for k i
    using wf_events_both [OF assms that, of k] by force
  have "?ks = {CallEvent, ReturnEvent} \<times> ev_Id ` set evs"
  proof (intro equalityI subsetI)
    fix x assume "x \<in> ?ks"
    moreover have "fst x \<in> {CallEvent, ReturnEvent}" by (cases "fst x") simp_all
    moreover from calculation have "snd x \<in> ev_Id ` set evs" by auto
    ultimately show "x \<in> {CallEvent, ReturnEvent} \<times> ev_Id ` set evs" by (simp only: mem_Times_iff)
  next
    fix x assume "x \<in> {CallEvent, ReturnEvent} \<times> ev_Id ` set evs"
    then have "snd x \<in> ev_Id ` set evs" by auto
    from mem [OF this, of "fst x"] show "x \<in> ?ks" by simp
  qed
  moreover have "card ?ks = length evs"
    using assms distinct_card [of "map (\<lambda>e. (ev_Kind e, ev_Id e)) evs"] by (simp add: wf_events_def)
  ultimately show ?thesis by (simp add: card_cartesian_product)
qed

lemma renumber_wf:
  assumes wf: "wf_events evs"
  shows "wf_entries (convertEntries (renumber evs))"
proof -
  obtain f n where f: "inj_on f (ev_Id ` set evs)" "f ` ev_Id ` set evs = {0..<n}"
    "renumber evs = map (rename_event f) evs" by (rule renumber_rename)
  let ?es = "convertEntries (renumber evs)"
  have es: "?es = map (rename_entry f) (convertEntries evs)" by (simp add: f(3) convertEntries_rename)
  have "card {0..<n} = card (ev_Id ` set evs)" using f(1,2) by (metis card_image)
  then have n: "nat n = card (ev_Id ` set evs)" by simp
  have len: "length evs = 2 * nat n" using wf_events_length [OF wf] n by simp
  have "inj_on (\<lambda>(k, i). (entry_kind k, f i)) ((\<lambda>e. (ev_Kind e, ev_Id e)) ` set evs)"
    using f(1) by (auto simp: inj_on_def)
  moreover have "map (\<lambda>e. (en_kind e, en_id e)) ?es = map (\<lambda>(k, i). (entry_kind k, f i)) (map (\<lambda>e. (ev_Kind e, ev_Id e)) evs)"
    by (rule nth_equalityI) (simp_all add: es convertEntries_nth)
  ultimately have "distinct (map (\<lambda>e. (en_kind e, en_id e)) ?es)"
    using wf by (simp only: distinct_map wf_events_def set_map)
  moreover have "en_id ` set ?es = {0..<n}"
    unfolding es f(2) [symmetric] convertEntries_ids [symmetric] by (simp add: image_image)
  then have "\<forall>e \<in> set ?es. 0 \<le> en_id e \<and> en_id e < int (length ?es div 2)"
    using len f(3) by auto
  moreover have "\<exists>j < k. entry_at ?es callEntry (en_id (?es ! k)) j"
    if k: "k < length ?es" "en_kind (?es ! k) = returnEntry" for k
  proof -
    from k have k': "k < length evs" "ev_Kind (evs ! k) = ReturnEvent"
      by (simp_all add: es convertEntries_nth)
    with wf obtain j where "j < k" "ev_Kind (evs ! j) = CallEvent" "ev_Id (evs ! j) = ev_Id (evs ! k)"
      unfolding wf_events_def by blast
    with k' show ?thesis by (intro exI [of _ j]) (simp add: entry_at_def es convertEntries_nth)
  qed
  ultimately show ?thesis using len f(3) by (simp add: wf_entries_def)
qed

section \<open>Renaming keeps linearizability\<close>

lemma linearizes_rename:
  assumes inj: "inj_on f ids" and lin: "set lin \<subseteq> ids"
    and before: "\<And>a b. a \<in> ids \<Longrightarrow> b \<in> ids \<Longrightarrow> before' (f a) (f b) \<longleftrightarrow> before a b"
    and vals: "\<And>a. a \<in> ids \<Longrightarrow> inp' (f a) = inp a \<and> out' (f a) = out a"
  shows "linearizes m (f ` ids) before' inp' out' s (map f lin) \<longleftrightarrow> linearizes m ids before inp out s lin"
proof -
  have "map (\<lambda>i. (inp' i, out' i)) (map f lin) = map (\<lambda>i. (inp i, out i)) lin"
    using vals lin by auto
  moreover have "sorted_wrt (\<lambda>a b. \<not> before' b a) (map f lin) \<longleftrightarrow> sorted_wrt (\<lambda>a b. \<not> before b a) lin"
    using before lin unfolding sorted_wrt_map
    by (auto intro: sorted_wrt_mono_rel [rotated] simp: subset_iff)
  moreover have "distinct (map f lin) \<longleftrightarrow> distinct lin" "f ` set lin = f ` ids \<longleftrightarrow> set lin = ids"
    using inj lin by (auto simp: distinct_map inj_on_subset inj_on_image_eq_iff)
  ultimately show ?thesis by (simp only: linearizes_def set_map)
qed

lemma entry_at_rename:
  assumes "inj_on f (en_id ` set es)" and "i \<in> en_id ` set es"
  shows "entry_at (map (rename_entry f) es) k (f i) j \<longleftrightarrow> entry_at es k i j"
  using assms by (auto simp: entry_at_def inj_on_def)

lemma find_rename:
  assumes "inj_on f ids" and "i \<in> ids" and "en_id ` set es \<subseteq> ids"
  shows "find (\<lambda>e. en_kind e = k \<and> en_id e = f i) (map (rename_entry f) es) =
      map_option (rename_entry f) (find (\<lambda>e. en_kind e = k \<and> en_id e = i) es)"
  using assms(3)
proof (induction es)
  case (Cons e es)
  then have "f (en_id e) = f i \<longleftrightarrow> en_id e = i" using assms(1,2) by (intro inj_on_eq_iff) auto
  with Cons show ?case by simp
qed simp

lemma value_of_rename:
  assumes "inj_on f (en_id ` set es)" and "\<exists>e \<in> set es. en_kind e = k \<and> en_id e = i"
  shows "value_of (map (rename_entry f) es) k (f i) = value_of es k i"
proof -
  have "i \<in> en_id ` set es" using assms(2) by blast
  moreover obtain e where "find (\<lambda>e. en_kind e = k \<and> en_id e = i) es = Some e"
    using assms(2) by (cases "find (\<lambda>e. en_kind e = k \<and> en_id e = i) es") (auto simp: find_None_iff)
  ultimately show ?thesis using find_rename [OF assms(1), of i es k] by (simp add: value_of_def)
qed

lemma linearizable_rename:
  assumes inj: "inj_on f (en_id ` set es)"
    and both: "\<forall>i \<in> en_id ` set es. \<forall>k. \<exists>e \<in> set es. en_kind e = k \<and> en_id e = i"
  shows "linearizable m (map (rename_entry f) es) \<longleftrightarrow> linearizable m es"
proof -
  let ?es = "map (rename_entry f) es" and ?ids = "en_id ` set es"
  have ids: "en_id ` set ?es = f ` ?ids" by (simp add: image_image)
  have rt: "rt_before ?es (f a) (f b) \<longleftrightarrow> rt_before es a b" if "a \<in> ?ids" "b \<in> ?ids" for a b
    using that by (simp add: rt_before_def entry_at_rename [OF inj])
  have iff: "entries_linearize m ?es (map f lin) \<longleftrightarrow> entries_linearize m es lin" if "set lin \<subseteq> ?ids" for lin
    unfolding entries_linearize_def ids using value_of_rename [OF inj] both rt
    by (intro linearizes_rename [OF inj that]) auto
  show ?thesis
  proof
    assume "linearizable m ?es"
    then obtain lin where lin: "entries_linearize m ?es lin" unfolding linearizable_def by blast
    let ?lin = "map (inv_into ?ids f) lin"
    have "set lin = f ` ?ids" using lin unfolding entries_linearize_def linearizes_def ids by blast
    then have "map f ?lin = lin" "set ?lin \<subseteq> ?ids"
      by (auto intro!: map_idI inv_into_into simp: f_inv_into_f)
    with iff [of ?lin] lin show "linearizable m es" unfolding linearizable_def by metis
  next
    assume "linearizable m es"
    then obtain lin where lin: "entries_linearize m es lin" unfolding linearizable_def by blast
    then have "set lin \<subseteq> ?ids" by (simp add: entries_linearize_def linearizes_def)
    with iff lin show "linearizable m ?es" unfolding linearizable_def by blast
  qed
qed

lemma renumber_linearizable:
  assumes "wf_events evs"
  shows "linearizable m (convertEntries (renumber evs)) \<longleftrightarrow> linearizable m (convertEntries evs)"
proof -
  obtain f n where f: "inj_on f (ev_Id ` set evs)" "renumber evs = map (rename_event f) evs"
    by (rule renumber_rename)
  let ?es = "convertEntries evs"
  note es = convertEntries_nth [of _ evs]
  have "\<exists>e \<in> set ?es. en_kind e = k \<and> en_id e = i" if "i \<in> en_id ` set ?es" for i k
  proof -
    have "i \<in> ev_Id ` set evs" using that by (simp only: convertEntries_ids)
    from wf_events_both [OF assms this, of "if k = callEntry then CallEvent else ReturnEvent"]
    have "\<exists>e' \<in> set evs. entry_kind (ev_Kind e') = k \<and> ev_Id e' = i"
      by (cases k) auto
    then obtain j where "j < length evs" "entry_kind (ev_Kind (evs ! j)) = k" "ev_Id (evs ! j) = i"
      by (metis in_set_conv_nth)
    then have "?es ! j \<in> set ?es \<and> en_kind (?es ! j) = k \<and> en_id (?es ! j) = i"
      using nth_mem [of j ?es] by (simp add: es)
    then show ?thesis by blast
  qed
  then show ?thesis
    using linearizable_rename [of f ?es m] f by (simp add: convertEntries_rename convertEntries_ids)
qed

end
