(* ===== verification/Locality.thy ===== *)
theory Locality
  imports Porcupine_Model
begin

text \<open>
  The comment on \<open>Model.Partition\<close> in \<open>porcupine/model.go\<close> asks for a partition "such that a
  history is linearizable if and only if each partition is linearizable". This theory proves
  that splitting a history by a key of its inputs is such a partition, for the
  product model that keeps one state for each key (\<open>by_key\<close>).

  Linearizability is first restated without numbers: some rearrangement of the operations
  respects real time and is accepted. To merge linearizations of the parts, each operation is given
  a point in time between its call and its return, the latest call among those linearized no
  later than it; the merged history is sorted by these points.
\<close>

section \<open>Linearizability without numbers\<close>

abbreviation io :: "'v Operation \<Rightarrow> 'v \<times> 'v" where
  "io elem \<equiv> (op_Input elem, op_Output elem)"

abbreviation rt_ok :: "'v Operation \<Rightarrow> 'v Operation \<Rightarrow> bool" where
  "rt_ok a b \<equiv> \<not> op_Return b < op_Call a"

definition lin_order :: "('v, 's) Model \<Rightarrow> 's \<Rightarrow> 'v Operation list \<Rightarrow> bool" where
  "lin_order m s ys \<longleftrightarrow> sorted_wrt rt_ok ys \<and> run_ops m s (map io ys) \<noteq> None"

lemma mset_eq_indices:
  assumes "mset ys = mset xs"
  shows "\<exists>ix. distinct ix \<and> set ix = {..<length xs} \<and> ys = map ((!) xs) ix"
  using assms
proof (induction xs arbitrary: ys rule: rev_induct)
  case (snoc x xs)
  have "x \<in> set ys" using snoc.prems by (metis in_set_conv_decomp set_mset_mset)
  then obtain us vs where ys: "ys = us @ x # vs" by (meson split_list)
  with snoc.prems have "mset (us @ vs) = mset xs" by simp
  from snoc.IH [OF this] obtain ix where
    ix: "distinct ix" "set ix = {..<length xs}" "us @ vs = map ((!) xs) ix" by blast
  let ?jx = "take (length us) ix @ length xs # drop (length us) ix"
  have "mset (take (length us) ix) + mset (drop (length us) ix) = mset ix"
    by (simp flip: mset_append)
  then have jx: "mset ?jx = mset (length xs # ix)" by simp
  have "distinct ?jx" using mset_eq_imp_distinct_iff [OF jx] ix(1,2) by simp
  moreover have "set ?jx = {..<length (xs @ [x])}"
    using mset_eq_setD [OF jx] ix(2) by (simp add: lessThan_Suc)
  moreover have "map ((!) (xs @ [x])) ix = map ((!) xs) ix"
    using ix(2) by (auto simp: nth_append)
  with ix(3) have m: "map ((!) (xs @ [x])) ix = us @ vs" by simp
  have "map ((!) (xs @ [x])) (take (length us) ix) = us" "map ((!) (xs @ [x])) (drop (length us) ix) = vs"
    by (simp_all add: m flip: take_map drop_map)
  then have "ys = map ((!) (xs @ [x])) ?jx" by (simp add: ys nth_append)
  ultimately show ?case by blast
qed simp

lemma mset_map_nth:
  assumes "distinct ix" and "set ix = {..<length xs}"
  shows "mset (map ((!) xs) ix) = mset xs"
proof -
  have "mset ix = mset [0..<length xs]"
    using assms by (metis atLeast_upt distinct_upt set_eq_iff_mset_eq_distinct)
  then have "mset (map ((!) xs) ix) = mset (map ((!) xs) [0..<length xs])" by simp
  then show ?thesis by (simp add: map_nth)
qed

lemma history_linearizable_iff:
  "history_linearizable m h \<longleftrightarrow> (\<exists>ys. mset ys = mset h \<and> lin_order m (Init m) ys)"
proof
  assume "history_linearizable m h"
  then obtain lin where lin: "distinct lin" "set lin = {0..<int (length h)}"
    "sorted_wrt (\<lambda>a b. \<not> op_Return (h ! nat b) < op_Call (h ! nat a)) lin"
    "run_ops m (Init m) (map (\<lambda>i. (op_Input (h ! nat i), op_Output (h ! nat i))) lin) \<noteq> None"
    by (auto simp: history_linearizable_def linearizes_def)
  let ?ys = "map ((!) h) (map nat lin)"
  have "distinct (map nat lin)" using lin(1,2) by (auto simp: distinct_map inj_on_def)
  moreover have "set (map nat lin) = {..<length h}"
    unfolding set_map lin(2) by (auto simp: image_iff intro!: bexI [of _ "int _"])
  ultimately have "mset ?ys = mset h" by (rule mset_map_nth)
  moreover have "lin_order m (Init m) ?ys"
    using lin(3,4) by (simp add: lin_order_def sorted_wrt_map comp_def)
  ultimately show "\<exists>ys. mset ys = mset h \<and> lin_order m (Init m) ys" by blast
next
  assume "\<exists>ys. mset ys = mset h \<and> lin_order m (Init m) ys"
  then obtain ys where ys: "mset ys = mset h" "lin_order m (Init m) ys" by blast
  from mset_eq_indices [OF ys(1)] obtain ix where
    ix: "distinct ix" "set ix = {..<length h}" "ys = map ((!) h) ix" by blast
  have "set (map int ix) = {0..<int (length h)}"
    unfolding set_map ix(2) by (auto simp: image_iff intro!: bexI [of _ "nat _"])
  moreover have "distinct (map int ix)" using ix(1) by (simp add: distinct_map)
  ultimately show "history_linearizable m h"
    unfolding history_linearizable_def linearizes_def
    using ys(2) by (intro exI [of _ "map int ix"])
      (simp add: lin_order_def ix(3) sorted_wrt_map comp_def)
qed

section \<open>The product model\<close>

definition by_key :: "('v \<Rightarrow> 'k) \<Rightarrow> ('v, 's) Model \<Rightarrow> ('v, 'k \<Rightarrow> 's) Model" where
  "by_key key m = \<lparr>Partition = None, PartitionEvent = None, Init = (\<lambda>_. Init m),
     Step = (\<lambda>\<sigma> i out. case Step m (\<sigma> (key i)) i out of
        None \<Rightarrow> None | Some (ok, s') \<Rightarrow> Some (ok, \<sigma>(key i := s'))),
     Equal = None, DescribeOperation = None, DescribeState = None\<rparr>"

lemma Init_by_key: "Init (by_key key m) = (\<lambda>_. Init m)"
  by (simp add: by_key_def)

lemma run_by_key:
  "run_ops (by_key key m) \<sigma> ops \<noteq> None \<longleftrightarrow>
    (\<forall>k. run_ops m (\<sigma> k) (filter (\<lambda>(i, out). key i = k) ops) \<noteq> None)"
proof (induction ops arbitrary: \<sigma>)
  case (Cons a ops)
  obtain i out where a: "a = (i, out)" by force
  show ?case
  proof (cases "Step m (\<sigma> (key i)) i out")
    case None
    then show ?thesis by (auto simp: a by_key_def intro!: exI [of _ "key i"])
  next
    case (Some r)
    obtain ok s' where r: "r = (ok, s')" by force
    show ?thesis
    proof (cases ok)
      case False
      with Some r show ?thesis by (auto simp: a by_key_def intro!: exI [of _ "key i"])
    next
      case True
      have "run_ops (by_key key m) \<sigma> (a # ops) = run_ops (by_key key m) (\<sigma>(key i := s')) ops"
        using Some r True by (simp add: a by_key_def)
      moreover have "run_ops m (\<sigma> k) (filter (\<lambda>(i, out). key i = k) (a # ops)) =
          run_ops m ((\<sigma>(key i := s')) k) (filter (\<lambda>(i, out). key i = k) ops)" for k
        using Some r True by (simp add: a)
      ultimately show ?thesis using Cons.IH by simp
    qed
  qed
qed simp

section \<open>Linearization points\<close>

text \<open>Each operation with the latest call among those up to it.\<close>

primrec points :: "int \<Rightarrow> 'v Operation list \<Rightarrow> (int \<times> 'v Operation) list" where
  "points p [] = []"
| "points p (y # ys) = (max p (op_Call y), y) # points (max p (op_Call y)) ys"

lemma map_snd_points [simp]: "map snd (points p ys) = ys"
  by (induction ys arbitrary: p) auto

lemma in_set_pointsD: "(q, y) \<in> set (points p ys) \<Longrightarrow> y \<in> set ys"
  by (metis map_snd_points in_set_conv_decomp list.set_map image_eqI snd_conv)

lemma points_ge: "(q, y) \<in> set (points p ys) \<Longrightarrow> p \<le> q"
  by (induction ys arbitrary: p) fastforce+

lemma points_sorted: "sorted (map fst (points p ys))"
  by (induction ys arbitrary: p) (auto dest: points_ge)

lemma points_inside:
  assumes "sorted_wrt rt_ok ys" and "\<forall>y \<in> set ys. timed y \<and> p \<le> op_Return y"
    and "(q, y) \<in> set (points p ys)"
  shows "op_Call y \<le> q \<and> q \<le> op_Return y"
  using assms
proof (induction ys arbitrary: p)
  case (Cons x ys)
  let ?p = "max p (op_Call x)"
  have x: "p \<le> op_Return x" "op_Call x \<le> op_Return x" using Cons.prems(2) by (auto simp: timed_def)
  have "\<forall>y \<in> set ys. timed y \<and> ?p \<le> op_Return y"
    using Cons.prems(1,2) by (auto simp: not_less)
  with Cons.IH [of ?p] Cons.prems(1,3) x show ?case by auto
qed simp

lemma mset_concat_filter:
  assumes "distinct ks" and "\<forall>x \<in> set xs. f x \<in> set ks"
  shows "mset (concat (map (\<lambda>k. filter (\<lambda>x. f x = k) xs) ks)) = mset xs"
  using assms
proof (induction ks arbitrary: xs)
  case (Cons k ks)
  let ?rest = "filter (\<lambda>x. f x \<noteq> k) xs"
  have "filter (\<lambda>x. f x = k') ?rest = filter (\<lambda>x. f x = k') xs" if "k' \<in> set ks" for k'
    using Cons.prems(1) that by (auto intro: filter_cong)
  then have "concat (map (\<lambda>k. filter (\<lambda>x. f x = k) ?rest) ks) = concat (map (\<lambda>k. filter (\<lambda>x. f x = k) xs) ks)"
    by (metis (no_types, lifting) map_eq_conv)
  moreover have "mset (concat (map (\<lambda>k. filter (\<lambda>x. f x = k) ?rest) ks)) = mset ?rest"
    by (rule Cons.IH) (use Cons.prems in auto)
  ultimately show ?case using mset_filter [of "\<lambda>x. f x = k" xs] multiset_partition [of "mset xs" "\<lambda>x. f x = k"]
    by simp
qed simp

section \<open>Locality\<close>

abbreviation op_key :: "('v \<Rightarrow> 'k) \<Rightarrow> 'v Operation \<Rightarrow> 'k" where
  "op_key key elem \<equiv> key (op_Input elem)"

lemma filter_map_io: "filter (\<lambda>(i, out). key i = k) (map io ys) = map io (filter (\<lambda>y. op_key key y = k) ys)"
  by (simp add: filter_map comp_def)

lemma sort_points_rt:
  assumes "\<forall>(q, y) \<in> set ps. op_Call y \<le> q \<and> q \<le> op_Return y"
  shows "sorted_wrt rt_ok (map snd (sort_key fst ps))"
proof -
  have "sorted (map fst (sort_key fst ps))" by simp
  then have le: "sorted_wrt (\<lambda>a b. fst a \<le> fst b) (sort_key fst ps)"
    by (simp add: sorted_map)
  have rt: "rt_ok (snd a) (snd b)"
    if "a \<in> set (sort_key fst ps)" "b \<in> set (sort_key fst ps)" "fst a \<le> fst b" for a b
  proof -
    have "op_Call (snd a) \<le> fst a" "fst b \<le> op_Return (snd b)" using that assms by auto
    with that(3) show ?thesis by simp
  qed
  have "sorted_wrt (\<lambda>a b. rt_ok (snd a) (snd b)) (sort_key fst ps)"
    by (rule sorted_wrt_mono_rel [OF rt le])
  then show ?thesis by (simp add: sorted_wrt_map)
qed

theorem locality:
  assumes timed: "\<forall>y \<in> set h. timed y"
  shows "history_linearizable (by_key key m) h \<longleftrightarrow>
    (\<forall>k \<in> op_key key ` set h. history_linearizable m (filter (\<lambda>y. op_key key y = k) h))"
proof
  assume "history_linearizable (by_key key m) h"
  then obtain ys where ys: "mset ys = mset h" "sorted_wrt rt_ok ys"
    "run_ops (by_key key m) (\<lambda>_. Init m) (map io ys) \<noteq> None"
    unfolding history_linearizable_iff lin_order_def Init_by_key by blast
  show "\<forall>k \<in> op_key key ` set h. history_linearizable m (filter (\<lambda>y. op_key key y = k) h)"
  proof
    fix k
    have "lin_order m (Init m) (filter (\<lambda>y. op_key key y = k) ys)"
      using ys(2,3) run_by_key [of key m "\<lambda>_. Init m"]
      by (simp add: lin_order_def sorted_wrt_filter filter_map_io)
    moreover have "mset (filter (\<lambda>y. op_key key y = k) ys) = mset (filter (\<lambda>y. op_key key y = k) h)"
      using ys(1) by simp
    ultimately show "history_linearizable m (filter (\<lambda>y. op_key key y = k) h)"
      unfolding history_linearizable_iff by blast
  qed
next
  assume parts: "\<forall>k \<in> op_key key ` set h. history_linearizable m (filter (\<lambda>y. op_key key y = k) h)"
  obtain ks where ks: "distinct ks" "set ks = op_key key ` set h"
    using finite_distinct_list [of "op_key key ` set h"] by auto
  have "\<forall>k. \<exists>ys. k \<in> set ks \<longrightarrow> mset ys = mset (filter (\<lambda>y. op_key key y = k) h) \<and> lin_order m (Init m) ys"
    using parts ks(2) by (auto simp: history_linearizable_iff)
  then obtain lin where lin: "\<And>k. k \<in> set ks \<Longrightarrow>
      mset (lin k) = mset (filter (\<lambda>y. op_key key y = k) h) \<and> lin_order m (Init m) (lin k)"
    by metis
  obtain p where p: "\<forall>y \<in> set h. p \<le> op_Return y"
    by (meson Min_le finite_imageI finite_set imageI)
  let ?ps = "concat (map (\<lambda>k. points p (lin k)) ks)"
  let ?ys = "map snd (sort_key fst ?ps)"
  have members: "set (lin k) = {y \<in> set h. op_key key y = k}" if "k \<in> set ks" for k
    using lin [OF that] by (metis mset_eq_setD set_filter)
  have "mset ?ys = mset (map snd ?ps)" by (metis mset_map mset_sort)
  also have "map snd ?ps = concat (map lin ks)" by (simp add: map_concat comp_def)
  also have "mset (concat (map lin ks)) = mset (concat (map (\<lambda>k. filter (\<lambda>y. op_key key y = k) h) ks))"
    using lin by (simp add: mset_concat comp_def cong: map_cong)
  also have "\<dots> = mset h" by (rule mset_concat_filter) (use ks in auto)
  finally have "mset ?ys = mset h" .
  moreover have "sorted_wrt rt_ok ?ys"
  proof (rule sort_points_rt, clarsimp)
    fix q y k assume k: "k \<in> set ks" and q: "(q, y) \<in> set (points p (lin k))"
    show "op_Call y \<le> q \<and> q \<le> op_Return y"
      by (rule points_inside [OF _ _ q]) (use lin [OF k] members [OF k] timed p in \<open>auto simp: lin_order_def\<close>)
  qed
  moreover have "run_ops (by_key key m) (\<lambda>_. Init m) (map io ?ys) \<noteq> None"
    unfolding run_by_key filter_map_io
  proof
    fix k
    have "filter (\<lambda>x. op_key key (snd x) = k) ?ps = (if k \<in> set ks then points p (lin k) else [])"
      by (rule filter_concat_key [OF ks(1)]) (use members map_snd_points in \<open>force dest: in_set_pointsD\<close>)
    then have "filter (\<lambda>y. op_key key y = k) ?ys = (if k \<in> set ks then lin k else [])"
      by (simp add: filter_map comp_def filter_sort sort_key_id_if_sorted points_sorted)
    then show "run_ops m (Init m) (map io (filter (\<lambda>y. op_key key y = k) ?ys)) \<noteq> None"
      using lin [of k] by (simp add: lin_order_def)
  qed
  ultimately show "history_linearizable (by_key key m) h"
    unfolding history_linearizable_iff lin_order_def Init_by_key by blast
qed

end
