(* ===== verification/Kv_Model.thy ===== *)
theory Kv_Model
  imports Check_Single_Correct Locality
    "HOL-Library.List_Lexorder" "HOL-Library.Char_ord" "HOL-Library.AList_Mapping"
begin

text \<open>
  \<open>models/kv.go\<close>: the model of a key/value store that the tests of the laboratories give to
  the checker.

  The dynamic types that an \<open>interface{}\<close> of these histories can hold are the constructors of
  \<open>go_any\<close>; a failed type assertion panics. The map of \<open>Partition\<close> is a \<open>mapping\<close>, whose
  sorted keys \<open>ordered_keys\<close> are the keys ranged over and then sorted with \<open>sort.Strings\<close>.

  The theory shows that \<open>Partition\<close> splits a history by key, that checking the parts decides the
  linearizability of the whole store, and that \<open>KvModel\<close> meets the contract \<open>equal_model\<close> of the
  search.
\<close>

section \<open>The model\<close>

record KvInput =
  kv_Op :: "8 word"
  kv_Key :: string
  kv_Value :: string

record KvOutput =
  kvo_Value :: string

datatype go_any = AnyNil | AnyString string | AnyKvInput KvInput | AnyKvOutput KvOutput

fun asString :: "go_any \<Rightarrow> string option" where
  "asString (AnyString s) = Some s"
| "asString _ = None"

fun asKvInput :: "go_any \<Rightarrow> KvInput option" where
  "asKvInput (AnyKvInput i) = Some i"
| "asKvInput _ = None"

fun asKvOutput :: "go_any \<Rightarrow> KvOutput option" where
  "asKvOutput (AnyKvOutput out) = Some out"
| "asKvOutput _ = None"

primrec kv_Partition_loop ::
  "(string, go_any Operation list) mapping \<Rightarrow> go_any Operation list \<Rightarrow>
   (string, go_any Operation list) mapping option" where
  "kv_Partition_loop m [] = Some m"
| "kv_Partition_loop m (v # history) = do {
     inp \<leftarrow> asKvInput (op_Input v);
     let key = kv_Key inp;
     kv_Partition_loop (Mapping.update key (Mapping.lookup_default [] m key @ [v]) m) history
   }"

definition kv_Partition :: "go_any Operation list \<Rightarrow> go_any Operation list list option" where
  "kv_Partition history = do {
     m \<leftarrow> kv_Partition_loop Mapping.empty history;
     Some (map (\<lambda>k. Mapping.lookup_default [] m k) (Mapping.ordered_keys m))
   }"

definition kv_Init :: go_any where
  "kv_Init = AnyString []"

definition kv_Step :: "go_any \<Rightarrow> go_any \<Rightarrow> go_any \<Rightarrow> (bool \<times> go_any) option" where
  "kv_Step state input output = do {
     inp \<leftarrow> asKvInput input;
     out \<leftarrow> asKvOutput output;
     st \<leftarrow> asString state;
     (if kv_Op inp = 0 then Some (kvo_Value out = st, state)
      else if kv_Op inp = 1 then Some (True, AnyString (kv_Value inp))
      else if kv_Op inp = 2 then Some (True, AnyString (st @ kv_Value inp))
      else Some (kvo_Value out = st, AnyString (st @ kv_Value inp)))
   }"

definition kv_DescribeOperation :: "go_any \<Rightarrow> go_any \<Rightarrow> string option" where
  "kv_DescribeOperation input output = do {
     inp \<leftarrow> asKvInput input;
     out \<leftarrow> asKvOutput output;
     (if kv_Op inp = 0 then Some (''get('' @ [CHR 0x27] @ kv_Key inp @ [CHR 0x27] @ '') -> '' @
                                  [CHR 0x27] @ kvo_Value out @ [CHR 0x27])
      else if kv_Op inp = 1 then Some (''put('' @ [CHR 0x27] @ kv_Key inp @ [CHR 0x27] @ '', '' @
                                       [CHR 0x27] @ kv_Value inp @ [CHR 0x27] @ '')'')
      else if kv_Op inp = 2 then Some (''append('' @ [CHR 0x27] @ kv_Key inp @ [CHR 0x27] @ '', '' @
                                       [CHR 0x27] @ kv_Value inp @ [CHR 0x27] @ '')'')
      else Some ''<invalid>'')
   }"

definition KvModel :: "(go_any, go_any) Model" where
  "KvModel = \<lparr>Partition = Some kv_Partition, PartitionEvent = None, Init = kv_Init,
     Step = kv_Step, Equal = None, DescribeOperation = Some kv_DescribeOperation,
     DescribeState = None\<rparr>"

section \<open>Histories of the store\<close>

text \<open>The histories the tests record: every input is a \<open>KvInput\<close>, every output a \<open>KvOutput\<close>.\<close>

definition kv_op :: "go_any Operation \<Rightarrow> bool" where
  "kv_op elem \<longleftrightarrow> asKvInput (op_Input elem) \<noteq> None \<and> asKvOutput (op_Output elem) \<noteq> None"

definition key_of :: "go_any \<Rightarrow> string" where
  "key_of v = (case asKvInput v of Some inp \<Rightarrow> kv_Key inp | None \<Rightarrow> [])"

text \<open>
  The service that the histories are about, as an abstract store: a string for each key, initially empty. A put and an append
  answer anything; every other operation answers the value that it finds. A get leaves the value, a put replaces it, and
  the others append to it.
\<close>

definition store_answer :: "KvInput \<Rightarrow> string \<Rightarrow> string \<Rightarrow> bool" where
  "store_answer inp old answer \<longleftrightarrow> kv_Op inp = 1 \<or> kv_Op inp = 2 \<or> answer = old"

definition store_value :: "KvInput \<Rightarrow> string \<Rightarrow> string" where
  "store_value inp old =
     (if kv_Op inp = 0 then old else if kv_Op inp = 1 then kv_Value inp else old @ kv_Value inp)"

definition kv_store :: "(go_any, string \<Rightarrow> string) Model" where
  "kv_store = \<lparr>Partition = None, PartitionEvent = None, Init = (\<lambda>_. []),
     Step = (\<lambda>\<sigma> input output. do {
       inp \<leftarrow> asKvInput input;
       out \<leftarrow> asKvOutput output;
       let k = kv_Key inp;
       Some (store_answer inp (\<sigma> k) (kvo_Value out), \<sigma>(k := store_value inp (\<sigma> k)))
     }),
     Equal = None, DescribeOperation = None, DescribeState = None\<rparr>"

text \<open>It is simulated by the product that keeps one state of \<open>KvModel\<close> for each key.\<close>

lemma kv_store_step:
  "Step (by_key key_of KvModel) (\<lambda>k. AnyString (\<sigma> k)) i out =
     map_option (\<lambda>(ok, \<sigma>'). (ok, \<lambda>k. AnyString (\<sigma>' k))) (Step kv_store \<sigma> i out)"
  by (auto simp: by_key_def KvModel_def kv_store_def kv_Step_def key_of_def store_answer_def store_value_def fun_eq_iff Let_def
      split: bind_splits option.splits)

lemma kv_store_run:
  "run_ops (by_key key_of KvModel) (\<lambda>k. AnyString (\<sigma> k)) ops \<noteq> None \<longleftrightarrow> run_ops kv_store \<sigma> ops \<noteq> None"
proof (induction ops arbitrary: \<sigma>)
  case (Cons a ops)
  obtain i out where a: "a = (i, out)" by force
  show ?case
  proof (cases "Step kv_store \<sigma> i out")
    case None
    then show ?thesis by (simp add: a kv_store_step)
  next
    case (Some r)
    obtain ok \<sigma>' where "r = (ok, \<sigma>')" by force
    with Some Cons.IH [of \<sigma>'] show ?thesis by (simp add: a kv_store_step)
  qed
qed simp

lemma kv_store_linearizable:
  "history_linearizable (by_key key_of KvModel) h \<longleftrightarrow> history_linearizable kv_store h"
proof -
  have "Init (by_key key_of KvModel) = (\<lambda>k. AnyString (Init kv_store k))"
    by (simp add: Init_by_key KvModel_def kv_Init_def kv_store_def)
  then show ?thesis by (simp add: history_linearizable_iff lin_order_def kv_store_run [simplified])
qed

lemma kv_Partition_loop_Some:
  assumes "\<forall>v \<in> set history. asKvInput (op_Input v) \<noteq> None"
  shows "\<exists>m'. kv_Partition_loop m history = Some m' \<and>
     Mapping.keys m' = Mapping.keys m \<union> op_key key_of ` set history \<and>
     (\<forall>k. Mapping.lookup_default [] m' k =
        Mapping.lookup_default [] m k @ filter (\<lambda>v. op_key key_of v = k) history)"
  using assms
proof (induction history arbitrary: m)
  case (Cons v history)
  then obtain inp where inp: "asKvInput (op_Input v) = Some inp" by auto
  then have key: "op_key key_of v = kv_Key inp" by (simp add: key_of_def)
  let ?m = "Mapping.update (kv_Key inp) (Mapping.lookup_default [] m (kv_Key inp) @ [v]) m"
  from Cons.IH [of ?m] Cons.prems obtain m' where m': "kv_Partition_loop ?m history = Some m'"
    "Mapping.keys m' = Mapping.keys ?m \<union> op_key key_of ` set history"
    "\<forall>k. Mapping.lookup_default [] m' k =
        Mapping.lookup_default [] ?m k @ filter (\<lambda>v. op_key key_of v = k) history" by auto
  show ?case
  proof (intro exI [of _ m'] conjI allI)
    show "kv_Partition_loop m (v # history) = Some m'" using inp m'(1) by (simp add: Let_def)
    show "Mapping.keys m' = Mapping.keys m \<union> op_key key_of ` set (v # history)"
      using m'(2) key by simp
    show "Mapping.lookup_default [] m' k = Mapping.lookup_default [] m k @
        filter (\<lambda>v. op_key key_of v = k) (v # history)" for k
      using m'(3) key by (auto simp: lookup_default_update')
  qed
qed simp

text \<open>\<open>Partition\<close> returns, for each key in increasing order, the operations on that key.\<close>

lemma kv_Partition_eq:
  assumes "\<forall>v \<in> set history. asKvInput (op_Input v) \<noteq> None"
  shows "kv_Partition history =
     Some (map (\<lambda>k. filter (\<lambda>v. op_key key_of v = k) history)
       (sorted_list_of_set (op_key key_of ` set history)))"
proof -
  from kv_Partition_loop_Some [OF assms, of Mapping.empty] obtain m where
    m: "kv_Partition_loop Mapping.empty history = Some m"
      "Mapping.keys m = op_key key_of ` set history"
      "\<forall>k. Mapping.lookup_default [] m k = filter (\<lambda>v. op_key key_of v = k) history"
    by (auto simp: lookup_default_empty)
  then show ?thesis by (simp add: kv_Partition_def Mapping.ordered_keys_def)
qed

section \<open>Checking the parts decides the whole store\<close>

lemma kv_parts_linearizable:
  assumes kv: "\<forall>v \<in> set history. kv_op v" and timed: "\<forall>v \<in> set history. timed v"
    and parts: "kv_Partition history = Some parts"
  shows "history_linearizable kv_store history \<longleftrightarrow> (\<forall>p \<in> set parts. history_linearizable KvModel p)"
proof -
  have "set parts = (\<lambda>k. filter (\<lambda>v. op_key key_of v = k) history) ` op_key key_of ` set history"
    using kv parts kv_Partition_eq [of history] by (auto simp: kv_op_def)
  with locality [OF timed, of key_of KvModel] show ?thesis by (simp add: kv_store_linearizable)
qed

lemma kv_Partition_subset:
  assumes "\<forall>v \<in> set history. kv_op v" and "kv_Partition history = Some parts" and "p \<in> set parts"
  shows "set p \<subseteq> set history" and "length p \<le> length history"
  using assms kv_Partition_eq [of history] by (auto simp: kv_op_def)

lemma kv_Partition_Nil:
  assumes "\<forall>v \<in> set history. kv_op v"
  shows "kv_Partition history = Some [] \<longleftrightarrow> history = []"
  using assms kv_Partition_eq [of history] by (auto simp: kv_op_def)

section \<open>The contract of the search\<close>

interpretation kv: equal_model "fillDefault fmtv fmts KvModel" ShallowEqual
  by unfold_locales (simp_all add: KvModel_def ShallowEqual_def)

lemma kv_Step_Some:
  assumes "asKvInput x \<noteq> None" and "asKvOutput y \<noteq> None" and "asString s \<noteq> None"
  shows "\<exists>ok s'. kv_Step s x y = Some (ok, s') \<and> asString s' \<noteq> None"
  using assms by (auto simp: kv_Step_def)

text \<open>A list of entries with \<open>KvInput\<close> calls and \<open>KvOutput\<close> returns.\<close>

definition kv_entry :: "go_any entry \<Rightarrow> bool" where
  "kv_entry e \<longleftrightarrow> (case en_kind e of callEntry \<Rightarrow> asKvInput (en_value e) \<noteq> None
     | returnEntry \<Rightarrow> asKvOutput (en_value e) \<noteq> None)"

lemma kv_entries_safe:
  assumes wf: "wf_entries es" and kv: "\<forall>e \<in> set es. kv_entry e"
  shows "steps_safe (fillDefault fmtv fmts KvModel) es"
proof (rule steps_safeI [where P = "\<lambda>s. asString s \<noteq> None"])
  let ?m = "fillDefault fmtv fmts KvModel"
  have ok: "\<exists>ok s'. Step ?m s (inp_of es i) (out_of es i) = Some (ok, s') \<and> asString s' \<noteq> None"
    if i: "i \<in> ids es" and s: "asString s \<noteq> None" for i s
  proof -
    have val: "\<exists>e \<in> set es. en_kind e = k \<and> value_of es k i = en_value e" for k
    proof -
      have "0 \<le> i" "i < int (length es div 2)" using i wf_entries_ids [OF wf] by auto
      from wf_entries_complete [OF wf this, of k] obtain j where j: "entry_at es k i j" .
      with value_of_nth [OF wf j] show ?thesis
        by (intro bexI [of _ "es ! j"]) (auto simp: entry_at_def)
    qed
    from val [of callEntry] val [of returnEntry] kv
    have "asKvInput (inp_of es i) \<noteq> None" "asKvOutput (out_of es i) \<noteq> None"
      by (fastforce simp: inp_of_def out_of_def kv_entry_def)+
    with s show ?thesis using kv_Step_Some by (simp add: KvModel_def)
  qed
  show "asString (Init ?m) \<noteq> None" by (simp add: KvModel_def kv_Init_def)
  fix s i r assume "i \<in> ids es" "asString s \<noteq> None"
  from ok [OF this] show "Step ?m s (inp_of es i) (out_of es i) \<noteq> None"
    and "Step ?m s (inp_of es i) (out_of es i) = Some (True, r) \<Longrightarrow> asString r \<noteq> None"
    by auto
qed

lemma kv_steps_safe:
  assumes "sorts_by byTime_Less srt" and "\<forall>v \<in> set h. timed v" and "\<forall>v \<in> set h. kv_op v"
  shows "steps_safe (fillDefault fmtv fmts KvModel) (makeEntries srt h)"
proof (rule kv_entries_safe [OF makeEntries_wf [OF assms(1,2)]])
  show "\<forall>e \<in> set (makeEntries srt h). kv_entry e"
    using assms(3) by (auto elim!: makeEntries_cases [OF assms(1)] simp: op_entries_def kv_entry_def kv_op_def)
qed

end
