(* ===== verification/Porcupine.thy ===== *)
theory Porcupine
  imports Check_Parallel Renumber Kv_Model
begin

text \<open>
  \<open>porcupine/porcupine.go\<close> with \<open>checkEvents\<close> and \<open>checkOperations\<close> of \<open>porcupine/checker.go\<close>:
  the entry points of the checker. Their parameters are the sorting function \<open>srt\<close>, the order
  \<open>order\<close> of map iteration, the formatting functions of \<open>fillDefault\<close>, and the schedule; \<open>None\<close> means
  that the call panics or does not return under the schedule.

  The theory combines the theories of the components into statements about the entry points.
\<close>

section \<open>The entry points\<close>

definition checkEvents ::
  "(nat list \<Rightarrow> nat list) \<Rightarrow> ('v \<Rightarrow> string) \<Rightarrow> ('s \<Rightarrow> string) \<Rightarrow> ('v, 's) Model \<Rightarrow> 'v Event list \<Rightarrow>
   bool \<Rightarrow> int \<Rightarrow> event list \<Rightarrow> (CheckResult \<times> 'v linearizationInfo) option" where
  "checkEvents order fmtv fmts model history verbose timeout sched = do {
     let model = fillDefault fmtv fmts model;
     partition \<leftarrow> PartitionEvent model;
     partitions \<leftarrow> partition history;
     let l = map (\<lambda>subhistory. convertEntries (renumber subhistory)) partitions;
     checkParallel order model l verbose timeout sched
   }"

definition checkOperations ::
  "(nat list \<Rightarrow> nat list) \<Rightarrow> ('v entry list \<Rightarrow> 'v entry list) \<Rightarrow> ('v \<Rightarrow> string) \<Rightarrow> ('s \<Rightarrow> string) \<Rightarrow>
   ('v, 's) Model \<Rightarrow> 'v Operation list \<Rightarrow> bool \<Rightarrow> int \<Rightarrow> event list \<Rightarrow>
   (CheckResult \<times> 'v linearizationInfo) option" where
  "checkOperations order srt fmtv fmts model history verbose timeout sched = do {
     let model = fillDefault fmtv fmts model;
     partition \<leftarrow> Partition model;
     partitions \<leftarrow> partition history;
     let l = map (makeEntries srt) partitions;
     checkParallel order model l verbose timeout sched
   }"

definition CheckOperations ::
  "(nat list \<Rightarrow> nat list) \<Rightarrow> ('v entry list \<Rightarrow> 'v entry list) \<Rightarrow> ('v \<Rightarrow> string) \<Rightarrow> ('s \<Rightarrow> string) \<Rightarrow>
   ('v, 's) Model \<Rightarrow> 'v Operation list \<Rightarrow> event list \<Rightarrow> bool option" where
  "CheckOperations order srt fmtv fmts model history sched = do {
     (res, _) \<leftarrow> checkOperations order srt fmtv fmts model history False 0 sched;
     Some (res = Ok)
   }"

definition CheckOperationsTimeout ::
  "(nat list \<Rightarrow> nat list) \<Rightarrow> ('v entry list \<Rightarrow> 'v entry list) \<Rightarrow> ('v \<Rightarrow> string) \<Rightarrow> ('s \<Rightarrow> string) \<Rightarrow>
   ('v, 's) Model \<Rightarrow> 'v Operation list \<Rightarrow> int \<Rightarrow> event list \<Rightarrow> CheckResult option" where
  "CheckOperationsTimeout order srt fmtv fmts model history timeout sched = do {
     (res, _) \<leftarrow> checkOperations order srt fmtv fmts model history False timeout sched;
     Some res
   }"

definition CheckOperationsVerbose ::
  "(nat list \<Rightarrow> nat list) \<Rightarrow> ('v entry list \<Rightarrow> 'v entry list) \<Rightarrow> ('v \<Rightarrow> string) \<Rightarrow> ('s \<Rightarrow> string) \<Rightarrow>
   ('v, 's) Model \<Rightarrow> 'v Operation list \<Rightarrow> int \<Rightarrow> event list \<Rightarrow>
   (CheckResult \<times> 'v linearizationInfo) option" where
  "CheckOperationsVerbose order srt fmtv fmts model history timeout sched =
     checkOperations order srt fmtv fmts model history True timeout sched"

definition CheckEvents ::
  "(nat list \<Rightarrow> nat list) \<Rightarrow> ('v \<Rightarrow> string) \<Rightarrow> ('s \<Rightarrow> string) \<Rightarrow> ('v, 's) Model \<Rightarrow> 'v Event list \<Rightarrow>
   event list \<Rightarrow> bool option" where
  "CheckEvents order fmtv fmts model history sched = do {
     (res, _) \<leftarrow> checkEvents order fmtv fmts model history False 0 sched;
     Some (res = Ok)
   }"

definition CheckEventsTimeout ::
  "(nat list \<Rightarrow> nat list) \<Rightarrow> ('v \<Rightarrow> string) \<Rightarrow> ('s \<Rightarrow> string) \<Rightarrow> ('v, 's) Model \<Rightarrow> 'v Event list \<Rightarrow> int \<Rightarrow>
   event list \<Rightarrow> CheckResult option" where
  "CheckEventsTimeout order fmtv fmts model history timeout sched = do {
     (res, _) \<leftarrow> checkEvents order fmtv fmts model history False timeout sched;
     Some res
   }"

definition CheckEventsVerbose ::
  "(nat list \<Rightarrow> nat list) \<Rightarrow> ('v \<Rightarrow> string) \<Rightarrow> ('s \<Rightarrow> string) \<Rightarrow> ('v, 's) Model \<Rightarrow> 'v Event list \<Rightarrow> int \<Rightarrow>
   event list \<Rightarrow> (CheckResult \<times> 'v linearizationInfo) option" where
  "CheckEventsVerbose order fmtv fmts model history timeout sched =
     checkEvents order fmtv fmts model history True timeout sched"

section \<open>What a call returns\<close>

lemma checkParallel_returned:
  assumes "equal_model m eq" and "\<forall>es \<in> set l. checkable m es" and "map_order order"
    and "checkParallel order m l verbose timeout sched = Some (res, info)"
  shows "res = Ok \<Longrightarrow> \<forall>es \<in> set l. linearizable m es"
    and "res = Illegal \<Longrightarrow> \<exists>es \<in> set l. \<not> linearizable m es"
    and "res = Unknown \<Longrightarrow> 0 < timeout"
    and "verbose \<Longrightarrow> info_ok m l info"
proof -
  from assms(4) obtain st where st: "ps_run order m l verbose timeout sched (checkParallel_init l) = Some st"
    "ps_main st = Returned res info"
    by (auto simp: checkParallel_def split: option.splits main_pc.splits)
  have "ps_inv m l verbose timeout st"
    by (rule equal_model.ps_inv_run [OF assms(1) ps_inv_init assms(2,3) st(1)])
  then have main: "settled m l timeout st" "res = verdict (ps_ok st) (ps_timedOut st)" "verbose \<longrightarrow> info_ok m l info"
    using st(2) by (simp_all add: ps_inv_def main_ok_def)
  then show "res = Ok \<Longrightarrow> \<forall>es \<in> set l. linearizable m es"
    and "res = Illegal \<Longrightarrow> \<exists>es \<in> set l. \<not> linearizable m es"
    and "res = Unknown \<Longrightarrow> 0 < timeout" and "verbose \<Longrightarrow> info_ok m l info"
    by (auto simp: settled_def verdict_def split: if_splits)
qed

lemma verdict_no_timeout:
  assumes "equal_model m eq" and "\<forall>es \<in> set l. checkable m es" and "map_order order"
    and "checkParallel order m l verbose 0 sched = Some (res, info)"
  shows "res = Ok \<longleftrightarrow> (\<forall>es \<in> set l. linearizable m es)"
  using checkParallel_returned [OF assms] by (cases res) auto

text \<open>The partitions of a history of operations, as the checker gets them.\<close>

definition op_parts_ok ::
  "('v entry list \<Rightarrow> 'v entry list) \<Rightarrow> ('v, 's) Model \<Rightarrow> 'v Operation list list \<Rightarrow> bool" where
  "op_parts_ok srt m parts \<longleftrightarrow>
     (\<forall>p \<in> set parts. (\<forall>elem \<in> set p. timed elem) \<and> length p < 2 ^ 62 \<and> steps_safe m (makeEntries srt p))"

lemma op_parts_checkable:
  assumes "sorts_by byTime_Less srt" and "op_parts_ok srt m parts"
  shows "\<forall>es \<in> set (map (makeEntries srt) parts). checkable m es"
  using assms makeEntries_wf [OF assms(1)] length_makeEntries [OF assms(1)]
  by (auto simp: op_parts_ok_def checkable_def)

lemma op_parts_linearizable:
  assumes "sorts_by byTime_Less srt" and "op_parts_ok srt m parts"
  shows "(\<forall>es \<in> set (map (makeEntries srt) parts). linearizable m' es) \<longleftrightarrow>
     (\<forall>p \<in> set parts. history_linearizable m' p)"
proof -
  have "linearizable m' (makeEntries srt p) \<longleftrightarrow> history_linearizable m' p" if "p \<in> set parts" for p
    using assms(2) that by (intro makeEntries_linearizable [OF assms(1)]) (simp add: op_parts_ok_def)
  then show ?thesis by simp
qed

lemma kv_parts_ok:
  assumes srt: "sorts_by byTime_Less srt" and kv: "\<forall>v \<in> set history. kv_op v"
    and timed: "\<forall>v \<in> set history. timed v" and len: "length history < 2 ^ 62"
    and parts: "kv_Partition history = Some parts"
  shows "op_parts_ok srt (fillDefault fmtv fmts KvModel) parts"
  unfolding op_parts_ok_def
proof
  fix p assume "p \<in> set parts"
  note sub = kv_Partition_subset [OF kv parts this]
  then have "\<forall>v \<in> set p. timed v" "\<forall>v \<in> set p. kv_op v" using kv timed by auto
  with kv_steps_safe [OF srt] sub(2) len
  show "(\<forall>v \<in> set p. timed v) \<and> length p < 2 ^ 62 \<and> steps_safe (fillDefault fmtv fmts KvModel) (makeEntries srt p)"
    by auto
qed

lemma kv_Partition_model [simp]: "Partition KvModel = Some kv_Partition"
  by (simp add: KvModel_def)

lemma kv_entry_rename [simp]: "kv_entry (rename_entry f e) \<longleftrightarrow> kv_entry e"
  by (simp add: kv_entry_def cong: entryKind.case_cong)

lemma kv_entry_renumber:
  assumes "\<forall>e \<in> set (convertEntries history). kv_entry e"
  shows "\<forall>e \<in> set (convertEntries (renumber history)). kv_entry e"
  using assms by (rule_tac renumber_rename [of history]) (auto simp: convertEntries_rename)

section \<open>A concrete history\<close>

text \<open>A put and a get that overlaps it and already reads the new value.\<close>

definition ex_put :: "go_any Operation" where
  "ex_put = \<lparr>op_ClientId = 0, op_Input = AnyKvInput \<lparr>kv_Op = 1, kv_Key = ''k'', kv_Value = ''v''\<rparr>,
     op_Call = 0, op_Output = AnyKvOutput \<lparr>kvo_Value = []\<rparr>, op_Return = 5\<rparr>"

definition ex_get :: "go_any Operation" where
  "ex_get = \<lparr>op_ClientId = 1, op_Input = AnyKvInput \<lparr>kv_Op = 0, kv_Key = ''k'', kv_Value = []\<rparr>,
     op_Call = 2, op_Output = AnyKvOutput \<lparr>kvo_Value = ''v''\<rparr>, op_Return = 8\<rparr>"

definition ex_history :: "go_any Operation list" where
  "ex_history = [ex_get, ex_put]"

definition ex_sched :: "event list" where
  "ex_sched = replicate 6 (RunWorker 0) @ [Receive, Finish]"

abbreviation no_fmt :: "'a \<Rightarrow> string" where
  "no_fmt \<equiv> (\<lambda>_. [])"

abbreviation insertion_sort :: "'v entry list \<Rightarrow> 'v entry list" where
  "insertion_sort \<equiv> sort_by byTime_Less"

abbreviation ex_model :: "(go_any, go_any) Model" where
  "ex_model \<equiv> fillDefault no_fmt no_fmt KvModel"

lemma ex_history_ok:
  "\<forall>v \<in> set ex_history. kv_op v" "\<forall>v \<in> set ex_history. timed v" "length ex_history < 2 ^ 62"
  by (simp_all add: ex_history_def ex_put_def ex_get_def kv_op_def timed_def)

lemma insertion_sort_sorts: "sorts_by byTime_Less insertion_sort"
  by (rule sort_by_sorts [OF byTime_Less_strict_weak])

lemma map_order_id: "map_order id"
  by (simp add: map_order_def)

lemma ex_parts: "kv_Partition ex_history = Some [ex_history]"
  by code_simp

lemma ex_parts_ok: "op_parts_ok insertion_sort ex_model [ex_history]"
  by (rule kv_parts_ok [OF insertion_sort_sorts ex_history_ok ex_parts])

lemma ex_checkable: "checkable ex_model (makeEntries insertion_sort ex_history)"
  using op_parts_checkable [OF insertion_sort_sorts ex_parts_ok] by simp

section \<open>Correctness of the entry points\<close>

text \<open>
  C1. \<open>CheckOperations\<close> on the key/value model decides linearizability of the whole multi-key
  store: under every schedule under which the call returns, it returns true exactly when the history
  of timed \<open>KvInput\<close>/\<open>KvOutput\<close> operations is linearizable with respect to the abstract store \<open>kv_store\<close> that maps
  each key to a string. The claim spans \<open>fillDefault\<close>, the partition by key, the sorting of
  the entries, the searches of all goroutines and the collection of their results.
\<close>

theorem CheckOperations_kv:
  assumes "sorts_by byTime_Less srt" and "map_order order"
    and "\<forall>v \<in> set history. kv_op v" and "\<forall>v \<in> set history. timed v" and "length history < 2 ^ 62"
    and "CheckOperations order srt fmtv fmts KvModel history sched = Some answer"
  shows "answer \<longleftrightarrow> history_linearizable kv_store history"
proof -
  let ?m = "fillDefault fmtv fmts KvModel"
  from assms(6) obtain parts res info where parts: "kv_Partition history = Some parts"
    and run: "checkParallel order ?m (map (makeEntries srt) parts) False 0 sched = Some (res, info)"
    and answer: "answer = (res = Ok)"
    by (auto simp: CheckOperations_def checkOperations_def Let_def split: bind_splits)
  note ok = kv_parts_ok [OF assms(1,3,4,5) parts, of fmtv fmts]
  have "equal_model ?m ShallowEqual" by (rule kv.equal_model_axioms)
  from verdict_no_timeout [OF this op_parts_checkable [OF assms(1) ok] assms(2) run] answer
  have "answer \<longleftrightarrow> (\<forall>p \<in> set parts. history_linearizable ?m p)"
    by (simp only: op_parts_linearizable [OF assms(1) ok])
  with kv_parts_linearizable [OF assms(3,4) parts] show ?thesis by simp
qed

theorem CheckOperations_kv_witness:
  "CheckOperations id insertion_sort no_fmt no_fmt KvModel ex_history ex_sched = Some True \<and>
   history_linearizable kv_store ex_history"
proof -
  have run: "CheckOperations id insertion_sort no_fmt no_fmt KvModel ex_history ex_sched = Some True"
    by code_simp
  with CheckOperations_kv [OF insertion_sort_sorts map_order_id ex_history_ok run] show ?thesis by simp
qed

text \<open>
  C10. The verdict of \<open>CheckOperationsTimeout\<close> for any model whose \<open>Equal\<close> is compatible with \<open>Step\<close>:
  \<open>Ok\<close> means that every partition is linearizable, \<open>Illegal\<close> that one is not, and \<open>Unknown\<close> is
  returned only if a timeout was asked for. A goroutine that was told to stop never makes the
  verdict \<open>Illegal\<close>.
\<close>

theorem CheckOperationsTimeout_sound:
  assumes "equal_model (fillDefault fmtv fmts model) eq" and "sorts_by byTime_Less srt" and "map_order order"
    and "the (Partition (fillDefault fmtv fmts model)) history = Some parts"
    and "op_parts_ok srt (fillDefault fmtv fmts model) parts"
    and "CheckOperationsTimeout order srt fmtv fmts model history timeout sched = Some res"
  shows "(res = Ok \<longrightarrow> (\<forall>p \<in> set parts. history_linearizable model p)) \<and>
     (res = Illegal \<longrightarrow> (\<exists>p \<in> set parts. \<not> history_linearizable model p)) \<and>
     (res = Unknown \<longrightarrow> 0 < timeout)"
proof -
  let ?m = "fillDefault fmtv fmts model" and ?l = "map (makeEntries srt) parts"
  from assms(4,6) obtain info where run: "checkParallel order ?m ?l False timeout sched = Some (res, info)"
    by (auto simp: CheckOperationsTimeout_def checkOperations_def Let_def split: bind_splits)
  note ret = checkParallel_returned [OF assms(1) op_parts_checkable [OF assms(2,5)] assms(3) run]
  have "(\<forall>es \<in> set ?l. linearizable ?m es) \<longleftrightarrow> (\<forall>p \<in> set parts. history_linearizable model p)"
    using op_parts_linearizable [OF assms(2,5), of ?m] by simp
  with ret(1-3) show ?thesis by blast
qed

theorem CheckOperationsTimeout_sound_witness:
  "CheckOperationsTimeout id insertion_sort no_fmt no_fmt KvModel ex_history 1000 [RunWorker 0, FireTimeout, Finish] =
     Some Unknown \<and> (0 :: int) < 1000"
proof -
  have run: "CheckOperationsTimeout id insertion_sort no_fmt no_fmt KvModel ex_history 1000
      [RunWorker 0, FireTimeout, Finish] = Some Unknown" by code_simp
  have "the (Partition ex_model) ex_history = Some [ex_history]" by (simp add: ex_parts)
  from CheckOperationsTimeout_sound [OF kv.equal_model_axioms insertion_sort_sorts map_order_id this ex_parts_ok run]
    run show ?thesis by blast
qed

text \<open>
  C6. \<open>checkParallel\<close> always returns, whatever the interleaving: there is a bound on the length of
  every schedule, and every schedule that has not made it return can be continued by some event.
  The partitions must not be empty unless there is a timeout (see the next property).
\<close>

theorem checkParallel_terminates:
  assumes "equal_model m eq" and "\<forall>es \<in> set l. checkable m es" and "map_order order"
    and "l \<noteq> [] \<or> 0 < timeout"
  shows "\<exists>bound. \<forall>sched st. ps_run order m l verbose timeout sched (checkParallel_init l) = Some st \<longrightarrow>
     length sched \<le> bound \<and>
     ((\<exists>res info. ps_main st = Returned res info) \<or>
      (\<exists>ev st'. ps_step order m l verbose timeout ev st = Some st'))"
proof (intro exI [of _ "ps_weight m l verbose (checkParallel_init l)"] allI impI conjI)
  fix sched st
  assume run: "ps_run order m l verbose timeout sched (checkParallel_init l) = Some st"
  have "bounded_workers m verbose (checkParallel_init l)"
    by (auto simp: bounded_workers_def checkParallel_init_def)
  from equal_model.run_bounded [OF assms(1) ps_inv_init this assms(2,3) run]
  show "length sched \<le> ps_weight m l verbose (checkParallel_init l)" by simp
  have inv: "ps_inv m l verbose timeout st"
    by (rule equal_model.ps_inv_run [OF assms(1) ps_inv_init assms(2,3) run])
  show "(\<exists>res info. ps_main st = Returned res info) \<or>
      (\<exists>ev st'. ps_step order m l verbose timeout ev st = Some st')"
    using equal_model.progress [OF assms(1) inv assms(4), of order] inv
    by (cases "ps_main st") (auto simp: ps_inv_def main_ok_def)
qed

theorem checkParallel_terminates_witness:
  "\<exists>bound. \<forall>sched st. ps_run id ex_model [makeEntries insertion_sort ex_history] True 0 sched
       (checkParallel_init [makeEntries insertion_sort ex_history]) = Some st \<longrightarrow>
     length sched \<le> bound \<and>
     ((\<exists>res info. ps_main st = Returned res info) \<or>
      (\<exists>ev st'. ps_step id ex_model [makeEntries insertion_sort ex_history] True 0 ev st = Some st'))"
  by (rule checkParallel_terminates [OF kv.equal_model_axioms _ map_order_id]) (simp_all add: ex_checkable)

text \<open>
  C40. Without partitions and without a timeout \<open>checkParallel\<close> never returns: no goroutine will ever
  send a result, and the test \<open>count >= len(history)\<close> is behind the first receive. The call
  \<open>CheckOperations(KvModel, history)\<close> with an empty history therefore blocks for ever.
\<close>

theorem CheckOperations_kv_empty_blocks:
  "CheckOperations order srt fmtv fmts KvModel [] sched = None"
proof -
  have "ps_step order m [] False 0 ev (checkParallel_init []) = None" for m :: "(go_any, go_any) Model" and ev
    by (cases ev) (auto simp: ps_step_def checkParallel_init_def worker_step_def receive_step_def
        timeout_step_def finish_step_def)
  then have "checkParallel order m [] False 0 sched = None" for m :: "(go_any, go_any) Model"
    by (cases sched) (simp_all add: checkParallel_def, simp add: checkParallel_init_def)
  moreover have "kv_Partition [] = Some []" by (simp add: kv_Partition_Nil)
  ultimately show ?thesis by (simp add: CheckOperations_def checkOperations_def)
qed

text \<open>
  C20. \<open>CheckEvents\<close> on the key/value model: for an event history in which every identifier is
  called once and then returns once, whatever the identifiers are, the call returns true exactly when the
  events are linearizable. \<open>renumber\<close> and \<open>convertEntries\<close> change nothing about it.
\<close>

theorem CheckEvents_kv:
  assumes "map_order order" and "wf_events history" and "length history < 2 ^ 63"
    and "\<forall>e \<in> set (convertEntries history). kv_entry e"
    and "CheckEvents order fmtv fmts KvModel history sched = Some answer"
  shows "answer \<longleftrightarrow> linearizable KvModel (convertEntries history)"
proof -
  let ?m = "fillDefault fmtv fmts KvModel" and ?es = "convertEntries (renumber history)"
  from assms(5) obtain res info where
    run: "checkParallel order ?m [?es] False 0 sched = Some (res, info)" and answer: "answer = (res = Ok)"
    by (auto simp: CheckEvents_def checkEvents_def Let_def KvModel_def NoPartitionEvent_def split: bind_splits)
  have "\<forall>es \<in> set [?es]. checkable ?m es"
    using kv_entry_renumber [OF assms(4)] renumber_wf [OF assms(2)] assms(3) by (simp add: checkable_def kv_entries_safe)
  from verdict_no_timeout [OF kv.equal_model_axioms this assms(1) run] answer
  show ?thesis by (simp add: renumber_linearizable [OF assms(2)])
qed

definition ex_events :: "go_any Event list" where
  "ex_events =
     [\<lparr>ev_ClientId = 0, ev_Kind = CallEvent, ev_Value = op_Input ex_get, ev_Id = 70\<rparr>,
      \<lparr>ev_ClientId = 1, ev_Kind = CallEvent, ev_Value = op_Input ex_put, ev_Id = 30\<rparr>,
      \<lparr>ev_ClientId = 0, ev_Kind = ReturnEvent, ev_Value = op_Output ex_get, ev_Id = 70\<rparr>,
      \<lparr>ev_ClientId = 1, ev_Kind = ReturnEvent, ev_Value = op_Output ex_put, ev_Id = 30\<rparr>]"

lemma ex_events_ok:
  "wf_events ex_events" "length ex_events < 2 ^ 63" "\<forall>e \<in> set (convertEntries ex_events). kv_entry e"
proof -
  show "wf_events ex_events" unfolding wf_events_def by code_simp
  show "length ex_events < 2 ^ 63" by (simp add: ex_events_def)
  show "\<forall>e \<in> set (convertEntries ex_events). kv_entry e" by code_simp
qed

theorem CheckEvents_kv_witness:
  "\<exists>sched. CheckEvents id no_fmt no_fmt KvModel ex_events sched = Some True \<and>
     linearizable KvModel (convertEntries ex_events)"
proof -
  have run: "CheckEvents id no_fmt no_fmt KvModel ex_events (replicate 7 (RunWorker 0) @ [Receive, Finish]) = Some True"
    by code_simp
  with CheckEvents_kv [OF map_order_id ex_events_ok run] show ?thesis by blast
qed

text \<open>
  C33. The information that \<open>CheckOperationsVerbose\<close> collects: it holds the entries of all partitions, and
  every sequence it reports for a partition is a partial linearization of that partition, a set of
  operations closed under real-time precedence in an order that the model accepts.
\<close>

theorem CheckOperationsVerbose_info:
  assumes "equal_model (fillDefault fmtv fmts model) eq" and "sorts_by byTime_Less srt" and "map_order order"
    and "the (Partition (fillDefault fmtv fmts model)) history = Some parts"
    and "op_parts_ok srt (fillDefault fmtv fmts model) parts"
    and "CheckOperationsVerbose order srt fmtv fmts model history timeout sched = Some (res, info)"
  shows "li_history info = map (makeEntries srt) parts \<and>
     length (li_partialLinearizations info) = length parts \<and>
     (\<forall>i < length parts. \<forall>lin \<in> set (li_partialLinearizations info ! i).
       partial_linearization (fillDefault fmtv fmts model) (makeEntries srt (parts ! i)) lin)"
proof -
  let ?m = "fillDefault fmtv fmts model" and ?l = "map (makeEntries srt) parts"
  from assms(4,6) have run: "checkParallel order ?m ?l True timeout sched = Some (res, info)"
    by (auto simp: CheckOperationsVerbose_def checkOperations_def Let_def split: bind_splits)
  from checkParallel_returned(4) [OF assms(1) op_parts_checkable [OF assms(2,5)] assms(3) run]
  have "info_ok ?m ?l info" by simp
  then show ?thesis by (simp add: info_ok_def)
qed

theorem CheckOperationsVerbose_info_witness:
  "\<exists>info. CheckOperationsVerbose id insertion_sort no_fmt no_fmt KvModel ex_history 0 ex_sched = Some (Ok, info) \<and>
     li_partialLinearizations info = [[[1, 0]]] \<and>
     partial_linearization ex_model (makeEntries insertion_sort ex_history) [1, 0]"
proof -
  have "map_option (\<lambda>(res, info). (res, li_partialLinearizations info))
      (CheckOperationsVerbose id insertion_sort no_fmt no_fmt KvModel ex_history 0 ex_sched) = Some (Ok, [[[1, 0]]])"
    by code_simp
  then obtain info where run: "CheckOperationsVerbose id insertion_sort no_fmt no_fmt KvModel ex_history 0 ex_sched =
      Some (Ok, info)" "li_partialLinearizations info = [[[1, 0]]]" by auto
  have "the (Partition ex_model) ex_history = Some [ex_history]" by (simp add: ex_parts)
  from CheckOperationsVerbose_info [OF kv.equal_model_axioms insertion_sort_sorts map_order_id this ex_parts_ok run(1)]
    run show ?thesis by simp
qed

text \<open>
  C34. No data race on \<open>longest\<close>: in every reachable state in which the main routine reads the array
  (\<open>computeInfo\<close> is set and the final step is enabled), all goroutines have stored their slice and sent their
  result. This is what the comment in \<open>checkParallel\<close> claims of the second receive loop.
\<close>

theorem checkParallel_no_race:
  assumes "equal_model m eq" and "\<forall>es \<in> set l. checkable m es" and "map_order order"
    and "ps_run order m l True timeout sched (checkParallel_init l) = Some st"
    and "finish_step order l True st = Some st'"
  shows "\<forall>w \<in> set (ps_workers st). \<exists>ok. w = Exited ok"
proof -
  have "ps_inv m l True timeout st"
    by (rule equal_model.ps_inv_run [OF assms(1) ps_inv_init assms(2-4)])
  moreover have "length l \<le> ps_count st" using assms(5) by (auto simp: finish_step_def split: if_splits)
  ultimately show ?thesis by (rule finish_exited)
qed

theorem checkParallel_no_race_witness:
  "\<exists>st st'. ps_run id ex_model [makeEntries insertion_sort ex_history] True 0 (butlast ex_sched)
      (checkParallel_init [makeEntries insertion_sort ex_history]) = Some st \<and>
    finish_step id [makeEntries insertion_sort ex_history] True st = Some st' \<and>
    (\<forall>w \<in> set (ps_workers st). \<exists>ok. w = Exited ok)"
proof -
  let ?l = "[makeEntries insertion_sort ex_history]"
  have "map_option (\<lambda>st. finish_step id ?l True st \<noteq> None)
      (ps_run id ex_model ?l True 0 (butlast ex_sched) (checkParallel_init ?l)) = Some True" by code_simp
  then obtain st st' where st: "ps_run id ex_model ?l True 0 (butlast ex_sched) (checkParallel_init ?l) = Some st"
    "finish_step id ?l True st = Some st'" by auto
  have "\<forall>es \<in> set ?l. checkable ex_model es" by (simp add: ex_checkable)
  from checkParallel_no_race [OF kv.equal_model_axioms this map_order_id st] st show ?thesis by blast
qed

section \<open>Correctness of the search\<close>

text \<open>
  C2. \<open>checkSingle\<close> decides linearizability of a partition: while the flag \<open>kill\<close> stays clear it
  terminates, does not panic, and returns true exactly when the entries are linearizable. The
  cache, the lifting of entries and the backtracking lose no linearization and invent none.
\<close>

theorem checkSingle_decides:
  assumes "equal_model m eq" and "wf_entries es" and "length es < 2 ^ 63" and "steps_safe m es"
  shows "\<exists>ok st. checkSingle m es computePartial (\<lambda>t. False) = Some (Return ok st) \<and> (ok \<longleftrightarrow> linearizable m es)"
  using equal_model.checkSingle_result [OF assms, of computePartial "\<lambda>_. False"]
  by (auto simp: search_result_def linearizable_def)

theorem checkSingle_decides_witness:
  "\<exists>st. checkSingle ex_model (makeEntries insertion_sort ex_history) False (\<lambda>t. False) = Some (Return True st) \<and>
     linearizable ex_model (makeEntries insertion_sort ex_history)"
proof -
  let ?es = "makeEntries insertion_sort ex_history"
  have "(case checkSingle ex_model ?es False (\<lambda>t. False) of Some (Return ok st) \<Rightarrow> ok | _ \<Rightarrow> False)" by code_simp
  moreover have "wf_entries ?es" "length ?es < 2 ^ 63" "steps_safe ex_model ?es"
    using ex_checkable by (simp_all add: checkable_def)
  from checkSingle_decides [OF kv.equal_model_axioms this, of False] obtain ok st where
    "checkSingle ex_model ?es False (\<lambda>t. False) = Some (Return ok st)" "ok \<longleftrightarrow> linearizable ex_model ?es" by blast
  ultimately show ?thesis by (cases ok) auto
qed

text \<open>
  C28. \<open>checkSingle\<close> when the flag may be set at any time: it still terminates without a panic, its answer
  true is still right, and every non-nil pointer of \<open>longest\<close> points at a partial linearization
  that contains the operation of its index.
\<close>

theorem checkSingle_under_kill:
  assumes "equal_model m eq" and "wf_entries es" and "length es < 2 ^ 63" and "steps_safe m es"
  shows "\<exists>ok st. checkSingle m es computePartial kill = Some (Return ok st) \<and> (ok \<longrightarrow> linearizable m es) \<and>
     length (cs_longest st) = length es div 2 \<and>
     (\<forall>i < length es div 2. \<forall>p. cs_longest st ! i = Some p \<longrightarrow> p < length (cs_seqs st) \<and>
        int i \<in> set (cs_seqs st ! p) \<and> partial_linearization m es (cs_seqs st ! p))"
  using equal_model.checkSingle_result [OF assms, of computePartial kill]
  by (fastforce simp: search_result_def linearizable_def longest_ok_def)

theorem checkSingle_under_kill_witness:
  "\<exists>st. checkSingle ex_model (makeEntries insertion_sort ex_history) True (\<lambda>t. t > 0) = Some (Return False st) \<and>
     length (cs_longest st) = 2"
proof -
  let ?es = "makeEntries insertion_sort ex_history"
  have "(case checkSingle ex_model ?es True (\<lambda>t. t > 0) of Some (Return ok st) \<Rightarrow> \<not> ok | _ \<Rightarrow> False)" by code_simp
  moreover have "wf_entries ?es" "length ?es < 2 ^ 63" "steps_safe ex_model ?es"
    using ex_checkable by (simp_all add: checkable_def)
  from checkSingle_under_kill [OF kv.equal_model_axioms this, of True "\<lambda>t. t > 0"] obtain ok st where
    "checkSingle ex_model ?es True (\<lambda>t. t > 0) = Some (Return ok st)" "length (cs_longest st) = length ?es div 2"
    by blast
  moreover have "length ?es div 2 = 2"
    by (simp add: length_makeEntries [OF insertion_sort_sorts] ex_history_def)
  ultimately show ?thesis by (cases ok) auto
qed

text \<open>
  C35. \<open>makeEntries\<close> turns time stamps into an order: for any sorting function that meets the
  contract of \<open>sort.Sort\<close>, the entries of a history of timed operations are well formed, an operation
  precedes another in the entries exactly when it returned strictly before the other was called, and the
  entries are linearizable exactly when the history is.
\<close>

theorem makeEntries_correct:
  assumes "sorts_by byTime_Less srt" and "\<forall>elem \<in> set history. timed elem"
  shows "wf_entries (makeEntries srt history) \<and>
     (\<forall>a < length history. \<forall>b < length history. rt_before (makeEntries srt history) (int a) (int b) \<longleftrightarrow>
        op_Return (history ! a) < op_Call (history ! b)) \<and>
     (linearizable m (makeEntries srt history) \<longleftrightarrow> history_linearizable m history)"
  using makeEntries_wf [OF assms] makeEntries_rt_before [OF assms] makeEntries_linearizable [OF assms] by blast

theorem makeEntries_correct_witness:
  "wf_entries (makeEntries insertion_sort ex_history) \<and>
   \<not> rt_before (makeEntries insertion_sort ex_history) (int 1) (int 0)"
proof -
  have ex: "(1 :: nat) < length ex_history" "(0 :: nat) < length ex_history"
    "\<not> op_Return (ex_history ! 1) < op_Call (ex_history ! 0)"
    by (simp_all add: ex_history_def ex_put_def ex_get_def)
  note c = makeEntries_correct [OF insertion_sort_sorts ex_history_ok(2), of ex_model]
  from c [THEN conjunct2, THEN conjunct1, rule_format, OF ex(1,2)] ex(3) c [THEN conjunct1]
  show ?thesis by blast
qed

text \<open>
  C29. The partition of \<open>KvModel\<close> meets the contract that \<open>Model.Partition\<close> documents: a history of the
  store is linearizable if and only if each of its parts is. \<open>Partition\<close> loses no operation, does
  not panic, and orders the parts by key.
\<close>

theorem kv_Partition_correct:
  assumes "\<forall>v \<in> set history. kv_op v" and "\<forall>v \<in> set history. timed v"
  shows "\<exists>parts. kv_Partition history = Some parts \<and> mset (concat parts) = mset history \<and>
     (history_linearizable kv_store history \<longleftrightarrow> (\<forall>p \<in> set parts. history_linearizable KvModel p))"
proof -
  let ?ks = "sorted_list_of_set (op_key key_of ` set history)"
  have parts: "kv_Partition history = Some (map (\<lambda>k. filter (\<lambda>v. op_key key_of v = k) history) ?ks)"
    using assms(1) by (intro kv_Partition_eq) (auto simp: kv_op_def)
  with kv_parts_linearizable [OF assms parts] mset_concat_filter [of ?ks history "op_key key_of"]
  show ?thesis by auto
qed

theorem kv_Partition_correct_witness:
  "\<exists>parts. kv_Partition ex_history = Some parts \<and> mset (concat parts) = {#ex_get, ex_put#}"
  using kv_Partition_correct [OF ex_history_ok(1,2)] by (auto simp: ex_history_def)

end
