(* ===== verification/Visualization.thy ===== *)
theory Visualization
  imports Porcupine
begin

text \<open>
  \<open>computeVisualizationData\<close> of \<open>porcupine/visualization.go\<close>: the data shown for the partial
  linearizations that the checker reports. It replays every partial linearization on the model and
  panics if the model refuses a step. The theory shows that this panic is unreachable on the output of the
  checker, and what the map \<open>Largest\<close> holds.

  A missing key of a Go map of \<open>interface{}\<close> values reads as \<open>nil\<close>, here the parameter \<open>nilv\<close>; \<open>sort.Slice\<close>
  is the parameter \<open>psrt\<close>. The rendering of the data as JSON inside an HTML page is not modelled.
\<close>

section \<open>The model\<close>

record historyElement =
  he_ClientId :: int
  he_Start :: int
  he_End :: int
  he_Description :: string

record linearizationStep =
  ls_Index :: int
  ls_StateDescription :: string

record partitionVisualizationData =
  pv_History :: "historyElement list"
  pv_PartialLinearizations :: "linearizationStep list list"
  pv_Largest :: "int \<rightharpoonup> int"

text \<open>The slice \<open>history\<close> and the maps \<open>callValue\<close> and \<open>returnValue\<close>.\<close>

record 'v vis =
  vi_history :: "historyElement list"
  vi_call :: "int \<rightharpoonup> 'v"
  vi_return :: "int \<rightharpoonup> 'v"

definition vis_elem :: "'v \<Rightarrow> ('v, 's) Model \<Rightarrow> 'v entry \<Rightarrow> 'v vis \<Rightarrow> 'v vis option" where
  "vis_elem nilv model elem st = do {
     i \<leftarrow> int_index (en_id elem);
     he \<leftarrow> slice_get (vi_history st) i;
     (case en_kind elem of
        callEntry \<Rightarrow>
          Some (st\<lparr>vi_history := (vi_history st)[i := he\<lparr>he_ClientId := en_clientId elem, he_Start := en_time elem\<rparr>],
                   vi_call := (vi_call st)(en_id elem \<mapsto> en_value elem)\<rparr>)
      | returnEntry \<Rightarrow> do {
          describe \<leftarrow> DescribeOperation model;
          desc \<leftarrow> describe (map_read nilv (vi_call st) (en_id elem)) (en_value elem);
          Some (st\<lparr>vi_history := (vi_history st)[i := he\<lparr>he_End := en_time elem, he_Description := desc\<rparr>],
                   vi_return := (vi_return st)(en_id elem \<mapsto> en_value elem)\<rparr>)
        })
   }"

primrec vis_elems :: "'v \<Rightarrow> ('v, 's) Model \<Rightarrow> 'v entry list \<Rightarrow> 'v vis \<Rightarrow> 'v vis option" where
  "vis_elems nilv model [] st = Some st"
| "vis_elems nilv model (elem # elems) st = do {
     st' \<leftarrow> vis_elem nilv model elem st;
     vis_elems nilv model elems st'
   }"

text \<open>Replaying one partial linearization of length \<open>len\<close>, the \<open>i\<close>-th of its partition.\<close>

type_synonym largest = "(int \<rightharpoonup> nat) \<times> (int \<rightharpoonup> int)"

definition note_largest :: "int \<Rightarrow> nat \<Rightarrow> int \<Rightarrow> largest \<Rightarrow> largest" where
  "note_largest i len histId l = (case l of (largestSize, largestIndex) \<Rightarrow>
     if map_read 0 largestSize histId < len
     then (largestSize(histId \<mapsto> len), largestIndex(histId \<mapsto> i)) else (largestSize, largestIndex))"

primrec vis_partial ::
  "'v \<Rightarrow> ('v, 's) Model \<Rightarrow> 'v vis \<Rightarrow> int \<Rightarrow> nat \<Rightarrow> int list \<Rightarrow> 's \<Rightarrow> largest \<Rightarrow>
   (linearizationStep list \<times> largest) option" where
  "vis_partial nilv model vi i len [] state l = Some ([], l)"
| "vis_partial nilv model vi i len (histId # partial) state l = do {
     (ok, state') \<leftarrow> Step model state (map_read nilv (vi_call vi) histId) (map_read nilv (vi_return vi) histId);
     (if \<not> ok then None
      else do {
        describe \<leftarrow> DescribeState model;
        stateDesc \<leftarrow> describe state';
        (linearization, l') \<leftarrow> vis_partial nilv model vi i len partial state' (note_largest i len histId l);
        Some (\<lparr>ls_Index = histId, ls_StateDescription = stateDesc\<rparr> # linearization, l')
      })
   }"

primrec vis_partials ::
  "'v \<Rightarrow> ('v, 's) Model \<Rightarrow> 'v vis \<Rightarrow> int \<Rightarrow> int list list \<Rightarrow> largest \<Rightarrow>
   (linearizationStep list list \<times> largest) option" where
  "vis_partials nilv model vi i [] l = Some ([], l)"
| "vis_partials nilv model vi i (partial # partials) l = do {
     (linearization, l') \<leftarrow> vis_partial nilv model vi i (length partial) partial (Init model) l;
     (linearizations, l'') \<leftarrow> vis_partials nilv model vi (i + 1) partials l';
     Some (linearization # linearizations, l'')
   }"

definition vis_partition ::
  "(int list list \<Rightarrow> int list list) \<Rightarrow> 'v \<Rightarrow> ('v, 's) Model \<Rightarrow> 'v entry list \<Rightarrow> int list list \<Rightarrow>
   partitionVisualizationData option" where
  "vis_partition psrt nilv model entries partials = do {
     let n = length entries div 2;
     let zero = \<lparr>he_ClientId = 0, he_Start = 0, he_End = 0, he_Description = []\<rparr>;
     vi \<leftarrow> vis_elems nilv model entries \<lparr>vi_history = replicate n zero, vi_call = Map.empty, vi_return = Map.empty\<rparr>;
     (linearizations, (largestSize, largestIndex)) \<leftarrow>
       vis_partials nilv model vi 0 (psrt partials) (Map.empty, Map.empty);
     Some \<lparr>pv_History = vi_history vi, pv_PartialLinearizations = linearizations, pv_Largest = largestIndex\<rparr>
   }"

primrec vis_data ::
  "(int list list \<Rightarrow> int list list) \<Rightarrow> 'v \<Rightarrow> ('v, 's) Model \<Rightarrow> 'v entry list list \<Rightarrow> int list list list \<Rightarrow>
   partitionVisualizationData list option" where
  "vis_data psrt nilv model [] pls = Some []"
| "vis_data psrt nilv model (entries # history) pls = (case pls of
     [] \<Rightarrow> None
   | partials # pls' \<Rightarrow> do {
       d \<leftarrow> vis_partition psrt nilv model entries partials;
       ds \<leftarrow> vis_data psrt nilv model history pls';
       Some (d # ds)
     })"

definition computeVisualizationData ::
  "(int list list \<Rightarrow> int list list) \<Rightarrow> 'v \<Rightarrow> ('v \<Rightarrow> string) \<Rightarrow> ('s \<Rightarrow> string) \<Rightarrow> ('v, 's) Model \<Rightarrow>
   'v linearizationInfo \<Rightarrow> partitionVisualizationData list option" where
  "computeVisualizationData psrt nilv fmtv fmts model info =
     vis_data psrt nilv (fillDefault fmtv fmts model) (li_history info) (li_partialLinearizations info)"

section \<open>The maps of calls and returns\<close>

lemma vis_elems_append:
  "vis_elems nilv m (xs @ ys) st = (case vis_elems nilv m xs st of None \<Rightarrow> None | Some st' \<Rightarrow> vis_elems nilv m ys st')"
  by (induction xs arbitrary: st) (auto split: bind_splits option.splits)

text \<open>After the first \<open>k\<close> entries the maps hold the values of the calls and returns among them.\<close>

definition vis_ok :: "'v entry list \<Rightarrow> nat \<Rightarrow> 'v vis \<Rightarrow> bool" where
  "vis_ok es k vi \<longleftrightarrow> length (vi_history vi) = length es div 2 \<and>
     (\<forall>i \<in> ids es. \<forall>j < k. entry_at es callEntry i j \<longrightarrow> vi_call vi i = Some (inp_of es i)) \<and>
     (\<forall>i \<in> ids es. \<forall>j < k. entry_at es returnEntry i j \<longrightarrow> vi_return vi i = Some (out_of es i))"

definition describes :: "('v, 's) Model \<Rightarrow> 'v entry list \<Rightarrow> bool" where
  "describes m es \<longleftrightarrow> (\<exists>f. DescribeOperation m = Some f \<and> (\<forall>i \<in> ids es. f (inp_of es i) (out_of es i) \<noteq> None))"

lemma vis_elem_ok:
  assumes wf: "wf_entries es" and vi: "vis_ok es k vi" and k: "k < length es" and "describes m es"
  shows "\<exists>vi'. vis_elem nilv m (es ! k) vi = Some vi' \<and> vis_ok es (Suc k) vi'"
proof -
  let ?e = "es ! k" and ?i = "en_id (es ! k)"
  have at: "entry_at es (en_kind ?e) ?i k" using k by (simp add: entry_at_def)
  have i: "?i \<in> ids es" using k by simp
  then have idx: "int_index ?i = Some (nat ?i)" "nat ?i < length (vi_history vi)"
    using wf_entries_ids [OF wf] vi by (auto simp: int_index_def vis_ok_def)
  have val: "en_value ?e = value_of es (en_kind ?e) ?i" using value_of_nth [OF wf at] by simp
  show ?thesis
  proof (cases "en_kind ?e")
    case callEntry
    with idx val vi show ?thesis
      by (auto simp: vis_elem_def vis_ok_def less_Suc_eq inp_of_def entry_at_def)
  next
    case returnEntry
    from wf k returnEntry obtain j where j: "j < k" "entry_at es callEntry ?i j" by (auto simp: wf_entries_def)
    with vi i have call: "vi_call vi ?i = Some (inp_of es ?i)" by (auto simp: vis_ok_def)
    from assms(4) i obtain f d where "DescribeOperation m = Some f" "f (inp_of es ?i) (out_of es ?i) = Some d"
      by (auto simp: describes_def)
    with returnEntry call idx val vi show ?thesis
      by (auto simp: vis_elem_def vis_ok_def less_Suc_eq out_of_def entry_at_def map_read_def)
  qed
qed

lemma vis_elems_ok:
  assumes "wf_entries es" and "describes m es" and "k \<le> length es" and "vis_ok es 0 vi"
  shows "\<exists>vi'. vis_elems nilv m (take k es) vi = Some vi' \<and> vis_ok es k vi'"
  using assms(3)
proof (induction k)
  case (Suc k)
  then obtain vi1 where vi1: "vis_elems nilv m (take k es) vi = Some vi1" "vis_ok es k vi1" by auto
  from vis_elem_ok [OF assms(1) vi1(2) _ assms(2)] Suc.prems obtain vi2 where
    "vis_elem nilv m (es ! k) vi1 = Some vi2" "vis_ok es (Suc k) vi2" by fastforce
  with vi1(1) Suc.prems show ?case by (simp add: take_Suc_conv_app_nth vis_elems_append)
qed (use assms(4) in simp)

lemma vis_ok_values:
  assumes "wf_entries es" and "vis_ok es (length es) vi" and "i \<in> ids es"
  shows "vi_call vi i = Some (inp_of es i)" and "vi_return vi i = Some (out_of es i)"
proof -
  have "0 \<le> i" "i < int (length es div 2)" using assms(3) wf_entries_ids [OF assms(1)] by auto
  note ex = wf_entries_complete [OF assms(1) this]
  show "vi_call vi i = Some (inp_of es i)"
    by (rule ex [of callEntry]) (use assms(2,3) in \<open>auto simp: vis_ok_def entry_at_def\<close>)
  show "vi_return vi i = Some (out_of es i)"
    by (rule ex [of returnEntry]) (use assms(2,3) in \<open>auto simp: vis_ok_def entry_at_def\<close>)
qed

section \<open>Replaying the partial linearizations\<close>

definition describes_states :: "('v, 's) Model \<Rightarrow> bool" where
  "describes_states m \<longleftrightarrow> (\<exists>f. DescribeState m = Some f \<and> (\<forall>s. f s \<noteq> None))"

text \<open>\<open>note_largest\<close> for all operations of a partial linearization.\<close>

definition improves :: "nat \<Rightarrow> int list \<Rightarrow> largest \<Rightarrow> int \<Rightarrow> bool" where
  "improves len partial l h \<longleftrightarrow> h \<in> set partial \<and> map_read 0 (fst l) h < len"

definition note_all :: "int \<Rightarrow> nat \<Rightarrow> int list \<Rightarrow> largest \<Rightarrow> largest" where
  "note_all i len partial l =
     ((\<lambda>h. if improves len partial l h then Some len else fst l h),
      (\<lambda>h. if improves len partial l h then Some i else snd l h))"

lemma note_all_Nil [simp]: "note_all i len [] l = l"
  by (simp add: note_all_def improves_def)

lemma note_all_Cons: "note_all i len partial (note_largest i len h l) = note_all i len (h # partial) l"
  by (cases l) (auto simp: note_all_def improves_def note_largest_def map_read_def fun_eq_iff)

lemma vis_partial_ok:
  assumes wf: "wf_entries es" and vi: "vis_ok es (length es) vi" and "describes_states m"
    and "set partial \<subseteq> ids es" and "run_ops m s (map (\<lambda>i. (inp_of es i, out_of es i)) partial) \<noteq> None"
  shows "\<exists>lin. vis_partial nilv m vi i len partial s l = Some (lin, note_all i len partial l) \<and>
     map ls_Index lin = partial"
  using assms(4,5)
proof (induction partial arbitrary: s l)
  case (Cons h partial)
  from Cons.prems(2) obtain s' where s': "Step m s (inp_of es h) (out_of es h) = Some (True, s')"
    "run_ops m s' (map (\<lambda>i. (inp_of es i, out_of es i)) partial) \<noteq> None"
    by (auto split: option.splits if_splits)
  from assms(3) obtain f d where d: "DescribeState m = Some f" "f s' = Some d"
    unfolding describes_states_def by (metis option.exhaust)
  from Cons.IH [OF _ s'(2), of "note_largest i len h l"] Cons.prems(1) obtain lin where
    "vis_partial nilv m vi i len partial s' (note_largest i len h l) =
      Some (lin, note_all i len partial (note_largest i len h l))" "map ls_Index lin = partial" by auto
  with s'(1) d vis_ok_values [OF wf vi, of h] Cons.prems(1) show ?case
    by (simp add: map_read_def note_all_Cons)
qed simp

text \<open>
  What the maps say after the partial linearizations \<open>ps\<close>: an operation that is in none has no entry, any
  other one is mapped to the position of the first of the longest ones that contain it.
\<close>

definition largest_ok :: "int list list \<Rightarrow> largest \<Rightarrow> bool" where
  "largest_ok ps l \<longleftrightarrow>
     (\<forall>h. (\<forall>p \<in> set ps. h \<notin> set p) \<longrightarrow> fst l h = None \<and> snd l h = None) \<and>
     (\<forall>h. (\<exists>p \<in> set ps. h \<in> set p) \<longrightarrow>
        (\<exists>k < length ps. snd l h = Some (int k) \<and> fst l h = Some (length (ps ! k)) \<and> h \<in> set (ps ! k) \<and>
           (\<forall>p \<in> set ps. h \<in> set p \<longrightarrow> length p \<le> length (ps ! k))))"

lemma largest_ok_snoc:
  assumes "largest_ok ps l"
  shows "largest_ok (ps @ [p]) (note_all (int (length ps)) (length p) p l)"
proof -
  let ?l = "note_all (int (length ps)) (length p) p l"
  have none: "fst l h = None" "snd l h = None" if "\<forall>q \<in> set ps. h \<notin> set q" for h
    using assms that by (auto simp: largest_ok_def)
  have goal: "\<exists>k < length (ps @ [p]). snd ?l h = Some (int k) \<and> fst ?l h = Some (length ((ps @ [p]) ! k)) \<and>
      h \<in> set ((ps @ [p]) ! k) \<and> (\<forall>q \<in> set (ps @ [p]). h \<in> set q \<longrightarrow> length q \<le> length ((ps @ [p]) ! k))"
    if h: "\<exists>q \<in> set (ps @ [p]). h \<in> set q" for h
  proof (cases "\<exists>q \<in> set ps. h \<in> set q")
    case True
    with assms obtain k where k: "k < length ps" "snd l h = Some (int k)" "fst l h = Some (length (ps ! k))"
      "h \<in> set (ps ! k)" "\<forall>q \<in> set ps. h \<in> set q \<longrightarrow> length q \<le> length (ps ! k)"
      unfolding largest_ok_def by blast
    show ?thesis
    proof (cases "improves (length p) p l h")
      case True
      with k show ?thesis
        by (intro exI [of _ "length ps"]) (auto simp: note_all_def improves_def map_read_def)
    next
      case False
      with k show ?thesis
        by (intro exI [of _ k]) (auto simp: note_all_def improves_def map_read_def nth_append)
    qed
  next
    case False
    with h have "h \<in> set p" by auto
    moreover from this have "0 < length p" by (cases p) auto
    ultimately have "improves (length p) p l h"
      using none [of h] False by (auto simp: improves_def map_read_def)
    with False \<open>h \<in> set p\<close> show ?thesis
      by (intro exI [of _ "length ps"]) (auto simp: note_all_def)
  qed
  have "fst ?l h = None \<and> snd ?l h = None" if "\<forall>q \<in> set (ps @ [p]). h \<notin> set q" for h
    using none [of h] that by (auto simp: note_all_def improves_def)
  with goal show ?thesis unfolding largest_ok_def by blast
qed

lemma vis_partials_ok:
  assumes "wf_entries es" and "vis_ok es (length es) vi" and "describes_states m"
    and "\<forall>p \<in> set ps. partial_linearization m es p" and "largest_ok seen l"
  shows "\<exists>lins l'. vis_partials nilv m vi (int (length seen)) ps l = Some (lins, l') \<and>
     map (map ls_Index) lins = ps \<and> largest_ok (seen @ ps) l'"
  using assms(4,5)
proof (induction ps arbitrary: seen l)
  case (Cons p ps)
  then have p: "set p \<subseteq> ids es" "run_ops m (Init m) (map (\<lambda>i. (inp_of es i, out_of es i)) p) \<noteq> None"
    by (simp_all add: partial_linearization_def)
  from vis_partial_ok [OF assms(1-3) p] obtain lin where
    lin: "vis_partial nilv m vi (int (length seen)) (length p) p (Init m) l =
        Some (lin, note_all (int (length seen)) (length p) p l)" "map ls_Index lin = p" by blast
  from Cons.IH [OF _ largest_ok_snoc [OF Cons.prems(2), of p]] Cons.prems(1) obtain lins l' where
    "vis_partials nilv m vi (int (length (seen @ [p]))) ps (note_all (int (length seen)) (length p) p l) = Some (lins, l')"
    "map (map ls_Index) lins = ps" "largest_ok ((seen @ [p]) @ ps) l'" by auto
  with lin show ?case by (auto simp: add.commute)
qed simp

section \<open>Whole partitions\<close>

definition visualizable :: "('v, 's) Model \<Rightarrow> 'v entry list \<Rightarrow> bool" where
  "visualizable m es \<longleftrightarrow> wf_entries es \<and> describes m es \<and> describes_states m"

text \<open>The data of a partition shows the sorted partial linearizations, and its map \<open>Largest\<close> is right.\<close>

definition partition_data_ok ::
  "(int list list \<Rightarrow> int list list) \<Rightarrow> 'v entry list \<Rightarrow> int list list \<Rightarrow> partitionVisualizationData \<Rightarrow> bool" where
  "partition_data_ok psrt es partials d \<longleftrightarrow>
     length (pv_History d) = length es div 2 \<and>
     map (map ls_Index) (pv_PartialLinearizations d) = psrt partials \<and>
     (\<forall>h. (\<exists>p \<in> set partials. h \<in> set p) \<longrightarrow> (\<exists>k < length partials. pv_Largest d h = Some (int k) \<and>
        h \<in> set (psrt partials ! k) \<and> (\<forall>p \<in> set partials. h \<in> set p \<longrightarrow> length p \<le> length (psrt partials ! k))))"

definition by_length :: "int list \<Rightarrow> int list \<Rightarrow> bool" where
  "by_length a b \<longleftrightarrow> length a > length b"

lemma vis_partition_ok:
  assumes "visualizable m es" and srt: "sorts_by by_length psrt"
    and "\<forall>p \<in> set partials. partial_linearization m es p"
  shows "\<exists>d. vis_partition psrt nilv m es partials = Some d \<and> partition_data_ok psrt es partials d"
proof -
  let ?zero = "\<lparr>he_ClientId = 0, he_Start = 0, he_End = 0, he_Description = []\<rparr>"
  let ?vi = "\<lparr>vi_history = replicate (length es div 2) ?zero, vi_call = Map.empty, vi_return = Map.empty\<rparr>"
  have es: "wf_entries es" "describes m es" "describes_states m" using assms(1) by (simp_all add: visualizable_def)
  have perm: "set (psrt partials) = set partials" "length (psrt partials) = length partials"
    using srt by (metis go_sort.srt_set sorts_by_iff, metis go_sort.srt_length sorts_by_iff)
  have "vis_ok es 0 ?vi" by (simp add: vis_ok_def)
  from vis_elems_ok [OF es(1,2) order_refl this] obtain vi where
    vi: "vis_elems nilv m es ?vi = Some vi" "vis_ok es (length es) vi" by auto
  have "largest_ok [] (Map.empty, Map.empty)" by (simp add: largest_ok_def)
  from vis_partials_ok [OF es(1) vi(2) es(3) _ this, of "psrt partials" nilv] assms(3) perm(1) obtain lins l where
    lins: "vis_partials nilv m vi 0 (psrt partials) (Map.empty, Map.empty) = Some (lins, l)"
      "map (map ls_Index) lins = psrt partials" "largest_ok (psrt partials) l" by auto
  let ?d = "\<lparr>pv_History = vi_history vi, pv_PartialLinearizations = lins, pv_Largest = snd l\<rparr>"
  have "vis_partition psrt nilv m es partials = Some ?d"
    using vi(1) lins(1) by (simp add: vis_partition_def Let_def split: prod.split)
  moreover have "partition_data_ok psrt es partials ?d"
    using vi(2) lins(2,3) perm unfolding partition_data_ok_def largest_ok_def vis_ok_def
    by (metis partitionVisualizationData.select_convs)
  ultimately show ?thesis by blast
qed

lemma vis_data_ok:
  assumes "sorts_by by_length psrt" and "length pls = length history"
    and "\<forall>i < length history. visualizable m (history ! i) \<and>
      (\<forall>p \<in> set (pls ! i). partial_linearization m (history ! i) p)"
  shows "\<exists>ds. vis_data psrt nilv m history pls = Some ds \<and> length ds = length history \<and>
     (\<forall>i < length history. partition_data_ok psrt (history ! i) (pls ! i) (ds ! i))"
  using assms(2,3)
proof (induction history arbitrary: pls)
  case (Cons es history)
  then obtain ps pls' where pls: "pls = ps # pls'" "length pls' = length history" by (cases pls) auto
  have "visualizable m es" "\<forall>p \<in> set ps. partial_linearization m es p"
    using Cons.prems(2) pls by (auto dest: spec [of _ 0])
  from vis_partition_ok [OF this(1) assms(1) this(2)] obtain d where
    d: "vis_partition psrt nilv m es ps = Some d" "partition_data_ok psrt es ps d" by blast
  have "\<forall>i < length history. visualizable m (history ! i) \<and>
      (\<forall>p \<in> set (pls' ! i). partial_linearization m (history ! i) p)"
    using Cons.prems(2) pls by (auto dest: spec [of _ "Suc _"])
  from Cons.IH [OF pls(2) this] obtain ds where
    "vis_data psrt nilv m history pls' = Some ds" "length ds = length history"
    "\<forall>i < length history. partition_data_ok psrt (history ! i) (pls' ! i) (ds ! i)" by blast
  with d pls show ?case by (auto simp: less_Suc_eq_0_disj)
qed simp

section \<open>The output of the checker can be visualized\<close>

lemma kv_visualizable:
  assumes "sorts_by byTime_Less srt" and "\<forall>v \<in> set h. timed v" and "\<forall>v \<in> set h. kv_op v"
  shows "visualizable (fillDefault fmtv fmts KvModel) (makeEntries srt h)"
proof -
  let ?es = "makeEntries srt h"
  have "kv_DescribeOperation (inp_of ?es i) (out_of ?es i) \<noteq> None" if "i \<in> ids ?es" for i
  proof -
    from that makeEntries_ids [OF assms(1,2)] obtain n where "i = int n" "n < length h"
      by (auto elim!: nonneg_int_cases)
    with makeEntries_values [OF assms(1,2)] assms(3) nth_mem [of n h] show ?thesis
      by (fastforce simp: inp_of_def out_of_def kv_op_def kv_DescribeOperation_def)
  qed
  then have "describes (fillDefault fmtv fmts KvModel) ?es" by (simp add: describes_def KvModel_def)
  moreover have "describes_states (fillDefault fmtv fmts KvModel)"
    by (simp add: describes_states_def KvModel_def DefaultDescribeState_def)
  ultimately show ?thesis using makeEntries_wf [OF assms(1,2)] by (simp add: visualizable_def)
qed

text \<open>
  C30. The panic \<open>valid partial linearization returned non-ok result from model step\<close> of
  \<open>computeVisualizationData\<close> is unreachable on what \<open>CheckOperationsVerbose\<close> returns for a key/value history: it
  returns data for every partition, the steps of the partial linearizations in the order sorted by
  length, and \<open>Largest\<close> maps every operation to a longest one that contains it.
\<close>

theorem computeVisualizationData_kv:
  assumes "sorts_by byTime_Less srt" and "map_order order" and "sorts_by by_length psrt"
    and "\<forall>v \<in> set history. kv_op v" and "\<forall>v \<in> set history. timed v" and "length history < 2 ^ 62"
    and "CheckOperationsVerbose order srt fmtv fmts KvModel history timeout sched = Some (res, info)"
  shows "\<exists>ds. computeVisualizationData psrt nilv fmtv fmts KvModel info = Some ds \<and>
     length ds = length (li_history info) \<and>
     (\<forall>i < length ds. partition_data_ok psrt (li_history info ! i) (li_partialLinearizations info ! i) (ds ! i))"
proof -
  let ?m = "fillDefault fmtv fmts KvModel"
  from assms(7) obtain parts where parts: "kv_Partition history = Some parts"
    and run: "checkParallel order ?m (map (makeEntries srt) parts) True timeout sched = Some (res, info)"
    by (auto simp: CheckOperationsVerbose_def checkOperations_def Let_def split: bind_splits)
  note ok = kv_parts_ok [OF assms(1,4,5,6) parts, of fmtv fmts]
  from checkParallel_returned(4) [OF kv.equal_model_axioms op_parts_checkable [OF assms(1) ok] assms(2) run]
  have info: "info_ok ?m (map (makeEntries srt) parts) info" by simp
  have "visualizable ?m (makeEntries srt p)" if "p \<in> set parts" for p
    using kv_Partition_subset [OF assms(4) parts that] assms(4,5) by (intro kv_visualizable [OF assms(1)]) auto
  then have "\<forall>i < length (li_history info). visualizable ?m (li_history info ! i) \<and>
      (\<forall>p \<in> set (li_partialLinearizations info ! i). partial_linearization ?m (li_history info ! i) p)"
    using info by (auto simp: info_ok_def)
  moreover have "length (li_partialLinearizations info) = length (li_history info)"
    using info by (simp add: info_ok_def)
  ultimately show ?thesis
    using vis_data_ok [OF assms(3), of "li_partialLinearizations info" "li_history info" ?m nilv]
    unfolding computeVisualizationData_def by metis
qed

lemma by_length_strict_weak: "strict_weak by_length"
  unfolding strict_weak_def by_length_def by (auto simp: not_less intro: le_trans)

theorem computeVisualizationData_kv_witness:
  "\<exists>info ds. CheckOperationsVerbose id insertion_sort no_fmt no_fmt KvModel ex_history 0 ex_sched = Some (Ok, info) \<and>
     computeVisualizationData (sort_by by_length) AnyNil no_fmt no_fmt KvModel info = Some ds \<and> length ds = 1"
proof -
  have "map_option (\<lambda>(res, info). (res, length (li_history info)))
      (CheckOperationsVerbose id insertion_sort no_fmt no_fmt KvModel ex_history 0 ex_sched) = Some (Ok, 1)"
    by code_simp
  then obtain info where run: "CheckOperationsVerbose id insertion_sort no_fmt no_fmt KvModel ex_history 0 ex_sched =
      Some (Ok, info)" "length (li_history info) = 1" by auto
  from computeVisualizationData_kv [OF insertion_sort_sorts map_order_id sort_by_sorts [OF by_length_strict_weak]
      ex_history_ok run(1), of AnyNil] run show ?thesis by auto
qed

end
