(* ===== verification/Labrpc.thy ===== *)
theory Labrpc
  imports Lab_Prelude "HOL-Library.Word"
begin

text \<open>
  \<open>labrpc/labrpc.go\<close>: the simulated network between the clients and the servers of the laboratories.

  The network is a state machine. A server is an object with an identity, so servers live in a store and
  the map \<open>servers\<close> holds pointers into it. Every request that the network has accepted is a thread, the
  goroutine \<open>processReq\<close> together with the goroutine that calls the handler; \<open>net_step\<close> executes one
  atomic step of a thread or one call of the interface and is \<open>None\<close> when the step is not enabled. Random
  numbers are arguments of the events, and time passes between events.

  What reflection and \<open>labgob\<close> provide is a parameter: a method is a function on the state of the
  servers, \<open>dec\<close> decodes the arguments and \<open>enc\<close> encodes the reply.

  The theory shows that a request is answered at most once and executed at most once, that a server that was
  deleted while the request was in flight does not answer it, and that a reliable network delivers.
\<close>

section \<open>Messages, services and servers\<close>

type_synonym bytes = "8 word list"

record ('n, 't) reqMsg =
  rq_endname :: 'n
  rq_svcMeth :: string
  rq_argsType :: 't
  rq_args :: bytes

record replyMsg =
  rp_ok :: bool
  rp_reply :: bytes

definition no_reply :: replyMsg where
  "no_reply = \<lparr>rp_ok = False, rp_reply = []\<rparr>"

text \<open>What reflection tells about a method; \<open>mt_Func\<close> panics with \<open>None\<close>.\<close>

record ('v, 'w) Method =
  mt_Name :: string
  mt_PkgPath :: string
  mt_NumIn :: nat
  mt_In2Ptr :: bool
  mt_NumOut :: nat
  mt_Func :: "'v \<Rightarrow> 'w \<Rightarrow> ('w \<times> 'v) option"

record ('v, 'w) Service =
  svc_name :: string
  svc_methods :: "string \<rightharpoonup> ('v, 'w) Method"

record ('v, 'w) Server =
  sv_services :: "string \<rightharpoonup> ('v, 'w) Service"
  sv_count :: int

definition is_handler :: "('v, 'w) Method \<Rightarrow> bool" where
  "is_handler m \<longleftrightarrow> \<not> (mt_PkgPath m \<noteq> [] \<or> mt_NumIn m \<noteq> 3 \<or> \<not> mt_In2Ptr m \<or> mt_NumOut m \<noteq> 0)"

definition MakeService :: "string \<Rightarrow> ('v, 'w) Method list \<Rightarrow> ('v, 'w) Service" where
  "MakeService name typ =
     \<lparr>svc_name = name,
      svc_methods = fold (\<lambda>m ms. if is_handler m then ms(mt_Name m \<mapsto> m) else ms) typ Map.empty\<rparr>"

definition Service_dispatch ::
  "('t \<Rightarrow> bytes \<Rightarrow> 'v) \<Rightarrow> ('v \<Rightarrow> bytes) \<Rightarrow> ('v, 'w) Service \<Rightarrow> string \<Rightarrow> ('n, 't) reqMsg \<Rightarrow> 'w \<Rightarrow>
   go_error + 'w \<times> replyMsg" where
  "Service_dispatch dec enc svc methname req w =
     (case svc_methods svc methname of
        Some method \<Rightarrow>
          (let args = dec (rq_argsType req) (rq_args req) in
           case mt_Func method args w of
             Some (w', replyv) \<Rightarrow> Inr (w', \<lparr>rp_ok = True, rp_reply = enc replyv\<rparr>)
           | None \<Rightarrow> Inl GoPanic)
      | None \<Rightarrow> Inl LogFatal)"

definition MakeServer :: "('v, 'w) Server" where
  "MakeServer = \<lparr>sv_services = Map.empty, sv_count = 0\<rparr>"

definition AddService :: "('v, 'w) Server \<Rightarrow> ('v, 'w) Service \<Rightarrow> ('v, 'w) Server" where
  "AddService rs svc = rs\<lparr>sv_services := (sv_services rs)(svc_name svc \<mapsto> svc)\<rparr>"

text \<open>\<open>strings.LastIndex(s, ".")\<close>, which is \<open>-1\<close> without a dot; a slice bound of \<open>-1\<close> panics.\<close>

primrec LastIndex_from :: "int \<Rightarrow> int \<Rightarrow> string \<Rightarrow> char \<Rightarrow> int" where
  "LastIndex_from found i [] c = found"
| "LastIndex_from found i (x # xs) c = LastIndex_from (if x = c then i else found) (i + 1) xs c"

definition LastIndex :: "string \<Rightarrow> char \<Rightarrow> int" where
  "LastIndex s c = LastIndex_from (-1) 0 s c"

definition split_svcMeth :: "string \<Rightarrow> (string \<times> string) option" where
  "split_svcMeth svcMeth =
     (let dot = LastIndex svcMeth (CHR ''.'')
      in if dot < 0 then None else Some (take (nat dot) svcMeth, drop (nat (dot + 1)) svcMeth))"

definition Server_dispatch ::
  "('t \<Rightarrow> bytes \<Rightarrow> 'v) \<Rightarrow> ('v \<Rightarrow> bytes) \<Rightarrow> ('v, 'w) Server \<Rightarrow> ('n, 't) reqMsg \<Rightarrow> 'w \<Rightarrow>
   go_error + ('v, 'w) Server \<times> 'w \<times> replyMsg" where
  "Server_dispatch dec enc rs req w =
     (let rs' = rs\<lparr>sv_count := sv_count rs + 1\<rparr> in
      case split_svcMeth (rq_svcMeth req) of
        None \<Rightarrow> Inl GoPanic
      | Some (serviceName, methodName) \<Rightarrow>
          (case sv_services rs' serviceName of
             Some service \<Rightarrow>
               (case Service_dispatch dec enc service methodName req w of
                  Inl e \<Rightarrow> Inl e
                | Inr (w', r) \<Rightarrow> Inr (rs', w', r))
           | None \<Rightarrow> Inl LogFatal))"

definition Server_GetCount :: "('v, 'w) Server \<Rightarrow> int" where
  "Server_GetCount rs = sv_count rs"

section \<open>The network\<close>

text \<open>An end point; its channels are those of the network.\<close>

record 'n ClientEnd =
  end_name :: 'n

record 'n Network =
  nt_reliable :: bool
  nt_longDelays :: bool
  nt_longReordering :: bool
  nt_ends :: "'n \<rightharpoonup> 'n ClientEnd"
  nt_enabled :: "'n \<rightharpoonup> bool"
  nt_servers :: "'n \<rightharpoonup> ptr"
  nt_connections :: "'n \<rightharpoonup> 'n option"
  nt_done :: bool
  nt_count :: "32 word"
  nt_bytes :: "64 word"

definition MakeNetwork :: "'n Network" where
  "MakeNetwork = \<lparr>nt_reliable = True, nt_longDelays = False, nt_longReordering = False,
     nt_ends = Map.empty, nt_enabled = Map.empty, nt_servers = Map.empty, nt_connections = Map.empty,
     nt_done = False, nt_count = 0, nt_bytes = 0\<rparr>"

text \<open>Closing a channel that is closed panics.\<close>

definition Cleanup :: "'n Network \<Rightarrow> go_error + 'n Network" where
  "Cleanup rn = (if nt_done rn then Inl GoPanic else Inr (rn\<lparr>nt_done := True\<rparr>))"

definition Reliable :: "bool \<Rightarrow> 'n Network \<Rightarrow> 'n Network" where
  "Reliable yes rn = rn\<lparr>nt_reliable := yes\<rparr>"

definition LongReordering :: "bool \<Rightarrow> 'n Network \<Rightarrow> 'n Network" where
  "LongReordering yes rn = rn\<lparr>nt_longReordering := yes\<rparr>"

definition LongDelays :: "bool \<Rightarrow> 'n Network \<Rightarrow> 'n Network" where
  "LongDelays yes rn = rn\<lparr>nt_longDelays := yes\<rparr>"

record 'n endInfo =
  ei_enabled :: bool
  ei_servername :: "'n option"
  ei_server :: ptr
  ei_reliable :: bool
  ei_longreordering :: bool

definition readEndnameInfo :: "'n Network \<Rightarrow> 'n \<Rightarrow> 'n endInfo" where
  "readEndnameInfo rn endname =
     (let servername = map_read None (nt_connections rn) endname
      in \<lparr>ei_enabled = map_read False (nt_enabled rn) endname,
          ei_servername = servername,
          ei_server = (case servername of Some sn \<Rightarrow> map_read None (nt_servers rn) sn | None \<Rightarrow> None),
          ei_reliable = nt_reliable rn,
          ei_longreordering = nt_longReordering rn\<rparr>)"

definition isServerDead :: "'n Network \<Rightarrow> 'n \<Rightarrow> 'n \<Rightarrow> ptr \<Rightarrow> bool" where
  "isServerDead rn endname servername server \<longleftrightarrow>
     map_read False (nt_enabled rn) endname = False \<or> map_read None (nt_servers rn) servername \<noteq> server"

definition MakeEnd :: "'n \<Rightarrow> 'n Network \<Rightarrow> go_error + 'n Network \<times> 'n ClientEnd" where
  "MakeEnd endname rn =
     (if nt_ends rn endname \<noteq> None then Inl LogFatal
      else let e = \<lparr>end_name = endname\<rparr>
           in Inr (rn\<lparr>nt_ends := (nt_ends rn)(endname \<mapsto> e),
                      nt_enabled := (nt_enabled rn)(endname \<mapsto> False),
                      nt_connections := (nt_connections rn)(endname \<mapsto> None)\<rparr>, e))"

definition DeleteEnd :: "'n \<Rightarrow> 'n Network \<Rightarrow> go_error + 'n Network" where
  "DeleteEnd endname rn =
     (if nt_ends rn endname = None then Inl LogFatal
      else Inr (rn\<lparr>nt_ends := (nt_ends rn)(endname := None),
                   nt_enabled := (nt_enabled rn)(endname := None),
                   nt_connections := (nt_connections rn)(endname := None)\<rparr>))"

definition AddServer :: "'n \<Rightarrow> ptr \<Rightarrow> 'n Network \<Rightarrow> 'n Network" where
  "AddServer servername rs rn = rn\<lparr>nt_servers := (nt_servers rn)(servername \<mapsto> rs)\<rparr>"

definition DeleteServer :: "'n \<Rightarrow> 'n Network \<Rightarrow> 'n Network" where
  "DeleteServer servername rn = rn\<lparr>nt_servers := (nt_servers rn)(servername \<mapsto> None)\<rparr>"

definition Connect :: "'n \<Rightarrow> 'n \<Rightarrow> 'n Network \<Rightarrow> 'n Network" where
  "Connect endname servername rn =
     rn\<lparr>nt_connections := (nt_connections rn)(endname \<mapsto> Some servername)\<rparr>"

definition Enable :: "'n \<Rightarrow> bool \<Rightarrow> 'n Network \<Rightarrow> 'n Network" where
  "Enable endname enabled rn = rn\<lparr>nt_enabled := (nt_enabled rn)(endname \<mapsto> enabled)\<rparr>"

text \<open>\<open>GetCount\<close> calls a method on the pointer in the map; on \<open>nil\<close> its first access panics.\<close>

definition Network_GetCount :: "('v, 'w) Server list \<Rightarrow> 'n Network \<Rightarrow> 'n \<Rightarrow> int option" where
  "Network_GetCount store rn servername = do {
     p \<leftarrow> map_read None (nt_servers rn) servername;
     svr \<leftarrow> slice_get store p;
     Some (Server_GetCount svr)
   }"

definition GetTotalCount :: "'n Network \<Rightarrow> int" where
  "GetTotalCount rn = sint (nt_count rn)"

definition GetTotalBytes :: "'n Network \<Rightarrow> int" where
  "GetTotalBytes rn = sint (nt_bytes rn)"

section \<open>Calls\<close>

text \<open>
  The two halves of \<open>ClientEnd.Call\<close>: the request that it sends, with the encoder \<open>encode\<close> of \<open>labgob\<close> whose
  error panics, and what it makes of the reply, \<open>None\<close> standing for the return value false.
\<close>

definition Call_request ::
  "('a \<Rightarrow> bytes option) \<Rightarrow> 'n ClientEnd \<Rightarrow> string \<Rightarrow> 't \<Rightarrow> 'a \<Rightarrow> go_error + ('n, 't) reqMsg" where
  "Call_request encode e svcMeth argsType args =
     (case encode args of
        None \<Rightarrow> Inl GoPanic
      | Some b \<Rightarrow> Inr \<lparr>rq_endname = end_name e, rq_svcMeth = svcMeth, rq_argsType = argsType, rq_args = b\<rparr>)"

definition Call_reply :: "(bytes \<Rightarrow> 'a option) \<Rightarrow> replyMsg \<Rightarrow> go_error + 'a option" where
  "Call_reply decode rep =
     (if rp_ok rep then
        (case decode (rp_reply rep) of Some v \<Rightarrow> Inr (Some v) | None \<Rightarrow> Inl LogFatal)
      else Inr None)"

section \<open>Requests in flight\<close>

datatype 'n req_pc =
    RqNew
  | RqDraw "'n endInfo"
  | RqWait "'n endInfo"
  | RqChecked "'n endInfo" "replyMsg option"
  | RqSend replyMsg
  | RqEnd

text \<open>The goroutine that calls the handler: running for a server, offering its reply on \<open>ech\<close>, or done.\<close>

datatype handler = HNone | HRunning nat | HOffer replyMsg | HDone

record ('n, 't) thread =
  th_req :: "('n, 't) reqMsg"
  th_pc :: "'n req_pc"
  th_handler :: handler
  th_replies :: "replyMsg list"

record ('n, 't, 'v, 'w) net_state =
  ns_net :: "'n Network"
  ns_store :: "('v, 'w) Server list"
  ns_world :: 'w
  ns_loop :: bool
  ns_threads :: "('n, 't) thread list"
  ns_abort :: "go_error option"

datatype ('n, 't) net_event =
    NeSubmit "('n, 't) reqMsg"
  | NeLoopExit
  | NeReadInfo nat
  | NeDraw nat nat
  | NeDispatch nat
  | NeTake nat
  | NeTick nat
  | NeFinal nat nat
  | NeSend nat
  | NeReliable bool
  | NeLongReordering bool
  | NeLongDelays bool
  | NeMakeEnd 'n
  | NeDeleteEnd 'n
  | NeAddServer 'n nat
  | NeDeleteServer 'n
  | NeConnect 'n 'n
  | NeEnable 'n bool
  | NeCleanup

definition net_init :: "('v, 'w) Server list \<Rightarrow> 'w \<Rightarrow> ('n, 't, 'v, 'w) net_state" where
  "net_init store w = \<lparr>ns_net = MakeNetwork, ns_store = store, ns_world = w, ns_loop = True,
     ns_threads = [], ns_abort = None\<rparr>"

text \<open>The goroutine of \<open>MakeNetwork\<close> accepts a request.\<close>

definition submit_step ::
  "('n, 't) reqMsg \<Rightarrow> ('n, 't, 'v, 'w) net_state \<Rightarrow> ('n, 't, 'v, 'w) net_state option" where
  "submit_step xreq st =
     (if ns_loop st then
        Some (st\<lparr>ns_net := (ns_net st)\<lparr>nt_count := nt_count (ns_net st) + 1,
                                    nt_bytes := nt_bytes (ns_net st) + of_nat (length (rq_args xreq))\<rparr>,
                 ns_threads := ns_threads st @
                   [\<lparr>th_req = xreq, th_pc = RqNew, th_handler = HNone, th_replies = []\<rparr>]\<rparr>)
      else None)"

text \<open>The steps of \<open>processReq\<close> that only change the thread.\<close>

definition read_info :: "'n Network \<Rightarrow> ('n, 't) thread \<Rightarrow> ('n, 't) thread option" where
  "read_info rn th =
     (if th_pc th = RqNew then
        (let info = readEndnameInfo rn (rq_endname (th_req th)) in
         if ei_enabled info \<and> ei_servername info \<noteq> None \<and> ei_server info \<noteq> None
         then Some (th\<lparr>th_pc := RqDraw info\<rparr>)
         else Some (th\<lparr>th_pc := RqSend no_reply\<rparr>))
      else None)"

definition draw_step :: "nat \<Rightarrow> ('n, 't) thread \<Rightarrow> ('n, 't) thread option" where
  "draw_step r th =
     (case th_pc th of
        RqDraw info \<Rightarrow>
          if \<not> ei_reliable info \<and> r mod 1000 < 100 then Some (th\<lparr>th_pc := RqSend no_reply\<rparr>)
          else do { p \<leftarrow> ei_server info; Some (th\<lparr>th_pc := RqWait info, th_handler := HRunning p\<rparr>) }
      | _ \<Rightarrow> None)"

definition take_step :: "('n, 't) thread \<Rightarrow> ('n, 't) thread option" where
  "take_step th =
     (case (th_pc th, th_handler th) of
        (RqWait info, HOffer r) \<Rightarrow> Some (th\<lparr>th_pc := RqChecked info (Some r), th_handler := HDone\<rparr>)
      | _ \<Rightarrow> None)"

text \<open>100 milliseconds have passed. A goroutine that drains \<open>ech\<close> lets the handler's goroutine end.\<close>

definition tick_step :: "'n Network \<Rightarrow> ('n, 't) thread \<Rightarrow> ('n, 't) thread option" where
  "tick_step rn th =
     (case th_pc th of
        RqWait info \<Rightarrow> do {
          servername \<leftarrow> ei_servername info;
          (if isServerDead rn (rq_endname (th_req th)) servername (ei_server info)
           then Some (th\<lparr>th_pc := RqChecked info None\<rparr>) else Some th)
        }
      | _ \<Rightarrow> None)"

text \<open>The check after the loop and the choice of the reply; \<open>r\<close> is the draw for dropping it.\<close>

definition final_step :: "'n Network \<Rightarrow> nat \<Rightarrow> ('n, 't) thread \<Rightarrow> ('n, 't) thread option" where
  "final_step rn r th =
     (case th_pc th of
        RqChecked info reply \<Rightarrow> do {
          servername \<leftarrow> ei_servername info;
          let serverDead = isServerDead rn (rq_endname (th_req th)) servername (ei_server info);
          (case reply of
             None \<Rightarrow> Some (th\<lparr>th_pc := RqSend no_reply\<rparr>)
           | Some rep \<Rightarrow>
               if serverDead then Some (th\<lparr>th_pc := RqSend no_reply\<rparr>)
               else if \<not> ei_reliable info \<and> r mod 1000 < 100 then Some (th\<lparr>th_pc := RqSend no_reply\<rparr>)
               else Some (th\<lparr>th_pc := RqSend rep\<rparr>))
        }
      | _ \<Rightarrow> None)"

text \<open>The steps that touch more than the thread: the handler and the reply.\<close>

definition update_thread ::
  "nat \<Rightarrow> (('n, 't) thread \<Rightarrow> ('n, 't) thread option) \<Rightarrow> ('n, 't, 'v, 'w) net_state \<Rightarrow>
   ('n, 't, 'v, 'w) net_state option" where
  "update_thread i f st = do {
     th \<leftarrow> slice_get (ns_threads st) i;
     th' \<leftarrow> f th;
     Some (st\<lparr>ns_threads := (ns_threads st)[i := th']\<rparr>)
   }"

definition dispatch_step ::
  "('t \<Rightarrow> bytes \<Rightarrow> 'v) \<Rightarrow> ('v \<Rightarrow> bytes) \<Rightarrow> nat \<Rightarrow> ('n, 't, 'v, 'w) net_state \<Rightarrow>
   ('n, 't, 'v, 'w) net_state option" where
  "dispatch_step dec enc i st = do {
     th \<leftarrow> slice_get (ns_threads st) i;
     (case th_handler th of
        HRunning p \<Rightarrow> do {
          server \<leftarrow> slice_get (ns_store st) p;
          (case Server_dispatch dec enc server (th_req th) (ns_world st) of
             Inl e \<Rightarrow> Some (st\<lparr>ns_abort := Some e\<rparr>)
           | Inr (server', w', r) \<Rightarrow>
               Some (st\<lparr>ns_store := (ns_store st)[p := server'], ns_world := w',
                        ns_threads := (ns_threads st)[i := th\<lparr>th_handler := HOffer r\<rparr>]\<rparr>))
        }
      | _ \<Rightarrow> None)
   }"

definition send_step :: "nat \<Rightarrow> ('n, 't, 'v, 'w) net_state \<Rightarrow> ('n, 't, 'v, 'w) net_state option" where
  "send_step i st = do {
     th \<leftarrow> slice_get (ns_threads st) i;
     (case th_pc th of
        RqSend r \<Rightarrow>
          Some (st\<lparr>ns_net := (ns_net st)\<lparr>nt_bytes := nt_bytes (ns_net st) + of_nat (length (rp_reply r))\<rparr>,
                   ns_threads := (ns_threads st)[i := th\<lparr>th_pc := RqEnd, th_replies := th_replies th @ [r]\<rparr>]\<rparr>)
      | _ \<Rightarrow> None)
   }"

definition admin :: "('n Network \<Rightarrow> 'n Network) \<Rightarrow> ('n, 't, 'v, 'w) net_state \<Rightarrow> ('n, 't, 'v, 'w) net_state" where
  "admin f st = st\<lparr>ns_net := f (ns_net st)\<rparr>"

definition admin_fail ::
  "go_error + 'n Network \<Rightarrow> ('n, 't, 'v, 'w) net_state \<Rightarrow> ('n, 't, 'v, 'w) net_state" where
  "admin_fail r st = (case r of Inl e \<Rightarrow> st\<lparr>ns_abort := Some e\<rparr> | Inr rn \<Rightarrow> st\<lparr>ns_net := rn\<rparr>)"

definition net_step ::
  "('t \<Rightarrow> bytes \<Rightarrow> 'v) \<Rightarrow> ('v \<Rightarrow> bytes) \<Rightarrow> ('n, 't) net_event \<Rightarrow> ('n, 't, 'v, 'w) net_state \<Rightarrow>
   ('n, 't, 'v, 'w) net_state option" where
  "net_step dec enc ev st =
     (if ns_abort st \<noteq> None then None
      else case ev of
        NeSubmit req \<Rightarrow> submit_step req st
      | NeLoopExit \<Rightarrow> if ns_loop st \<and> nt_done (ns_net st) then Some (st\<lparr>ns_loop := False\<rparr>) else None
      | NeReadInfo i \<Rightarrow> update_thread i (read_info (ns_net st)) st
      | NeDraw i r \<Rightarrow> update_thread i (draw_step r) st
      | NeDispatch i \<Rightarrow> dispatch_step dec enc i st
      | NeTake i \<Rightarrow> update_thread i take_step st
      | NeTick i \<Rightarrow> update_thread i (tick_step (ns_net st)) st
      | NeFinal i r \<Rightarrow> update_thread i (final_step (ns_net st) r) st
      | NeSend i \<Rightarrow> send_step i st
      | NeReliable yes \<Rightarrow> Some (admin (Reliable yes) st)
      | NeLongReordering yes \<Rightarrow> Some (admin (LongReordering yes) st)
      | NeLongDelays yes \<Rightarrow> Some (admin (LongDelays yes) st)
      | NeMakeEnd endname \<Rightarrow> Some (admin_fail (map_sum id fst (MakeEnd endname (ns_net st))) st)
      | NeDeleteEnd endname \<Rightarrow> Some (admin_fail (DeleteEnd endname (ns_net st)) st)
      | NeAddServer servername p \<Rightarrow> Some (admin (AddServer servername (Some p)) st)
      | NeDeleteServer servername \<Rightarrow> Some (admin (DeleteServer servername) st)
      | NeConnect endname servername \<Rightarrow> Some (admin (Connect endname servername) st)
      | NeEnable endname enabled \<Rightarrow> Some (admin (Enable endname enabled) st)
      | NeCleanup \<Rightarrow> Some (admin_fail (Cleanup (ns_net st)) st))"

primrec net_run ::
  "('t \<Rightarrow> bytes \<Rightarrow> 'v) \<Rightarrow> ('v \<Rightarrow> bytes) \<Rightarrow> ('n, 't) net_event list \<Rightarrow> ('n, 't, 'v, 'w) net_state \<Rightarrow>
   ('n, 't, 'v, 'w) net_state option" where
  "net_run dec enc [] st = Some st"
| "net_run dec enc (ev # evs) st = do { st' \<leftarrow> net_step dec enc ev st; net_run dec enc evs st' }"

section \<open>What a step does to one request\<close>

text \<open>A thread after an event: it made the step of the event, or the event was none of its own.\<close>

definition evolves ::
  "'n Network \<Rightarrow> ('n, 't) net_event \<Rightarrow> nat \<Rightarrow> ('n, 't) thread \<Rightarrow> ('n, 't) thread \<Rightarrow> bool" where
  "evolves rn ev i th th' \<longleftrightarrow>
     (case ev of
        NeReadInfo j \<Rightarrow> if j = i then read_info rn th = Some th' else th' = th
      | NeDraw j r \<Rightarrow> if j = i then draw_step r th = Some th' else th' = th
      | NeDispatch j \<Rightarrow>
          if j = i then (\<exists>p r. th_handler th = HRunning p \<and> rp_ok r \<and> th' = th\<lparr>th_handler := HOffer r\<rparr>) else th' = th
      | NeTake j \<Rightarrow> if j = i then take_step th = Some th' else th' = th
      | NeTick j \<Rightarrow> if j = i then tick_step rn th = Some th' else th' = th
      | NeFinal j r \<Rightarrow> if j = i then final_step rn r th = Some th' else th' = th
      | NeSend j \<Rightarrow>
          if j = i then (\<exists>r. th_pc th = RqSend r \<and> th' = th\<lparr>th_pc := RqEnd, th_replies := th_replies th @ [r]\<rparr>)
          else th' = th
      | _ \<Rightarrow> th' = th)"

lemma Server_dispatch_ok: "Server_dispatch dec enc rs req w = Inr (rs', w', r) \<Longrightarrow> rp_ok r"
  by (auto simp: Server_dispatch_def Service_dispatch_def Let_def split: option.splits sum.splits prod.splits)

definition fresh_thread :: "('n, 't) reqMsg \<Rightarrow> ('n, 't) thread" where
  "fresh_thread req = \<lparr>th_req = req, th_pc = RqNew, th_handler = HNone, th_replies = []\<rparr>"

lemma update_thread_Some:
  assumes "update_thread i f st = Some st'"
  obtains th' where "i < length (ns_threads st)" and "f (ns_threads st ! i) = Some th'"
    and "st' = st\<lparr>ns_threads := (ns_threads st)[i := th']\<rparr>"
  using assms by (auto simp: update_thread_def slice_get_eq_Some_iff split: bind_splits)

lemma net_step_threads:
  assumes step: "net_step dec enc ev st = Some st'"
  shows "(\<exists>req. ev = NeSubmit req \<and> ns_threads st' = ns_threads st @ [fresh_thread req]) \<or>
     ns_abort st' \<noteq> None \<and> ns_threads st' = ns_threads st \<or>
     length (ns_threads st') = length (ns_threads st) \<and>
     (\<forall>i < length (ns_threads st). evolves (ns_net st) ev i (ns_threads st ! i) (ns_threads st' ! i))"
proof (cases ev)
  case (NeSubmit req)
  with step show ?thesis
    by (auto simp: net_step_def submit_step_def fresh_thread_def split: if_splits)
next
  case (NeDispatch j)
  with step Server_dispatch_ok [of dec enc] show ?thesis
    by (fastforce simp: net_step_def dispatch_step_def slice_get_eq_Some_iff evolves_def nth_list_update
        split: if_splits bind_splits handler.splits sum.splits prod.splits)
next
  case (NeSend j)
  with step show ?thesis
    by (auto simp: net_step_def send_step_def slice_get_eq_Some_iff evolves_def nth_list_update
        split: if_splits bind_splits req_pc.splits)
qed (use step in \<open>auto simp: net_step_def evolves_def nth_list_update admin_def admin_fail_def
    elim!: update_thread_Some split: if_splits sum.splits\<close>)

section \<open>The invariant of a request\<close>

definition target_ok :: "'n endInfo \<Rightarrow> bool" where
  "target_ok info \<longleftrightarrow> ei_servername info \<noteq> None \<and> ei_server info \<noteq> None"

definition thread_ok :: "('n, 't) thread \<Rightarrow> bool" where
  "thread_ok th \<longleftrightarrow>
     (case th_pc th of
        RqNew \<Rightarrow> th_handler th = HNone \<and> th_replies th = []
      | RqDraw info \<Rightarrow> target_ok info \<and> th_handler th = HNone \<and> th_replies th = []
      | RqWait info \<Rightarrow> target_ok info \<and> th_handler th \<noteq> HNone \<and> th_handler th \<noteq> HDone \<and> th_replies th = []
      | RqChecked info r \<Rightarrow> target_ok info \<and> (r \<noteq> None \<longrightarrow> th_handler th = HDone) \<and> th_handler th \<noteq> HNone \<and> th_replies th = []
      | RqSend r \<Rightarrow> (rp_ok r \<longrightarrow> th_handler th = HDone) \<and> th_replies th = []
      | RqEnd \<Rightarrow> (\<exists>r. th_replies th = [r] \<and> (rp_ok r \<longrightarrow> th_handler th = HDone)))"

lemma thread_ok_fresh [simp]: "thread_ok (fresh_thread req)"
  by (simp add: thread_ok_def fresh_thread_def)

lemmas thread_steps = read_info_def draw_step_def take_step_def tick_step_def final_step_def

lemma thread_ok_evolves:
  assumes "thread_ok th" and "evolves rn ev i th th'"
  shows "thread_ok th'"
proof (cases ev)
  case (NeDispatch j)
  with assms show ?thesis by (auto simp: evolves_def thread_ok_def split: if_splits req_pc.splits)
qed (use assms in \<open>auto simp: evolves_def thread_ok_def target_ok_def thread_steps no_reply_def Let_def
    split: if_splits req_pc.splits handler.splits option.splits bind_splits\<close>)

definition net_inv :: "('n, 't, 'v, 'w) net_state \<Rightarrow> bool" where
  "net_inv st \<longleftrightarrow> (\<forall>th \<in> set (ns_threads st). thread_ok th)"

lemma net_inv_init: "net_inv (net_init store w)"
  by (simp add: net_inv_def net_init_def)

lemma net_inv_step:
  assumes "net_inv st" and "net_step dec enc ev st = Some st'"
  shows "net_inv st'"
  using net_step_threads [OF assms(2)]
proof (elim disjE conjE exE)
  assume len: "length (ns_threads st') = length (ns_threads st)"
    and ev: "\<forall>i < length (ns_threads st). evolves (ns_net st) ev i (ns_threads st ! i) (ns_threads st' ! i)"
  have "thread_ok (ns_threads st' ! i)" if "i < length (ns_threads st)" for i
    using thread_ok_evolves [of "ns_threads st ! i"] ev assms(1) that by (auto simp: net_inv_def)
  with len show ?thesis unfolding net_inv_def by (auto simp: in_set_conv_nth)
qed (use assms(1) in \<open>auto simp: net_inv_def\<close>)

lemma net_inv_run: "net_inv st \<Longrightarrow> net_run dec enc evs st = Some st' \<Longrightarrow> net_inv st'"
proof (induction evs arbitrary: st)
  case (Cons ev evs)
  then obtain st1 where "net_step dec enc ev st = Some st1" "net_run dec enc evs st1 = Some st'"
    by (auto split: bind_splits)
  with Cons show ?case using net_inv_step by blast
qed simp

lemma net_run_append:
  "net_run dec enc (xs @ ys) st = (case net_run dec enc xs st of None \<Rightarrow> None | Some st' \<Rightarrow> net_run dec enc ys st')"
  by (induction xs arbitrary: st) (auto split: bind_splits option.splits)

section \<open>A request is executed at most once\<close>

text \<open>How often the handler of request \<open>i\<close> was called, as its thread and the process tell.\<close>

fun handler_runs :: "handler \<Rightarrow> nat" where
  "handler_runs (HOffer r) = 1"
| "handler_runs HDone = 1"
| "handler_runs _ = 0"

definition handler_calls :: "('n, 't, 'v, 'w) net_state \<Rightarrow> nat \<Rightarrow> nat" where
  "handler_calls st i =
     (if i < length (ns_threads st) then handler_runs (th_handler (ns_threads st ! i)) else 0)"

lemma evolves_handler:
  assumes "thread_ok th" and "evolves rn ev i th th'"
  shows "handler_runs (th_handler th') = handler_runs (th_handler th) + (if ev = NeDispatch i then 1 else 0)"
  using assms
  by (cases ev) (auto simp: evolves_def thread_ok_def thread_steps Let_def
      split: if_splits req_pc.splits handler.splits option.splits bind_splits)

lemma handler_calls_step:
  assumes "net_inv st" and "net_step dec enc ev st = Some st'" and "ns_abort st' = None"
  shows "handler_calls st' i = handler_calls st i + (if ev = NeDispatch i then 1 else 0)"
  using net_step_threads [OF assms(2)]
proof (elim disjE conjE exE)
  fix req assume "ev = NeSubmit req" "ns_threads st' = ns_threads st @ [fresh_thread req]"
  then show ?thesis by (auto simp: handler_calls_def fresh_thread_def nth_append less_Suc_eq)
next
  assume len: "length (ns_threads st') = length (ns_threads st)"
    and ev: "\<forall>i < length (ns_threads st). evolves (ns_net st) ev i (ns_threads st ! i) (ns_threads st' ! i)"
  show ?thesis
  proof (cases "i < length (ns_threads st)")
    case True
    then have "thread_ok (ns_threads st ! i)" using assms(1) by (auto simp: net_inv_def)
    from evolves_handler [OF this ev [rule_format, OF True]] True len show ?thesis
      by (simp add: handler_calls_def)
  next
    case False
    then have "ev \<noteq> NeDispatch i"
      using assms(2,3) by (auto simp: net_step_def dispatch_step_def slice_get_def split: if_splits)
    with False len show ?thesis by (simp add: handler_calls_def)
  qed
qed (use assms(3) in simp)

lemma handler_calls_run:
  assumes "net_inv st" and "net_run dec enc evs st = Some st'" and "ns_abort st' = None"
  shows "handler_calls st' i = handler_calls st i + length (filter (\<lambda>e. e = NeDispatch i) evs)"
  using assms(1,2)
proof (induction evs arbitrary: st)
  case (Cons ev evs)
  then obtain st1 where st1: "net_step dec enc ev st = Some st1" "net_run dec enc evs st1 = Some st'"
    by (auto split: bind_splits)
  have "ns_abort st1 = None"
  proof (cases evs)
    case Nil
    with st1(2) assms(3) show ?thesis by simp
  next
    case (Cons e es)
    with st1(2) show ?thesis by (auto simp: net_step_def split: if_splits)
  qed
  from handler_calls_step [OF Cons.prems(1) st1(1) this, of i]
    Cons.IH [OF net_inv_step [OF Cons.prems(1) st1(1)] st1(2)] show ?case by simp
qed simp

text \<open>
  C3. A request is answered at most once and its handler is called at most once, in every run of the
  network with any losses, delays and concurrent changes of the configuration; a positive answer means
  that the handler was called exactly once. (A negative answer says nothing: the handler may have run.)
\<close>

theorem at_most_once:
  assumes "net_run dec enc evs (net_init store w) = Some st" and "ns_abort st = None"
    and "i < length (ns_threads st)"
  shows "length (th_replies (ns_threads st ! i)) \<le> 1 \<and> length (filter (\<lambda>e. e = NeDispatch i) evs) \<le> 1 \<and>
     (\<forall>r \<in> set (th_replies (ns_threads st ! i)). rp_ok r \<longrightarrow> length (filter (\<lambda>e. e = NeDispatch i) evs) = 1)"
proof -
  have "thread_ok (ns_threads st ! i)"
    using net_inv_run [OF net_inv_init assms(1)] assms(3) by (auto simp: net_inv_def)
  moreover have "handler_calls st i = length (filter (\<lambda>e. e = NeDispatch i) evs)"
    using handler_calls_run [OF net_inv_init assms(1,2), of i] by (simp add: handler_calls_def net_init_def)
  moreover have "handler_runs (th_handler (ns_threads st ! i)) \<le> 1" by (cases "th_handler (ns_threads st ! i)") auto
  ultimately show ?thesis
    using assms(3) by (auto simp: handler_calls_def thread_ok_def split: req_pc.splits)
qed

section \<open>A concrete network\<close>

text \<open>A server with one service that adds its argument to a counter and returns the new value.\<close>

definition ex_method :: "(nat, nat) Method" where
  "ex_method = \<lparr>mt_Name = ''Add'', mt_PkgPath = [], mt_NumIn = 3, mt_In2Ptr = True, mt_NumOut = 0,
     mt_Func = (\<lambda>v w. Some (w + v, w + v))\<rparr>"

definition ex_server :: "(nat, nat) Server" where
  "ex_server = AddService MakeServer (MakeService ''Counter'' [ex_method])"

definition ex_dec :: "unit \<Rightarrow> bytes \<Rightarrow> nat" where
  "ex_dec t b = length b"

definition ex_enc :: "nat \<Rightarrow> bytes" where
  "ex_enc v = replicate v 1"

definition ex_req :: "(nat, unit) reqMsg" where
  "ex_req = \<lparr>rq_endname = 7, rq_svcMeth = ''Counter.Add'', rq_argsType = (), rq_args = [1, 1]\<rparr>"

definition ex_setup :: "(nat, unit) net_event list" where
  "ex_setup = [NeMakeEnd 7, NeConnect 7 1, NeAddServer 1 0, NeEnable 7 True, NeSubmit ex_req]"

definition ex_deliver :: "(nat, unit) net_event list" where
  "ex_deliver = [NeReadInfo 0, NeDraw 0 5, NeDispatch 0, NeTake 0, NeFinal 0 5, NeSend 0]"

abbreviation ex_start :: "(nat, unit, nat, nat) net_state" where
  "ex_start \<equiv> net_init [ex_server] 40"

theorem at_most_once_witness:
  "\<exists>st. net_run ex_dec ex_enc (ex_setup @ ex_deliver) ex_start = Some st \<and> ns_world st = 42 \<and>
     length (th_replies (ns_threads st ! 0)) \<le> 1"
proof -
  have "map_option (\<lambda>st. (ns_world st, ns_abort st, length (ns_threads st)))
      (net_run ex_dec ex_enc (ex_setup @ ex_deliver) ex_start) = Some (42, None, 1)" by code_simp
  then obtain st where st: "net_run ex_dec ex_enc (ex_setup @ ex_deliver) ex_start = Some st"
    "ns_abort st = None" "ns_world st = 42" "length (ns_threads st) = 1" by auto
  then have len: "0 < length (ns_threads st)" by simp
  from at_most_once [OF st(1,2) len] st show ?thesis by blast
qed

section \<open>A deleted server does not answer\<close>

definition unregistered :: "'n \<Rightarrow> nat \<Rightarrow> 'n Network \<Rightarrow> bool" where
  "unregistered sn p rn \<longleftrightarrow> map_read None (nt_servers rn) sn \<noteq> Some p"

lemma unregistered_dead: "unregistered sn p rn \<Longrightarrow> isServerDead rn endname sn (Some p)"
  by (simp add: unregistered_def isServerDead_def)

lemma unregistered_step:
  assumes "unregistered sn p (ns_net st)" and "net_step dec enc ev st = Some st'" and "ev \<noteq> NeAddServer sn p"
  shows "unregistered sn p (ns_net st')"
  using assms(2) assms(1,3)
  by (cases ev) (auto elim!: update_thread_Some simp: net_step_def unregistered_def submit_step_def dispatch_step_def send_step_def
      admin_def admin_fail_def Reliable_def LongReordering_def LongDelays_def MakeEnd_def DeleteEnd_def AddServer_def
      DeleteServer_def Connect_def Enable_def Cleanup_def map_sum_def Let_def
      split: if_splits bind_splits handler.splits sum.splits prod.splits req_pc.splits)

text \<open>A thread that waits for the server \<open>p\<close> under the name \<open>sn\<close>, or has given up on it.\<close>

definition refused :: "'n \<Rightarrow> nat \<Rightarrow> ('n, 't) thread \<Rightarrow> bool" where
  "refused sn p th \<longleftrightarrow>
     (case th_pc th of
        RqWait info \<Rightarrow> ei_servername info = Some sn \<and> ei_server info = Some p \<and> th_replies th = []
      | RqChecked info r \<Rightarrow> ei_servername info = Some sn \<and> ei_server info = Some p \<and> th_replies th = []
      | RqSend r \<Rightarrow> r = no_reply \<and> th_replies th = []
      | RqEnd \<Rightarrow> th_replies th = [no_reply]
      | _ \<Rightarrow> False)"

lemma refused_evolves:
  assumes "refused sn p th" and "unregistered sn p rn" and "evolves rn ev i th th'"
  shows "refused sn p th'"
  using assms unregistered_dead [OF assms(2)]
  by (cases ev) (auto simp: evolves_def refused_def thread_steps Let_def
      split: if_splits req_pc.splits handler.splits option.splits bind_splits)

lemma refused_run:
  assumes "refused sn p (ns_threads st ! i)" and "i < length (ns_threads st)" and "unregistered sn p (ns_net st)"
    and "net_run dec enc evs st = Some st'" and "NeAddServer sn p \<notin> set evs"
  shows "i < length (ns_threads st') \<and> refused sn p (ns_threads st' ! i)"
  using assms
proof (induction evs arbitrary: st)
  case (Cons ev evs)
  from Cons.prems(4) obtain st1 where st1: "net_step dec enc ev st = Some st1" "net_run dec enc evs st1 = Some st'"
    by (auto split: bind_splits)
  have "i < length (ns_threads st1) \<and> refused sn p (ns_threads st1 ! i)"
    using net_step_threads [OF st1(1)] Cons.prems(1,2) refused_evolves [OF Cons.prems(1,3)]
    by (auto simp: nth_append)
  moreover have "unregistered sn p (ns_net st1)"
    using unregistered_step [OF Cons.prems(3) st1(1)] Cons.prems(5) by auto
  ultimately show ?case using Cons.IH [OF _ _ _ st1(2)] Cons.prems(5) by auto
qed simp

text \<open>
  C8. A server that was deleted while it was executing a request does not answer it: once the
  network no longer maps the name to that server, every reply that a waiting request still gets is the
  failure \<open>replyMsg{false, nil}\<close>, whether or not the handler has returned. The comment in
  \<open>processReq\<close> asks for this so that no client sees the success of an update that went into a superseded
  persister.
\<close>

theorem deleted_server_refuses:
  assumes "i < length (ns_threads st)" and "th_replies (ns_threads st ! i) = []"
    and "th_pc (ns_threads st ! i) = RqWait info \<or> th_pc (ns_threads st ! i) = RqChecked info r"
    and "ei_servername info = Some sn" and "ei_server info = Some p"
    and "net_run dec enc (NeDeleteServer sn # evs) st = Some st'" and "NeAddServer sn p \<notin> set evs"
  shows "set (th_replies (ns_threads st' ! i)) \<subseteq> {no_reply}"
proof -
  let ?st1 = "admin (DeleteServer sn) st"
  have run: "net_run dec enc evs ?st1 = Some st'"
    using assms(6) by (auto simp: net_step_def split: if_splits bind_splits)
  have "refused sn p (ns_threads ?st1 ! i)"
    using assms(2-5) by (auto simp: refused_def admin_def)
  moreover have "unregistered sn p (ns_net ?st1)"
    by (simp add: unregistered_def admin_def DeleteServer_def)
  ultimately have "refused sn p (ns_threads st' ! i)"
    using refused_run [OF _ _ _ run assms(7)] assms(1) by (simp add: admin_def)
  then show ?thesis by (auto simp: refused_def split: req_pc.splits)
qed

definition ex_waiting :: "(nat, unit, nat, nat) net_state" where
  "ex_waiting = the (net_run ex_dec ex_enc (ex_setup @ [NeReadInfo 0, NeDraw 0 5, NeDispatch 0]) ex_start)"

theorem deleted_server_refuses_witness:
  "\<exists>st'. net_run ex_dec ex_enc [NeDeleteServer 1, NeTake 0, NeFinal 0 5, NeSend 0] ex_waiting = Some st' \<and>
     ns_world st' = 42 \<and> set (th_replies (ns_threads st' ! 0)) \<subseteq> {no_reply}"
proof -
  have "map_option ns_world (net_run ex_dec ex_enc [NeDeleteServer 1, NeTake 0, NeFinal 0 5, NeSend 0] ex_waiting) = Some 42"
    by code_simp
  then obtain st' where st': "net_run ex_dec ex_enc [NeDeleteServer 1, NeTake 0, NeFinal 0 5, NeSend 0] ex_waiting = Some st'"
    "ns_world st' = 42" by auto
  have w: "0 < length (ns_threads ex_waiting)" "th_replies (ns_threads ex_waiting ! 0) = []"
    by code_simp+
  have pc: "th_pc (ns_threads ex_waiting ! 0) = RqWait \<lparr>ei_enabled = True, ei_servername = Some 1, ei_server = Some 0,
      ei_reliable = True, ei_longreordering = False\<rparr>" (is "_ = RqWait ?info") by code_simp
  from deleted_server_refuses [OF w disjI1 [OF pc], of 1 0 ex_dec ex_enc "[NeTake 0, NeFinal 0 5, NeSend 0]" st'] st'
  show ?thesis by simp
qed

section \<open>A reliable network delivers\<close>

text \<open>
  Delivery: on a reliable network a new request from an enabled end point that is connected to a
  live server can always run to its reply; whatever the random draws are, the reply is the one that
  the handler computes, the handler acts on the state of the servers once, and the server has counted it.
\<close>

lemma delivers:
  assumes "i < length (ns_threads st)" and "ns_threads st ! i = fresh_thread req" and "ns_abort st = None"
    and "nt_reliable (ns_net st)" and "map_read False (nt_enabled (ns_net st)) (rq_endname req)"
    and "map_read None (nt_connections (ns_net st)) (rq_endname req) = Some sn"
    and "map_read None (nt_servers (ns_net st)) sn = Some p" and "p < length (ns_store st)"
    and "Server_dispatch dec enc (ns_store st ! p) req (ns_world st) = Inr (server', w', r)"
  shows "\<exists>st'. net_run dec enc [NeReadInfo i, NeDraw i r1, NeDispatch i, NeTake i, NeFinal i r2, NeSend i] st = Some st' \<and>
     th_replies (ns_threads st' ! i) = [r] \<and> ns_world st' = w' \<and> ns_store st' ! p = server'"
  using assms
  by (simp add: net_step_def update_thread_def read_info_def fresh_thread_def readEndnameInfo_def draw_step_def
      dispatch_step_def take_step_def final_step_def isServerDead_def send_step_def Let_def)

lemma delivers_example:
  "\<exists>st st'. net_run ex_dec ex_enc ex_setup ex_start = Some st \<and>
     net_run ex_dec ex_enc ex_deliver st = Some st' \<and>
     th_replies (ns_threads st' ! 0) = [\<lparr>rp_ok = True, rp_reply = replicate 42 1\<rparr>] \<and> ns_world st' = 42"
proof -
  let ?rn = "MakeNetwork\<lparr>nt_ends := [7 \<mapsto> \<lparr>end_name = 7\<rparr>], nt_enabled := [7 \<mapsto> False, 7 \<mapsto> True],
      nt_connections := [7 \<mapsto> None, 7 \<mapsto> Some 1], nt_servers := [1 \<mapsto> Some 0],
      nt_count := 1, nt_bytes := 2\<rparr>"
  let ?st = "\<lparr>ns_net = ?rn, ns_store = [ex_server], ns_world = 40, ns_loop = True,
      ns_threads = [fresh_thread ex_req], ns_abort = None\<rparr> :: (nat, unit, nat, nat) net_state"
  let ?sv = "ex_server\<lparr>sv_count := 1\<rparr>" and ?r = "\<lparr>rp_ok = True, rp_reply = replicate 42 1\<rparr>"
  have st: "net_run ex_dec ex_enc ex_setup ex_start = Some ?st"
    by (simp add: ex_setup_def net_init_def net_step_def MakeNetwork_def MakeEnd_def Connect_def AddServer_def
        Enable_def admin_def admin_fail_def submit_step_def fresh_thread_def ex_req_def Let_def)
  have "split_svcMeth ''Counter.Add'' = Some (''Counter'', ''Add'')" by code_simp
  then have disp: "Server_dispatch ex_dec ex_enc ex_server ex_req 40 = Inr (?sv, 42, ?r)"
    by (simp add: Server_dispatch_def Service_dispatch_def ex_server_def AddService_def MakeServer_def MakeService_def
        ex_method_def is_handler_def ex_req_def ex_dec_def ex_enc_def Let_def)
  have "\<exists>st'. net_run ex_dec ex_enc ex_deliver ?st = Some st' \<and>
      th_replies (ns_threads st' ! 0) = [?r] \<and> ns_world st' = 42 \<and> ns_store st' ! 0 = ?sv"
    unfolding ex_deliver_def
    by (rule delivers [where req = ex_req and sn = 1])
      (use disp in \<open>simp_all add: MakeNetwork_def, simp_all add: ex_req_def\<close>)
  with st show ?thesis by blast
qed

section \<open>Statistics and names\<close>

fun is_submit :: "('n, 't) net_event \<Rightarrow> bool" where
  "is_submit (NeSubmit req) = True"
| "is_submit _ = False"

lemma nt_count_step:
  assumes "net_step dec enc ev st = Some st'"
  shows "nt_count (ns_net st') = nt_count (ns_net st) + (if is_submit ev then 1 else 0)"
  using assms
  by (cases ev) (auto elim!: update_thread_Some simp: net_step_def submit_step_def dispatch_step_def send_step_def
      admin_def admin_fail_def Reliable_def LongReordering_def LongDelays_def MakeEnd_def DeleteEnd_def AddServer_def
      DeleteServer_def Connect_def Enable_def Cleanup_def map_sum_def Let_def
      split: if_splits bind_splits handler.splits sum.splits prod.splits req_pc.splits)

lemma nt_count_run:
  "net_run dec enc evs st = Some st' \<Longrightarrow>
    nt_count (ns_net st') = nt_count (ns_net st) + of_nat (length (filter is_submit evs))"
proof (induction evs arbitrary: st)
  case (Cons ev evs)
  then obtain st1 where "net_step dec enc ev st = Some st1" "net_run dec enc evs st1 = Some st'"
    by (auto split: bind_splits)
  with Cons.IH nt_count_step show ?case by fastforce
qed simp

text \<open>
  \<open>GetTotalCount\<close> counts the requests that the network has accepted, in 32-bit two's
  complement: it is the number of accepted requests as long as there are fewer than \<open>2 ^ 31\<close> of them, and the
  next one makes it negative.
\<close>

theorem GetTotalCount_wraps:
  assumes "net_run dec enc evs (net_init store w) = Some st"
  shows "GetTotalCount (ns_net st) = signed_take_bit 31 (int (length (filter is_submit evs)))"
  using nt_count_run [OF assms]
  by (simp add: GetTotalCount_def net_init_def MakeNetwork_def signed_of_nat)

theorem GetTotalCount_wraps_witness:
  "\<exists>st. net_run ex_dec ex_enc ex_setup ex_start = Some st \<and> GetTotalCount (ns_net st) = 1"
proof -
  have "net_run ex_dec ex_enc ex_setup ex_start \<noteq> None" by code_simp
  then obtain st where st: "net_run ex_dec ex_enc ex_setup ex_start = Some st" by blast
  moreover have "length (filter is_submit ex_setup) = 1" by code_simp
  ultimately show ?thesis using GetTotalCount_wraps [OF st] by simp
qed

lemma LastIndex_from_none: "c \<notin> set s \<Longrightarrow> LastIndex_from found i s c = found"
  by (induction s arbitrary: i) auto

lemma LastIndex_from_append:
  "LastIndex_from found i (s @ c # t) c = LastIndex_from (i + int (length s)) (i + int (length s) + 1) t c"
  by (induction s arbitrary: found i) (auto simp: ac_simps)

text \<open>
  \<open>Server.dispatch\<close> splits a name at its last dot: the service and the method of any
  \<open>Service.Method\<close> are recovered, also when the name of the service contains dots, and a name without a dot
  makes the slice expression panic.
\<close>

theorem split_svcMeth_roundtrip:
  assumes "CHR ''.'' \<notin> set methodName"
  shows "split_svcMeth (serviceName @ ''.'' @ methodName) = Some (serviceName, methodName) \<and>
     split_svcMeth methodName = None"
  using assms LastIndex_from_append [of "-1" 0 serviceName "CHR ''.''" methodName]
  by (simp add: split_svcMeth_def LastIndex_def LastIndex_from_none nat_add_distrib)

theorem split_svcMeth_roundtrip_witness:
  "split_svcMeth ''Raft.AppendEntries'' = Some (''Raft'', ''AppendEntries'')"
  using split_svcMeth_roundtrip [of "''AppendEntries''" "''Raft''"] by simp

end
