(* ===== verification/Labgob.thy ===== *)
theory Labgob
  imports Lab_Prelude
begin

text \<open>
  \<open>labgob/labgob.go\<close>: the checks that the wrapper around \<open>encoding/gob\<close> makes. The encoding itself is a
  library and is not modelled here.

  Types are identified by names and described by a table, because Go types can be recursive; the
  recursion of \<open>checkType\<close> through the fields of a type is an explicit list of what is still to be
  visited, in the order in which the calls visit it. The state is \<open>checked\<close>, \<open>errorCount\<close> and the lines
  printed. Whether the first rune of a name is upper case is the parameter \<open>upper\<close>.

  The theory shows that \<open>checkType\<close> terminates on recursive types, complains about each field of each
  reachable type once, and complains about nothing a second time.
\<close>

section \<open>checkType\<close>

datatype 'k type_desc =
    TStruct "(string \<times> 'k) list"
  | TElem 'k
  | TMap 'k 'k
  | TOther

type_synonym 'k type_table = "('k \<times> 'k type_desc) list"

definition type_of :: "'k type_table \<Rightarrow> 'k \<Rightarrow> 'k type_desc" where
  "type_of tab t = (case map_of tab t of Some d \<Rightarrow> d | None \<Rightarrow> TOther)"

record 'k gob =
  gb_checked :: "'k list"
  gb_errorCount :: nat
  gb_printed :: "string list"

datatype 'k pending = PType 'k | PField string

text \<open>What the cases of the \<open>switch\<close> visit, in order.\<close>

fun visits :: "'k type_desc \<Rightarrow> 'k pending list" where
  "visits (TStruct fs) = concat (map (\<lambda>(name, t). [PField name, PType t]) fs)"
| "visits (TElem t) = [PType t]"
| "visits (TMap k e) = [PType e, PType k]"
| "visits TOther = []"

definition check_field :: "(string \<Rightarrow> bool) \<Rightarrow> string \<Rightarrow> 'k gob \<Rightarrow> 'k gob" where
  "check_field upper name g =
     (if \<not> upper name
      then g\<lparr>gb_errorCount := gb_errorCount g + 1, gb_printed := gb_printed g @ [name]\<rparr> else g)"

definition open_types :: "'k type_table \<Rightarrow> 'k gob \<Rightarrow> 'k set" where
  "open_types tab g = fst ` set tab - set (gb_checked g)"

lemma open_types_check_field [simp]: "open_types tab (check_field upper name g) = open_types tab g"
  by (simp add: open_types_def check_field_def)

lemma type_of_unknown: "t \<notin> fst ` set tab \<Longrightarrow> type_of tab t = TOther"
  by (simp add: type_of_def map_of_eq_None_iff [THEN iffD2])

function checkTypes :: "(string \<Rightarrow> bool) \<Rightarrow> 'k type_table \<Rightarrow> 'k pending list \<Rightarrow> 'k gob \<Rightarrow> 'k gob" where
  "checkTypes upper tab [] g = g"
| "checkTypes upper tab (PField name # ps) g = checkTypes upper tab ps (check_field upper name g)"
| "checkTypes upper tab (PType t # ps) g =
     (if t \<in> set (gb_checked g) then checkTypes upper tab ps g
      else checkTypes upper tab (visits (type_of tab t) @ ps) (g\<lparr>gb_checked := t # gb_checked g\<rparr>))"
  by pat_completeness auto

termination
proof (relation "measures [\<lambda>(upper, tab, ps, g). card (open_types tab g), \<lambda>(upper, tab, ps, g). length ps]")
  fix upper :: "string \<Rightarrow> bool" and tab t ps and g :: "'k gob"
  assume new: "t \<notin> set (gb_checked g)"
  let ?g = "g\<lparr>gb_checked := t # gb_checked g\<rparr>"
  have fin: "finite (open_types tab g)" by (simp add: open_types_def)
  show "((upper, tab, visits (type_of tab t) @ ps, ?g), upper, tab, PType t # ps, g)
    \<in> measures [\<lambda>(upper, tab, ps, g). card (open_types tab g), \<lambda>(upper, tab, ps, g). length ps]"
  proof (cases "t \<in> fst ` set tab")
    case True
    then have "open_types tab ?g \<subset> open_types tab g" using new by (auto simp: open_types_def)
    with fin show ?thesis by (simp add: psubset_card_mono)
  next
    case False
    then have "open_types tab ?g = open_types tab g" by (auto simp: open_types_def)
    with False show ?thesis by (simp add: type_of_unknown)
  qed
qed simp_all

definition checkType :: "(string \<Rightarrow> bool) \<Rightarrow> 'k type_table \<Rightarrow> 'k \<Rightarrow> 'k gob \<Rightarrow> 'k gob" where
  "checkType upper tab t g = checkTypes upper tab [PType t] g"

section \<open>checkDefault\<close>

text \<open>
  A value as reflection shows it: a struct with its fields, a pointer, a basic value with the name of its
  type and whether it differs from the zero value, or a value of another kind.
\<close>

datatype go_value =
    VStruct "(string \<times> go_value) list"
  | VPtr "go_value option"
  | VBasic string bool
  | VOther

definition note_default :: "string \<Rightarrow> 'k gob \<Rightarrow> 'k gob" where
  "note_default what g =
     (let g' = (if gb_errorCount g < 1 then g\<lparr>gb_printed := gb_printed g @ [what]\<rparr> else g)
      in g'\<lparr>gb_errorCount := gb_errorCount g' + 1\<rparr>)"

fun checkDefault1 :: "go_value \<Rightarrow> nat \<Rightarrow> string \<Rightarrow> 'k gob \<Rightarrow> 'k gob"
  and checkDefaultFields :: "(string \<times> go_value) list \<Rightarrow> nat \<Rightarrow> string \<Rightarrow> 'k gob \<Rightarrow> 'k gob" where
  "checkDefault1 (VStruct fs) depth name g = (if depth > 3 then g else checkDefaultFields fs depth name g)"
| "checkDefault1 (VPtr None) depth name g = g"
| "checkDefault1 (VPtr (Some v)) depth name g = (if depth > 3 then g else checkDefault1 v (depth + 1) name g)"
| "checkDefault1 (VBasic ty nondefault) depth name g =
     (if depth > 3 \<or> \<not> nondefault then g else note_default (if name = [] then ty else name) g)"
| "checkDefault1 VOther depth name g = g"
| "checkDefaultFields [] depth name g = g"
| "checkDefaultFields ((f, v) # fs) depth name g =
     (let name1 = (if name \<noteq> [] then name @ ''.'' @ f else f)
      in checkDefaultFields fs depth name (checkDefault1 v (depth + 1) name1 g))"

definition checkDefault :: "go_value option \<Rightarrow> 'k gob \<Rightarrow> 'k gob" where
  "checkDefault value g = (case value of None \<Rightarrow> g | Some v \<Rightarrow> checkDefault1 v 1 [] g)"

section \<open>The wrapper\<close>

text \<open>
  The operations of the wrapper on a value with its type; \<open>lib\<close> is what \<open>encoding/gob\<close> does afterwards.
\<close>

definition LabEncode :: "(string \<Rightarrow> bool) \<Rightarrow> 'k type_table \<Rightarrow> ('v \<Rightarrow> 'r) \<Rightarrow> 'k \<Rightarrow> 'v \<Rightarrow> 'k gob \<Rightarrow> 'k gob \<times> 'r" where
  "LabEncode upper tab lib t e g = (checkType upper tab t g, lib e)"

definition LabDecode ::
  "(string \<Rightarrow> bool) \<Rightarrow> 'k type_table \<Rightarrow> ('v \<Rightarrow> 'r) \<Rightarrow> 'k \<Rightarrow> go_value option \<Rightarrow> 'v \<Rightarrow> 'k gob \<Rightarrow> 'k gob \<times> 'r" where
  "LabDecode upper tab lib t shown e g = (checkDefault shown (checkType upper tab t g), lib e)"

definition LabRegister :: "(string \<Rightarrow> bool) \<Rightarrow> 'k type_table \<Rightarrow> 'k \<Rightarrow> 'k gob \<Rightarrow> 'k gob" where
  "LabRegister upper tab t g = checkType upper tab t g"

section \<open>Every reachable type is checked once\<close>

definition succs :: "'k type_table \<Rightarrow> ('k \<times> 'k) set" where
  "succs tab = {(t, u). PType u \<in> set (visits (type_of tab t))}"

text \<open>The complaints that a list of visits, or the fields of a type, give rise to.\<close>

definition complaints :: "(string \<Rightarrow> bool) \<Rightarrow> 'k pending list \<Rightarrow> nat" where
  "complaints upper ps = length (filter (\<lambda>p. case p of PField name \<Rightarrow> \<not> upper name | PType t \<Rightarrow> False) ps)"

lemma complaints_simps [simp]:
  "complaints upper [] = 0" "complaints upper (PType t # ps) = complaints upper ps"
  "complaints upper (PField name # ps) = (if upper name then 0 else 1) + complaints upper ps"
  "complaints upper (ps @ qs) = complaints upper ps + complaints upper qs"
  by (simp_all add: complaints_def)

lemma gb_checked_check_field [simp]: "gb_checked (check_field upper name g) = gb_checked g"
  by (simp add: check_field_def)

lemma checkTypes_mono: "set (gb_checked g) \<subseteq> set (gb_checked (checkTypes upper tab ps g))"
proof (induction upper tab ps g rule: checkTypes.induct)
  case (3 upper tab t ps g)
  then show ?case by (cases "t \<in> set (gb_checked g)") auto
qed simp_all

lemma checkTypes_errors:
  assumes "distinct (gb_checked g)"
  shows "distinct (gb_checked (checkTypes upper tab ps g)) \<and>
     gb_errorCount (checkTypes upper tab ps g) = gb_errorCount g + complaints upper ps +
       (\<Sum>t \<in> set (gb_checked (checkTypes upper tab ps g)) - set (gb_checked g). complaints upper (visits (type_of tab t)))"
  using assms
proof (induction upper tab ps g rule: checkTypes.induct)
  case (2 upper tab name ps g)
  then show ?case by (simp add: check_field_def)
next
  case (3 upper tab t ps g)
  show ?case
  proof (cases "t \<in> set (gb_checked g)")
    case True
    with 3 show ?thesis by simp
  next
    case False
    let ?g = "g\<lparr>gb_checked := t # gb_checked g\<rparr>"
    let ?c = "set (gb_checked (checkTypes upper tab (visits (type_of tab t) @ ps) ?g))"
    have "insert t (set (gb_checked g)) \<subseteq> ?c" using checkTypes_mono [of ?g] by simp
    then have eq: "?c - set (gb_checked g) = insert t (?c - insert t (set (gb_checked g)))" using False by auto
    have "(\<Sum>u \<in> ?c - set (gb_checked g). complaints upper (visits (type_of tab u))) =
        complaints upper (visits (type_of tab t)) +
        (\<Sum>u \<in> ?c - insert t (set (gb_checked g)). complaints upper (visits (type_of tab u)))"
      unfolding eq by (rule sum.insert) auto
    with "3.IH"(2) [OF False] "3.prems" False show ?thesis by simp
  qed
qed simp

text \<open>The checked types are closed under the types that they visit, and reachable.\<close>

lemma checkTypes_closed:
  assumes "\<forall>t \<in> set (gb_checked g). \<forall>u. (t, u) \<in> succs tab \<longrightarrow> u \<in> set (gb_checked g) \<or> PType u \<in> set ps"
  shows "(\<forall>t \<in> set (gb_checked (checkTypes upper tab ps g)). \<forall>u. (t, u) \<in> succs tab \<longrightarrow>
       u \<in> set (gb_checked (checkTypes upper tab ps g))) \<and>
     (\<forall>t. PType t \<in> set ps \<longrightarrow> t \<in> set (gb_checked (checkTypes upper tab ps g)))"
  using assms
proof (induction upper tab ps g rule: checkTypes.induct)
  case (3 upper tab t ps g)
  show ?case
  proof (cases "t \<in> set (gb_checked g)")
    case True
    then have "\<forall>v \<in> set (gb_checked g). \<forall>u. (v, u) \<in> succs tab \<longrightarrow> u \<in> set (gb_checked g) \<or> PType u \<in> set ps"
      using "3.prems" by auto
    from "3.IH"(1) [OF True this] True checkTypes_mono [of g upper tab ps] show ?thesis by auto
  next
    case False
    let ?g = "g\<lparr>gb_checked := t # gb_checked g\<rparr>"
    have "t \<in> set (gb_checked (checkTypes upper tab (visits (type_of tab t) @ ps) ?g))"
      using checkTypes_mono [of ?g] by auto
    with "3.IH"(2) [OF False] "3.prems" False show ?thesis by (auto simp: succs_def)
  qed
qed fastforce+

lemma checkTypes_reachable:
  "set (gb_checked (checkTypes upper tab ps g)) \<subseteq>
     set (gb_checked g) \<union> {u. \<exists>t. PType t \<in> set ps \<and> (t, u) \<in> (succs tab)\<^sup>*}"
proof (induction upper tab ps g rule: checkTypes.induct)
  case (3 upper tab t ps g)
  show ?case
  proof (cases "t \<in> set (gb_checked g)")
    case True
    with "3.IH"(1) show ?thesis by auto
  next
    case False
    have "(t, u) \<in> (succs tab)\<^sup>*" if "PType v \<in> set (visits (type_of tab t))" "(v, u) \<in> (succs tab)\<^sup>*" for u v
      using that by (auto simp: succs_def intro: converse_rtrancl_into_rtrancl)
    then have "{u. \<exists>v. PType v \<in> set (visits (type_of tab t) @ ps) \<and> (v, u) \<in> (succs tab)\<^sup>*} \<subseteq>
        {u. \<exists>v. PType v \<in> set (PType t # ps) \<and> (v, u) \<in> (succs tab)\<^sup>*}"
      unfolding set_append by (auto 0 3)
    moreover have "t \<in> {u. \<exists>v. PType v \<in> set (PType t # ps) \<and> (v, u) \<in> (succs tab)\<^sup>*}" by auto
    moreover have "set (gb_checked (checkTypes upper tab (PType t # ps) g)) \<subseteq> insert t (set (gb_checked g)) \<union>
        {u. \<exists>v. PType v \<in> set (visits (type_of tab t) @ ps) \<and> (v, u) \<in> (succs tab)\<^sup>*}"
      using "3.IH"(2) [OF False] False by simp
    ultimately show ?thesis by blast
  qed
qed auto

lemma checkType_checked:
  assumes "gb_checked g = []"
  shows "set (gb_checked (checkType upper tab t g)) = {u. (t, u) \<in> (succs tab)\<^sup>*}"
proof
  let ?c = "set (gb_checked (checkType upper tab t g))"
  show "?c \<subseteq> {u. (t, u) \<in> (succs tab)\<^sup>*}"
    using checkTypes_reachable [of upper tab "[PType t]" g] assms by (auto simp: checkType_def)
  have closed: "\<forall>t \<in> ?c. \<forall>u. (t, u) \<in> succs tab \<longrightarrow> u \<in> ?c" and t: "t \<in> ?c"
    using checkTypes_closed [of g tab "[PType t]" upper] assms by (auto simp: checkType_def)
  have "u \<in> ?c" if "(t, u) \<in> (succs tab)\<^sup>*" for u
    using that by (induction rule: rtrancl_induct) (use closed t in auto)
  then show "{u. (t, u) \<in> (succs tab)\<^sup>*} \<subseteq> ?c" by blast
qed


definition ascii_upper :: "string \<Rightarrow> bool" where
  "ascii_upper name = (case name of [] \<Rightarrow> False | c # cs \<Rightarrow> (65 :: nat) \<le> of_char c \<and> of_char c \<le> (90 :: nat))"

definition ex_table :: "nat type_table" where
  "ex_table = [(1, TStruct [(''Key'', 0), (''val'', 0), (''Next'', 2)]), (2, TElem 1)]"

definition ex_gob :: "nat gob" where
  "ex_gob = \<lparr>gb_checked = [], gb_errorCount = 0, gb_printed = []\<rparr>"


section \<open>What checkDefault warns about\<close>

text \<open>The basic values inside a value, with their depth and whether they are not the default.\<close>

fun leaves :: "go_value \<Rightarrow> nat \<Rightarrow> (nat \<times> bool) list"
  and field_leaves :: "(string \<times> go_value) list \<Rightarrow> nat \<Rightarrow> (nat \<times> bool) list" where
  "leaves (VStruct fs) d = field_leaves fs d"
| "leaves (VPtr None) d = []"
| "leaves (VPtr (Some v)) d = leaves v (d + 1)"
| "leaves (VBasic ty nondefault) d = [(d, nondefault)]"
| "leaves VOther d = []"
| "field_leaves [] d = []"
| "field_leaves ((f, v) # fs) d = leaves v (d + 1) @ field_leaves fs d"

definition shallow_nondefault :: "(nat \<times> bool) list \<Rightarrow> nat" where
  "shallow_nondefault ls = length (filter (\<lambda>(d, nondefault). d \<le> 3 \<and> nondefault) ls)"

lemma leaves_deep:
  "(d, b) \<in> set (leaves v k) \<Longrightarrow> k \<le> d" "(d, b) \<in> set (field_leaves fs k) \<Longrightarrow> k \<le> d"
  by (induction v k and fs k rule: leaves_field_leaves.induct) auto

lemma shallow_nondefault_deep:
  "3 < k \<Longrightarrow> shallow_nondefault (leaves v k) = 0" "3 < k \<Longrightarrow> shallow_nondefault (field_leaves fs k) = 0"
  using leaves_deep by (force simp: shallow_nondefault_def filter_empty_conv)+

lemma shallow_nondefault_append [simp]:
  "shallow_nondefault (xs @ ys) = shallow_nondefault xs + shallow_nondefault ys"
  by (simp add: shallow_nondefault_def)

lemma note_default_count [simp]: "gb_errorCount (note_default what g) = gb_errorCount g + 1"
  by (simp add: note_default_def Let_def)

lemma checkDefault1_count:
  "gb_errorCount (checkDefault1 v depth name g) = gb_errorCount g + shallow_nondefault (leaves v depth)"
  "gb_errorCount (checkDefaultFields fs depth name g) = gb_errorCount g + shallow_nondefault (field_leaves fs depth)"
proof (induction v depth name g and fs depth name g rule: checkDefault1_checkDefaultFields.induct)
  case (1 fs depth name g)
  then show ?case by (simp add: shallow_nondefault_deep)
next
  case (3 v depth name g)
  then show ?case by (simp add: shallow_nondefault_deep)
qed (simp_all add: shallow_nondefault_def Let_def)

lemma checkDefault1_silent:
  "shallow_nondefault (leaves v depth) = 0 \<Longrightarrow> checkDefault1 v depth name g = g"
  "shallow_nondefault (field_leaves fs depth) = 0 \<Longrightarrow> checkDefaultFields fs depth name g = g"
  by (induction v depth name g and fs depth name g rule: checkDefault1_checkDefaultFields.induct)
    (auto simp: Let_def shallow_nondefault_def split: if_splits)

lemma checkDefault1_printed:
  "length (gb_printed (checkDefault1 v depth name g)) \<le> length (gb_printed g) + (if gb_errorCount g = 0 then 1 else 0)"
  "length (gb_printed (checkDefaultFields fs depth name g)) \<le>
     length (gb_printed g) + (if gb_errorCount g = 0 then 1 else 0)"
proof (induction v depth name g and fs depth name g rule: checkDefault1_checkDefaultFields.induct)
  case (7 f v fs depth name g)
  let ?n = "if name \<noteq> [] then name @ ''.'' @ f else f"
  let ?g = "checkDefault1 v (depth + 1) ?n g"
  have count: "gb_errorCount ?g = gb_errorCount g + shallow_nondefault (leaves v (depth + 1))"
    by (rule checkDefault1_count)
  then have "gb_errorCount ?g = 0 \<Longrightarrow> gb_printed ?g = gb_printed g"
    by (simp add: checkDefault1_silent del: One_nat_def)
  then show ?case using 7 count by (auto simp: Let_def split: if_splits)
qed (auto simp: note_default_def Let_def)

text \<open>
  \<open>checkDefault\<close> counts exactly the basic values that differ from their zero value, down to the third
  level of structs and pointers, and prints at most one warning, none if there was an error before.
  Deeper values are not looked at.
\<close>

theorem checkDefault_counts:
  "gb_errorCount (checkDefault (Some v) g) = gb_errorCount g + shallow_nondefault (leaves v 1) \<and>
   length (gb_printed (checkDefault (Some v) g)) \<le> length (gb_printed g) + (if gb_errorCount g = 0 then 1 else 0)"
  unfolding checkDefault_def option.case by (rule conjI [OF checkDefault1_count(1) checkDefault1_printed(1)])

end
