(* ===== verification/Raft_Peer.thy ===== *)
theory Raft_Peer
  imports Labrpc
begin

text \<open>
  \<open>raft/persister.go\<close> and \<open>raft/raft.go\<close>: the stable storage of a server and the Raft peer. The peer is the
  skeleton that the repository has: its consensus functions are empty, and the model says what they do.

  Persisters are shared between the tester and the peers, old ones included, so they live in a store. The
  interface of stable storage is the locale \<open>stable_storage\<close>; its lemmas say what survives a crash.
\<close>

section \<open>Persister\<close>

record Persister =
  pr_raftstate :: bytes
  pr_snapshot :: bytes

definition MakePersister :: Persister where
  "MakePersister = \<lparr>pr_raftstate = [], pr_snapshot = []\<rparr>"

definition clone :: "bytes \<Rightarrow> bytes" where
  "clone orig = (let x = replicate (length orig) 0 in go_copy x orig)"

definition Persister_Copy :: "Persister \<Rightarrow> Persister" where
  "Persister_Copy ps = MakePersister\<lparr>pr_raftstate := pr_raftstate ps, pr_snapshot := pr_snapshot ps\<rparr>"

definition ReadRaftState :: "Persister \<Rightarrow> bytes" where
  "ReadRaftState ps = clone (pr_raftstate ps)"

definition RaftStateSize :: "Persister \<Rightarrow> nat" where
  "RaftStateSize ps = length (pr_raftstate ps)"

definition Save :: "bytes \<Rightarrow> bytes \<Rightarrow> Persister \<Rightarrow> Persister" where
  "Save raftstate snapshot ps = ps\<lparr>pr_raftstate := clone raftstate, pr_snapshot := clone snapshot\<rparr>"

definition ReadSnapshot :: "Persister \<Rightarrow> bytes" where
  "ReadSnapshot ps = clone (pr_snapshot ps)"

definition SnapshotSize :: "Persister \<Rightarrow> nat" where
  "SnapshotSize ps = length (pr_snapshot ps)"

lemma clone_id [simp]: "clone orig = orig"
  by (simp add: clone_def go_copy_all)

text \<open>The contract of stable storage: what is read is what was saved last, and a copy reads the same.\<close>

locale stable_storage =
  fixes fresh :: 'p
    and save :: "'b \<Rightarrow> 'b \<Rightarrow> 'p \<Rightarrow> 'p"
    and state :: "'p \<Rightarrow> 'b"
    and snap :: "'p \<Rightarrow> 'b"
    and copy :: "'p \<Rightarrow> 'p"
  assumes state_save: "state (save s t p) = s"
    and snap_save: "snap (save s t p) = t"
    and state_copy: "state (copy p) = state p"
    and snap_copy: "snap (copy p) = snap p"
begin

text \<open>The content after any sequence of saves is that of the last one.\<close>

lemma state_saves: "state (fold (\<lambda>(s, t). save s t) sts p) = (if sts = [] then state p else fst (last sts))"
  by (induction sts arbitrary: p) (auto simp: state_save)

lemma snap_saves: "snap (fold (\<lambda>(s, t). save s t) sts p) = (if sts = [] then snap p else snd (last sts))"
  by (induction sts arbitrary: p) (auto simp: snap_save)

text \<open>Handing the content over to a fresh storage.\<close>

lemma handover: "state (save (state (copy p)) (snap (copy p)) fresh) = state p"
  "snap (save (state (copy p)) (snap (copy p)) fresh) = snap p"
  by (simp_all add: state_save snap_save state_copy snap_copy)

end

interpretation persister: stable_storage MakePersister Save ReadRaftState ReadSnapshot Persister_Copy
  by unfold_locales (simp_all add: Save_def ReadRaftState_def ReadSnapshot_def Persister_Copy_def)

section \<open>The Raft peer\<close>

record 'c ApplyMsg =
  am_CommandValid :: bool
  am_Command :: 'c
  am_CommandIndex :: int
  am_SnapshotValid :: bool
  am_Snapshot :: "bytes option"
  am_SnapshotTerm :: int
  am_SnapshotIndex :: int

record 'n Raft =
  rf_peers :: "'n ClientEnd list"
  rf_persister :: nat
  rf_me :: nat
  rf_dead :: "32 word"

definition GetState :: "'n Raft \<Rightarrow> int \<times> bool" where
  "GetState rf = (0, False)"

definition persist :: "'n Raft \<Rightarrow> 'n Raft" where
  "persist rf = rf"

definition readPersist :: "bytes \<Rightarrow> 'n Raft \<Rightarrow> 'n Raft" where
  "readPersist data rf = (if length data < 1 then rf else rf)"

definition Raft_Snapshot :: "int \<Rightarrow> bytes \<Rightarrow> 'n Raft \<Rightarrow> 'n Raft" where
  "Raft_Snapshot index snapshot rf = rf"

definition Start :: "'c \<Rightarrow> 'n Raft \<Rightarrow> 'n Raft \<times> int \<times> int \<times> bool" where
  "Start command rf = (rf, -1, -1, True)"

definition Kill :: "'n Raft \<Rightarrow> 'n Raft" where
  "Kill rf = rf\<lparr>rf_dead := 1\<rparr>"

definition killed :: "'n Raft \<Rightarrow> bool" where
  "killed rf \<longleftrightarrow> rf_dead rf = 1"

text \<open>
  The loop of \<open>ticker\<close>: \<open>dead t\<close> is what its \<open>t\<close>-th call of \<open>killed\<close> returns; the value is the number of
  pauses, and \<open>None\<close> is a loop that never ends.
\<close>

partial_function (option) ticker :: "(nat \<Rightarrow> bool) \<Rightarrow> nat \<Rightarrow> nat option" where
  "ticker dead t = (if \<not> dead t then ticker dead (t + 1) else Some t)"

declare ticker.simps [code]

text \<open>The messages of the vote have no fields yet, and the handler does nothing.\<close>

datatype RequestVoteArgs = RequestVoteArgs

datatype RequestVoteReply = RequestVoteReply

definition RequestVote :: "'n Raft \<Rightarrow> RequestVoteArgs \<Rightarrow> RequestVoteReply \<Rightarrow> 'n Raft \<times> RequestVoteReply" where
  "RequestVote rf args reply = (rf, reply)"

definition sendRequestVote ::
  "('a \<Rightarrow> bytes option) \<Rightarrow> 't \<Rightarrow> 'n Raft \<Rightarrow> nat \<Rightarrow> 'a \<Rightarrow> go_error + ('n, 't) reqMsg" where
  "sendRequestVote encode argsType rf server args =
     (case slice_get (rf_peers rf) server of
        None \<Rightarrow> Inl GoPanic
      | Some e \<Rightarrow> Call_request encode e ''Raft.RequestVote'' argsType args)"

definition Make :: "Persister list \<Rightarrow> 'n ClientEnd list \<Rightarrow> nat \<Rightarrow> nat \<Rightarrow> 'n Raft option" where
  "Make store peers me persister = do {
     ps \<leftarrow> slice_get store persister;
     let rf = \<lparr>rf_peers = peers, rf_persister = persister, rf_me = me, rf_dead = 0\<rparr>;
     Some (readPersist (ReadRaftState ps) rf)
   }"

section \<open>Properties\<close>

text \<open>
  The loop of \<open>ticker\<close> ends with the first reading that finds the peer killed, after as many pauses as
  readings before it.
\<close>

theorem ticker_stops:
  assumes "dead t" and "\<forall>j < t. \<not> dead j"
  shows "ticker dead 0 = Some t"
proof -
  have "ticker dead j = Some t" if "j \<le> t" for j
    using that
  proof (induction "t - j" arbitrary: j)
    case 0
    then show ?case using assms(1) by (simp add: ticker.simps)
  next
    case (Suc k)
    then have "j < t" by simp
    with assms(2) Suc show ?case by (subst ticker.simps) simp
  qed
  then show ?thesis by simp
qed

theorem ticker_stops_witness: "ticker (\<lambda>t. 3 \<le> t) 0 = Some 3"
  by (rule ticker_stops) auto

end
