(* ===== verification/Raft_Tester.thy ===== *)
theory Raft_Tester
  imports Raft_Peer
begin

text \<open>
  The checks of the Raft tester in \<open>raft/config.go\<close>: \<open>checkLogs\<close> and the appliers, which watch what the
  servers commit, snapshots, \<open>nCommitted\<close>, \<open>wait\<close>, \<open>one\<close> and the checks on leaders and terms.

  The log that the tester keeps of a server is a map from indices to commands; \<open>nilc\<close> is the nil
  command. An error message is a value of \<open>apply_err\<close>. What \<open>GetState\<close> and \<open>Start\<close> return, and when the
  clock runs out, are arguments of the functions that ask for them. Failing a test, \<open>log.Fatalf\<close> and panics are
  values of \<open>go_error\<close>.

  The theory shows that a run of the appliers without an error keeps the logs of all servers in agreement and
  without gaps, that servers which apply a common log in order are never accused, and that a snapshot
  written by the tester restores the log it was taken from.
\<close>

section \<open>The logs of the servers\<close>

datatype apply_err = NoErr | CommitMismatch int nat nat | OutOfOrder nat int | SnapshotMismatch nat

record 'c logs_state =
  lg_logs :: "(int \<rightharpoonup> 'c) list"
  lg_lastApplied :: "int list"
  lg_applyErr :: "string list"
  lg_maxIndex :: int

primrec checkLogs_loop :: "nat \<Rightarrow> 'c ApplyMsg \<Rightarrow> nat \<Rightarrow> (int \<rightharpoonup> 'c) list \<Rightarrow> apply_err \<Rightarrow> apply_err" where
  "checkLogs_loop i m j [] err_msg = err_msg"
| "checkLogs_loop i m j (l # logs) err_msg =
     (case l (am_CommandIndex m) of
        Some old \<Rightarrow>
          if old \<noteq> am_Command m then checkLogs_loop i m (j + 1) logs (CommitMismatch (am_CommandIndex m) i j)
          else checkLogs_loop i m (j + 1) logs err_msg
      | None \<Rightarrow> checkLogs_loop i m (j + 1) logs err_msg)"

definition checkLogs :: "nat \<Rightarrow> 'c ApplyMsg \<Rightarrow> 'c logs_state \<Rightarrow> (apply_err \<times> bool \<times> 'c logs_state) option" where
  "checkLogs i m cfg = do {
     let err_msg = checkLogs_loop i m 0 (lg_logs cfg) NoErr;
     l \<leftarrow> slice_get (lg_logs cfg) i;
     let prevok = (l (am_CommandIndex m - 1) \<noteq> None);
     Some (err_msg, prevok,
       cfg\<lparr>lg_logs := (lg_logs cfg)[i := l(am_CommandIndex m \<mapsto> am_Command m)],
           lg_maxIndex := (if am_CommandIndex m > lg_maxIndex cfg then am_CommandIndex m else lg_maxIndex cfg)\<rparr>)
   }"

text \<open>One round of the loop of \<open>applier\<close>; after \<open>log.Fatalf\<close> nothing more happens.\<close>

definition applier1 :: "nat \<Rightarrow> 'c ApplyMsg \<Rightarrow> 'c logs_state \<Rightarrow> go_error + 'c logs_state" where
  "applier1 i m cfg =
     (if \<not> am_CommandValid m then Inr cfg
      else case checkLogs i m cfg of
        None \<Rightarrow> Inl GoPanic
      | Some (err_msg, prevok, cfg') \<Rightarrow>
          (let err_msg' = (if am_CommandIndex m > 1 \<and> \<not> prevok then OutOfOrder i (am_CommandIndex m) else err_msg)
           in if err_msg' \<noteq> NoErr then Inl LogFatal else Inr cfg'))"

text \<open>The appliers of all servers, in the order in which they take the lock.\<close>

primrec appliers :: "(nat \<times> 'c ApplyMsg) list \<Rightarrow> 'c logs_state \<Rightarrow> go_error + 'c logs_state" where
  "appliers [] cfg = Inr cfg"
| "appliers (e # es) cfg =
     (case applier1 (fst e) (snd e) cfg of Inl err \<Rightarrow> Inl err | Inr cfg' \<Rightarrow> appliers es cfg')"

section \<open>Snapshots\<close>

text \<open>The content of a snapshot, decoded by \<open>dec\<close>: the last index and the log from index 0.\<close>

definition log_of_list :: "'c list \<Rightarrow> int \<rightharpoonup> 'c" where
  "log_of_list xlog j = (if 0 \<le> j \<and> j < int (length xlog) then Some (xlog ! nat j) else None)"

definition ingestSnap ::
  "(bytes \<Rightarrow> (int \<times> 'c list) option) \<Rightarrow> nat \<Rightarrow> bytes option \<Rightarrow> int \<Rightarrow> 'c logs_state \<Rightarrow>
   go_error + apply_err \<times> 'c logs_state" where
  "ingestSnap dec i snapshot index cfg =
     (case snapshot of
        None \<Rightarrow> Inl LogFatal
      | Some b \<Rightarrow>
          (case dec b of
             None \<Rightarrow> Inl LogFatal
           | Some (lastIncludedIndex, xlog) \<Rightarrow>
               if index \<noteq> -1 \<and> index \<noteq> lastIncludedIndex then Inr (SnapshotMismatch i, cfg)
               else if \<not> i < length (lg_logs cfg) \<or> \<not> i < length (lg_lastApplied cfg) then Inl GoPanic
               else Inr (NoErr, cfg\<lparr>lg_logs := (lg_logs cfg)[i := log_of_list xlog],
                                   lg_lastApplied := (lg_lastApplied cfg)[i := lastIncludedIndex]\<rparr>)))"

definition SnapShotInterval :: int where
  "SnapShotInterval = 10"

text \<open>The log that goes into the snapshot at index \<open>k\<close>: missing entries are nil.\<close>

definition snapshot_log :: "'c \<Rightarrow> (int \<rightharpoonup> 'c) \<Rightarrow> int \<Rightarrow> 'c list" where
  "snapshot_log nilc l k = map (\<lambda>j. map_read nilc l (int j)) [0..<nat (k + 1)]"

text \<open>
  One round of the loop of \<open>applierSnap\<close>; the second component is the snapshot that is handed to
  \<open>rf.Snapshot\<close>, if any.
\<close>

definition applySnap_command ::
  "'c \<Rightarrow> (int \<times> 'c list \<Rightarrow> bytes) \<Rightarrow> nat \<Rightarrow> 'c ApplyMsg \<Rightarrow> 'c logs_state \<Rightarrow>
   (apply_err \<times> 'c logs_state \<times> (int \<times> bytes) option) option" where
  "applySnap_command nilc enc i m cfg = do {
     la \<leftarrow> slice_get (lg_lastApplied cfg) i;
     (err_msg, cfg1) \<leftarrow>
       (if am_CommandIndex m \<noteq> la + 1 then Some (OutOfOrder i (am_CommandIndex m), cfg)
        else do {
          (err, prevok, cfg1) \<leftarrow> checkLogs i m cfg;
          Some (if am_CommandIndex m > 1 \<and> \<not> prevok then OutOfOrder i (am_CommandIndex m) else err, cfg1)
        });
     lastApplied \<leftarrow> slice_set (lg_lastApplied cfg1) i (am_CommandIndex m);
     let cfg2 = cfg1\<lparr>lg_lastApplied := lastApplied\<rparr>;
     l \<leftarrow> slice_get (lg_logs cfg2) i;
     Some (err_msg, cfg2,
       if (am_CommandIndex m + 1) mod SnapShotInterval = 0
       then Some (am_CommandIndex m, enc (am_CommandIndex m, snapshot_log nilc l (am_CommandIndex m)))
       else None)
   }"

definition applierSnap1 ::
  "'c \<Rightarrow> (int \<times> 'c list \<Rightarrow> bytes) \<Rightarrow> (bytes \<Rightarrow> (int \<times> 'c list) option) \<Rightarrow> nat \<Rightarrow> 'c ApplyMsg \<Rightarrow> 'c logs_state \<Rightarrow>
   go_error + 'c logs_state \<times> (int \<times> bytes) option" where
  "applierSnap1 nilc enc dec i m cfg =
     (if am_SnapshotValid m then
        (case ingestSnap dec i (am_Snapshot m) (am_SnapshotIndex m) cfg of
           Inl e \<Rightarrow> Inl e
         | Inr (err_msg, cfg') \<Rightarrow> if err_msg \<noteq> NoErr then Inl LogFatal else Inr (cfg', None))
      else if am_CommandValid m then
        (case applySnap_command nilc enc i m cfg of
           None \<Rightarrow> Inl GoPanic
         | Some (err_msg, cfg', snap) \<Rightarrow> if err_msg \<noteq> NoErr then Inl LogFatal else Inr (cfg', snap))
      else Inr (cfg, None))"

section \<open>Leaders and terms\<close>

text \<open>
  \<open>obs\<close> lists what \<open>GetState\<close> returns for the servers: \<open>None\<close> for one that is not connected, which is
  not asked. The map from terms to leaders is an association list.
\<close>

fun add_leader :: "int \<Rightarrow> nat \<Rightarrow> (int \<times> nat list) list \<Rightarrow> (int \<times> nat list) list" where
  "add_leader term i [] = [(term, [i])]"
| "add_leader term i ((t, is) # ls) = (if t = term then (t, is @ [i]) # ls else (t, is) # add_leader term i ls)"

fun collect_leaders :: "nat \<Rightarrow> (int \<times> bool) option list \<Rightarrow> (int \<times> nat list) list \<Rightarrow> (int \<times> nat list) list" where
  "collect_leaders i [] leaders = leaders"
| "collect_leaders i (Some (term, leader) # obs) leaders =
     collect_leaders (i + 1) obs (if leader then add_leader term i leaders else leaders)"
| "collect_leaders i (None # obs) leaders = collect_leaders (i + 1) obs leaders"

fun last_term :: "(int \<times> nat list) list \<Rightarrow> int \<Rightarrow> int option" where
  "last_term [] lastTermWithLeader = Some lastTermWithLeader"
| "last_term ((term, is) # leaders) lastTermWithLeader =
     (if length is > 1 then None
      else last_term leaders (if term > lastTermWithLeader then term else lastTermWithLeader))"

fun checkOneLeader_loop :: "(int \<times> bool) option list list \<Rightarrow> go_error + nat" where
  "checkOneLeader_loop [] = Inl TestFatal"
| "checkOneLeader_loop (obs # rounds) =
     (let leaders = collect_leaders 0 obs [] in
      case last_term leaders (-1) of
        None \<Rightarrow> Inl TestFatal
      | Some lastTermWithLeader \<Rightarrow>
          if length leaders \<noteq> 0 then
            (case map_of leaders lastTermWithLeader of
               Some (l # ls) \<Rightarrow> Inr l
             | _ \<Rightarrow> Inl GoPanic)
          else checkOneLeader_loop rounds)"

text \<open>\<open>rounds iters\<close> lists what is observed in round \<open>iters\<close>, after the pause.\<close>

definition checkOneLeader :: "(nat \<Rightarrow> (int \<times> bool) option list) \<Rightarrow> go_error + nat" where
  "checkOneLeader rounds = checkOneLeader_loop (map rounds [0..<10])"

fun checkTerms :: "(int \<times> bool) option list \<Rightarrow> int \<Rightarrow> go_error + int" where
  "checkTerms [] term = Inr term"
| "checkTerms (None # obs) term = checkTerms obs term"
| "checkTerms (Some (xterm, _) # obs) term =
     (if term = -1 then checkTerms obs xterm
      else if term \<noteq> xterm then Inl TestFatal else checkTerms obs term)"

fun checkNoLeader :: "(int \<times> bool) option list \<Rightarrow> go_error + unit" where
  "checkNoLeader [] = Inr ()"
| "checkNoLeader (Some (_, is_leader) # obs) = (if is_leader then Inl TestFatal else checkNoLeader obs)"
| "checkNoLeader (None # obs) = checkNoLeader obs"

section \<open>Agreement\<close>

fun nCommitted_loop :: "int \<Rightarrow> ((int \<rightharpoonup> 'c) \<times> string) list \<Rightarrow> nat \<Rightarrow> 'c \<Rightarrow> go_error + nat \<times> 'c" where
  "nCommitted_loop index [] cnt cmd = Inr (cnt, cmd)"
| "nCommitted_loop index ((l, applyErr) # servers) cnt cmd =
     (if applyErr \<noteq> [] then Inl TestFatal
      else case l index of
        Some cmd1 \<Rightarrow>
          if cnt > 0 \<and> cmd \<noteq> cmd1 then Inl TestFatal
          else nCommitted_loop index servers (cnt + 1) cmd1
      | None \<Rightarrow> nCommitted_loop index servers cnt cmd)"

definition nCommitted :: "'c \<Rightarrow> int \<Rightarrow> 'c logs_state \<Rightarrow> go_error + nat \<times> 'c" where
  "nCommitted nilc index cfg = nCommitted_loop index (zip (lg_logs cfg) (lg_applyErr cfg)) 0 nilc"

text \<open>
  \<open>wait\<close>: \<open>rounds iters\<close> is the state of the logs when round \<open>iters\<close> looks at them and the terms that \<open>GetState\<close>
  returns after its pause, \<open>final\<close> the state of the logs after the loop. \<open>Inr None\<close> is the return value \<open>-1\<close>.
\<close>

fun wait_loop ::
  "'c \<Rightarrow> int \<Rightarrow> nat \<Rightarrow> int \<Rightarrow> ('c logs_state \<times> int list) list \<Rightarrow> go_error + bool" where
  "wait_loop nilc index n startTerm [] = Inr True"
| "wait_loop nilc index n startTerm ((cfg, terms) # rounds) =
     (case nCommitted nilc index cfg of
        Inl e \<Rightarrow> Inl e
      | Inr (nd, _) \<Rightarrow>
          if nd \<ge> n then Inr True
          else if startTerm > -1 \<and> (\<exists>t \<in> set terms. t > startTerm) then Inr False
          else wait_loop nilc index n startTerm rounds)"

definition wait ::
  "'c \<Rightarrow> int \<Rightarrow> nat \<Rightarrow> int \<Rightarrow> (nat \<Rightarrow> 'c logs_state \<times> int list) \<Rightarrow> 'c logs_state \<Rightarrow>
   go_error + 'c option" where
  "wait nilc index n startTerm rounds final =
     (case wait_loop nilc index n startTerm (map rounds [0..<30]) of
        Inl e \<Rightarrow> Inl e
      | Inr False \<Rightarrow> Inr None
      | Inr True \<Rightarrow>
          (case nCommitted nilc index final of
             Inl e \<Rightarrow> Inl e
           | Inr (nd, cmd) \<Rightarrow> if nd < n then Inl TestFatal else Inr (Some cmd)))"

text \<open>
  \<open>one\<close>: \<open>obs\<close> says what \<open>Start\<close> returns for each server in a round, \<open>None\<close> for one that is not connected or not
  running; \<open>polls\<close> are the states of the logs that the round looks at within its two seconds. The list of rounds
  ends when the ten seconds are over or \<open>finished\<close> is seen set. \<open>Inr (-1)\<close> is returned when the test is over.
\<close>

fun try_servers :: "nat \<Rightarrow> nat \<Rightarrow> nat \<Rightarrow> (nat \<Rightarrow> (int \<times> bool) option) \<Rightarrow> nat \<times> int" where
  "try_servers n starts 0 obs = (starts, -1)"
| "try_servers n starts (Suc k) obs =
     (let starts' = (starts + 1) mod n in
      case obs starts' of
        Some (index1, ok) \<Rightarrow> if ok then (starts', index1) else try_servers n starts' k obs
      | None \<Rightarrow> try_servers n starts' k obs)"

fun poll_agreement ::
  "'c \<Rightarrow> 'c \<Rightarrow> int \<Rightarrow> nat \<Rightarrow> 'c logs_state list \<Rightarrow> go_error + bool" where
  "poll_agreement nilc cmd index expectedServers [] = Inr False"
| "poll_agreement nilc cmd index expectedServers (cfg # polls) =
     (case nCommitted nilc index cfg of
        Inl e \<Rightarrow> Inl e
      | Inr (nd, cmd1) \<Rightarrow>
          if nd > 0 \<and> nd \<ge> expectedServers \<and> cmd1 = cmd then Inr True
          else poll_agreement nilc cmd index expectedServers polls)"

fun one_loop ::
  "'c \<Rightarrow> nat \<Rightarrow> 'c \<Rightarrow> nat \<Rightarrow> bool \<Rightarrow> nat \<Rightarrow> ((nat \<Rightarrow> (int \<times> bool) option) \<times> 'c logs_state list) list \<Rightarrow>
   bool \<Rightarrow> go_error + int" where
  "one_loop nilc n cmd expectedServers retry starts [] finished =
     (if \<not> finished then Inl TestFatal else Inr (-1))"
| "one_loop nilc n cmd expectedServers retry starts ((obs, polls) # rounds) finished =
     (case try_servers n starts n obs of
        (starts', index) \<Rightarrow>
          if index \<noteq> -1 then
            (case poll_agreement nilc cmd index expectedServers polls of
               Inl e \<Rightarrow> Inl e
             | Inr True \<Rightarrow> Inr index
             | Inr False \<Rightarrow>
                 if \<not> retry then Inl TestFatal
                 else one_loop nilc n cmd expectedServers retry starts' rounds finished)
          else one_loop nilc n cmd expectedServers retry starts' rounds finished)"

definition one ::
  "'c \<Rightarrow> nat \<Rightarrow> 'c \<Rightarrow> nat \<Rightarrow> bool \<Rightarrow> ((nat \<Rightarrow> (int \<times> bool) option) \<times> 'c logs_state list) list \<Rightarrow> bool \<Rightarrow>
   go_error + int" where
  "one nilc n cmd expectedServers retry rounds finished =
     one_loop nilc n cmd expectedServers retry 0 rounds finished"

section \<open>Logs in agreement\<close>

text \<open>No two servers have different commands at an index, and no log has a gap above index 1.\<close>

definition agree :: "(int \<rightharpoonup> 'c) list \<Rightarrow> bool" where
  "agree logs \<longleftrightarrow> (\<forall>l \<in> set logs. \<forall>l' \<in> set logs. \<forall>k a b. l k = Some a \<longrightarrow> l' k = Some b \<longrightarrow> a = b)"

definition gapless :: "(int \<rightharpoonup> 'c) \<Rightarrow> bool" where
  "gapless l \<longleftrightarrow> (\<forall>k > 1. l k \<noteq> None \<longrightarrow> l (k - 1) \<noteq> None)"

definition logs_ok :: "'c logs_state \<Rightarrow> bool" where
  "logs_ok cfg \<longleftrightarrow> agree (lg_logs cfg) \<and> (\<forall>l \<in> set (lg_logs cfg). gapless l)"

lemma checkLogs_loop_NoErr:
  "checkLogs_loop i m j logs err = NoErr \<longleftrightarrow>
     err = NoErr \<and> (\<forall>l \<in> set logs. \<forall>old. l (am_CommandIndex m) = Some old \<longrightarrow> old = am_Command m)"
  by (induction logs arbitrary: j err) (auto split: option.splits)

lemma applier1_ok:
  assumes "am_CommandValid m"
  shows "applier1 i m cfg = Inr cfg' \<longleftrightarrow>
     i < length (lg_logs cfg) \<and>
     (\<forall>l \<in> set (lg_logs cfg). \<forall>old. l (am_CommandIndex m) = Some old \<longrightarrow> old = am_Command m) \<and>
     (am_CommandIndex m > 1 \<longrightarrow> (lg_logs cfg ! i) (am_CommandIndex m - 1) \<noteq> None) \<and>
     cfg' = cfg\<lparr>lg_logs := (lg_logs cfg)[i := (lg_logs cfg ! i)(am_CommandIndex m \<mapsto> am_Command m)],
       lg_maxIndex := max (am_CommandIndex m) (lg_maxIndex cfg)\<rparr>"
  using assms checkLogs_loop_NoErr [of i m 0 "lg_logs cfg" NoErr]
  by (auto simp: applier1_def checkLogs_def slice_get_def Let_def max_def split: if_splits)

lemma agree_update:
  assumes "agree logs" and "\<forall>l \<in> set logs. \<forall>old. l k = Some old \<longrightarrow> old = v" and "i < length logs"
  shows "agree (logs[i := (logs ! i)(k \<mapsto> v)])"
proof -
  have "\<exists>l0 \<in> set logs. \<forall>j a. l j = Some a \<longrightarrow> l0 j = Some a \<or> j = k \<and> a = v"
    if "l \<in> set (logs[i := (logs ! i)(k \<mapsto> v)])" for l
  proof (cases "l = (logs ! i)(k \<mapsto> v)")
    case True
    with assms(3) show ?thesis by (intro bexI [of _ "logs ! i"]) auto
  next
    case False
    with that set_update_subset_insert [of logs i "(logs ! i)(k \<mapsto> v)"] show ?thesis by blast
  qed
  then show ?thesis using assms(1,2) unfolding agree_def by (metis (no_types, opaque_lifting))
qed

lemma logs_ok_applier1:
  assumes "logs_ok cfg" and "applier1 i m cfg = Inr cfg'"
  shows "logs_ok cfg'"
proof (cases "am_CommandValid m")
  case True
  from assms(2) [unfolded applier1_ok [OF True]] have i: "i < length (lg_logs cfg)"
    and same: "\<forall>l \<in> set (lg_logs cfg). \<forall>old. l (am_CommandIndex m) = Some old \<longrightarrow> old = am_Command m"
    and prev: "am_CommandIndex m > 1 \<longrightarrow> (lg_logs cfg ! i) (am_CommandIndex m - 1) \<noteq> None"
    and logs: "lg_logs cfg' = (lg_logs cfg)[i := (lg_logs cfg ! i)(am_CommandIndex m \<mapsto> am_Command m)]" by auto
  have "gapless (lg_logs cfg ! i)" using assms(1) i by (simp add: logs_ok_def)
  with prev have "gapless ((lg_logs cfg ! i)(am_CommandIndex m \<mapsto> am_Command m))"
    by (auto simp: gapless_def)
  with assms(1) agree_update [OF _ same i] show ?thesis
    using set_update_subset_insert [of "lg_logs cfg" i] unfolding logs_ok_def logs by blast
next
  case False
  with assms show ?thesis by (simp add: applier1_def)
qed

lemma logs_ok_appliers: "logs_ok cfg \<Longrightarrow> appliers es cfg = Inr cfg' \<Longrightarrow> logs_ok cfg'"
proof (induction es arbitrary: cfg)
  case (Cons e es)
  from Cons.prems(2) obtain cfg1 where "applier1 (fst e) (snd e) cfg = Inr cfg1" "appliers es cfg1 = Inr cfg'"
    by (auto split: sum.splits)
  with Cons.IH logs_ok_applier1 [OF Cons.prems(1)] show ?case by blast
qed simp

definition logs_init :: "nat \<Rightarrow> 'c logs_state" where
  "logs_init n = \<lparr>lg_logs = replicate n Map.empty, lg_lastApplied = replicate n 0,
     lg_applyErr = replicate n [], lg_maxIndex = 0\<rparr>"

text \<open>
  C5. State machine safety is what the appliers check: after any sequence of messages from all servers that
  ends without \<open>log.Fatalf\<close>, no two servers have committed different commands at the same index, and every
  server has committed all indices from 1 up to any index above 1 that it has committed.
\<close>

theorem appliers_safe:
  assumes "appliers es (logs_init n) = Inr cfg"
  shows "agree (lg_logs cfg) \<and> (\<forall>l \<in> set (lg_logs cfg). gapless l)"
proof -
  have "logs_ok (logs_init n :: 'a logs_state)" by (auto simp: logs_ok_def logs_init_def agree_def gapless_def)
  from logs_ok_appliers [OF this assms] show ?thesis by (simp add: logs_ok_def)
qed

definition cmd_msg :: "'c \<Rightarrow> int \<Rightarrow> 'c ApplyMsg" where
  "cmd_msg c k = \<lparr>am_CommandValid = True, am_Command = c, am_CommandIndex = k, am_SnapshotValid = False,
     am_Snapshot = None, am_SnapshotTerm = 0, am_SnapshotIndex = 0\<rparr>"

theorem appliers_safe_witness:
  "\<exists>cfg. appliers [(0, cmd_msg ''x'' 1), (1, cmd_msg ''x'' 1), (0, cmd_msg ''y'' 2)] (logs_init 2) = Inr cfg \<and>
     agree (lg_logs cfg)"
proof -
  have "(case appliers [(0, cmd_msg ''x'' 1), (1, cmd_msg ''x'' 1), (0, cmd_msg ''y'' 2)] (logs_init 2) of
      Inl e \<Rightarrow> False | Inr cfg \<Rightarrow> True)" by code_simp
  then obtain cfg where
    run: "appliers [(0, cmd_msg ''x'' 1), (1, cmd_msg ''x'' 1), (0, cmd_msg ''y'' 2)] (logs_init 2) = Inr cfg"
    by (auto split: sum.splits)
  with appliers_safe [OF run] show ?thesis by blast
qed

text \<open>Server \<open>i\<close> applies the entries of the log \<open>L\<close> one after the other; \<open>c i\<close> of them are applied.\<close>

primrec in_order :: "(int \<Rightarrow> 'c) \<Rightarrow> nat \<Rightarrow> (nat \<Rightarrow> nat) \<Rightarrow> (nat \<times> 'c ApplyMsg) list \<Rightarrow> bool" where
  "in_order L n c [] \<longleftrightarrow> True"
| "in_order L n c (e # es) \<longleftrightarrow> fst e < n \<and> am_CommandValid (snd e) \<and>
     am_CommandIndex (snd e) = int (c (fst e)) + 1 \<and> am_Command (snd e) = L (int (c (fst e)) + 1) \<and>
     in_order L n (c(fst e := c (fst e) + 1)) es"

definition applied :: "(int \<Rightarrow> 'c) \<Rightarrow> nat \<Rightarrow> (int \<rightharpoonup> 'c)" where
  "applied L k = (\<lambda>j. if 1 \<le> j \<and> j \<le> int k then Some (L j) else None)"

lemma applied_Suc: "(applied L k)(int k + 1 \<mapsto> L (int k + 1)) = applied L (Suc k)"
  by (auto simp: applied_def fun_eq_iff)

lemma appliers_in_order:
  assumes "in_order L n c es" and "lg_logs cfg = map (\<lambda>i. applied L (c i)) [0..<n]"
  shows "\<exists>cfg'. appliers es cfg = Inr cfg' \<and>
     lg_logs cfg' = map (\<lambda>i. applied L (c i + length (filter (\<lambda>e. fst e = i) es))) [0..<n]"
  using assms
proof (induction es arbitrary: c cfg)
  case (Cons e es)
  obtain i m where e: "e = (i, m)" by force
  have m: "i < n" "am_CommandValid m" "am_CommandIndex m = int (c i) + 1" "am_Command m = L (int (c i) + 1)"
    "in_order L n (c(i := c i + 1)) es" using Cons.prems(1) e by auto
  let ?cfg = "cfg\<lparr>lg_logs := (lg_logs cfg)[i := (lg_logs cfg ! i)(am_CommandIndex m \<mapsto> am_Command m)],
      lg_maxIndex := max (am_CommandIndex m) (lg_maxIndex cfg)\<rparr>"
  have logs: "lg_logs ?cfg = map (\<lambda>j. applied L ((c(i := c i + 1)) j)) [0..<n]"
    using m Cons.prems(2) by (auto simp: applied_Suc list_eq_iff_nth_eq nth_list_update)
  have "applier1 i m cfg = Inr ?cfg"
    using m Cons.prems(2) by (subst applier1_ok) (auto simp: applied_def)
  with Cons.IH [OF m(5) logs] e show ?case by auto
qed simp

text \<open>
  C16. The appliers accuse no one falsely: servers that apply the entries of one common log in order, in any
  interleaving and however far each of them gets, never cause an error, and the tester's copy of a server's
  log is the prefix that it has applied.
\<close>

theorem appliers_complete:
  assumes "in_order L n (\<lambda>_. 0) es"
  shows "\<exists>cfg. appliers es (logs_init n) = Inr cfg \<and>
     (\<forall>i < n. lg_logs cfg ! i = applied L (length (filter (\<lambda>e. fst e = i) es)))"
proof -
  have "applied L 0 = Map.empty" by (auto simp: applied_def)
  then have "lg_logs (logs_init n) = map (\<lambda>i. applied L 0) [0..<n]"
    by (simp add: logs_init_def map_replicate_const)
  from appliers_in_order [OF assms this] show ?thesis by auto
qed

theorem appliers_complete_witness:
  "\<exists>cfg. appliers [(0, cmd_msg 10 1), (1, cmd_msg 10 1), (0, cmd_msg 20 2)] (logs_init 2) = Inr cfg \<and>
     lg_logs cfg ! 0 = applied (\<lambda>k. 10 * k) 2"
proof -
  let ?es = "[(0, cmd_msg 10 1), (1, cmd_msg 10 1), (0, cmd_msg 20 2)]"
  have order: "in_order (\<lambda>k. 10 * k) 2 (\<lambda>_. 0) ?es" by (simp add: cmd_msg_def)
  have two: "length (filter (\<lambda>e. fst e = (0 :: nat)) ?es) = 2" by simp
  from appliers_complete [OF order] show ?thesis using two by (metis zero_less_numeral)
qed

section \<open>Counting commits\<close>

lemma nCommitted_loop_ok:
  assumes "nCommitted_loop index servers cnt cmd = Inr (nd, cmd')"
  shows "nd = cnt + length (filter (\<lambda>(l, err). l index \<noteq> None) servers) \<and>
     (\<forall>(l, err) \<in> set servers. \<forall>v. l index = Some v \<longrightarrow> v = cmd') \<and>
     (0 < cnt \<longrightarrow> cmd' = cmd)"
  using assms
proof (induction index servers cnt cmd rule: nCommitted_loop.induct)
  case (2 index l err servers cnt cmd)
  then show ?case by (cases "l index") (auto split: if_splits)
qed simp

lemma nCommitted_same:
  assumes "nCommitted nilc index cfg = Inr (nd, cmd)" and "length (lg_applyErr cfg) = length (lg_logs cfg)"
  shows "nd = length (filter (\<lambda>l. l index \<noteq> None) (lg_logs cfg)) \<and>
     (\<forall>l \<in> set (lg_logs cfg). \<forall>v. l index = Some v \<longrightarrow> v = cmd)"
proof -
  let ?servers = "zip (lg_logs cfg) (lg_applyErr cfg)"
  have logs: "lg_logs cfg = map fst ?servers" using assms(2) by simp
  note ok = nCommitted_loop_ok [OF assms(1) [unfolded nCommitted_def]]
  have "filter (\<lambda>l. l index \<noteq> None) (map fst ?servers) = map fst (filter (\<lambda>(l, err). l index \<noteq> None) ?servers)"
    by (simp add: filter_map comp_def case_prod_unfold)
  then have "length (filter (\<lambda>l. l index \<noteq> None) (lg_logs cfg)) = length (filter (\<lambda>(l, err). l index \<noteq> None) ?servers)"
    by (simp add: logs [symmetric])
  moreover have "\<forall>l \<in> set (map fst ?servers). \<forall>v. l index = Some v \<longrightarrow> v = cmd" using ok by fastforce
  ultimately show ?thesis using ok logs by simp
qed

section \<open>Agreement and snapshots\<close>

lemma poll_agreement_True:
  assumes "poll_agreement nilc cmd index k polls = Inr True"
  shows "\<exists>cfg \<in> set polls. \<exists>nd. nCommitted nilc index cfg = Inr (nd, cmd) \<and> 0 < nd \<and> k \<le> nd"
  using assms
proof (induction polls)
  case (Cons cfg polls)
  then obtain nd cmd1 where n: "nCommitted nilc index cfg = Inr (nd, cmd1)" by (auto split: sum.splits)
  with Cons show ?case by (cases "nd > 0 \<and> nd \<ge> k \<and> cmd1 = cmd") auto
qed simp

lemma try_servers_index:
  assumes "try_servers n starts k obs = (starts', index)" and "index \<noteq> -1"
  shows "obs starts' = Some (index, True)"
  using assms
  by (induction n starts k obs rule: try_servers.induct) (auto simp: Let_def split: option.splits if_splits)

lemma one_loop_agrees:
  assumes "one_loop nilc n cmd k retry starts rounds finished = Inr index" and "index \<noteq> -1"
  shows "\<exists>(obs, polls) \<in> set rounds. (\<exists>i. obs i = Some (index, True)) \<and>
     (\<exists>cfg \<in> set polls. \<exists>nd. nCommitted nilc index cfg = Inr (nd, cmd) \<and> 0 < nd \<and> k \<le> nd)"
  using assms
proof (induction nilc n cmd k retry starts rounds finished rule: one_loop.induct)
  case (2 nilc n cmd k retry starts obs polls rounds finished)
  obtain starts' index' where t: "try_servers n starts n obs = (starts', index')" by force
  show ?case
  proof (cases "index' \<noteq> -1 \<and> poll_agreement nilc cmd index' k polls = Inr True")
    case True
    with 2(3) t have [simp]: "index' = index" by simp
    from try_servers_index [OF t] True have "obs starts' = Some (index, True)" by simp
    with True poll_agreement_True [of nilc cmd index k polls] show ?thesis by auto
  next
    case False
    with 2(3) t have "one_loop nilc n cmd k retry starts' rounds finished = Inr index"
      by (auto split: if_splits sum.splits bool.splits)
    with 2 t False show ?thesis by (auto split: if_splits sum.splits bool.splits)
  qed
qed (simp split: if_splits)

lemma filter_index_eq:
  assumes "\<forall>l \<in> set logs. \<forall>v. l index = Some v \<longrightarrow> v = cmd"
  shows "filter (\<lambda>l. l index \<noteq> None) logs = filter (\<lambda>l. l index = Some cmd) logs"
  using assms by (intro filter_cong) auto

text \<open>
  C22. Agreement: when \<open>one\<close> returns an index other than \<open>-1\<close>, some server had claimed to be leader and given that
  index to the command, and the tester has seen the command committed at the index by at least one server
  and by at least as many servers as it was told to expect.
\<close>

theorem one_agrees:
  assumes "one nilc n cmd expectedServers retry rounds finished = Inr index" and "index \<noteq> -1"
    and "\<forall>(obs, polls) \<in> set rounds. \<forall>cfg \<in> set polls. length (lg_applyErr cfg) = length (lg_logs cfg)"
  shows "\<exists>(obs, polls) \<in> set rounds. (\<exists>i. obs i = Some (index, True)) \<and>
     (\<exists>cfg \<in> set polls. max 1 expectedServers \<le> length (filter (\<lambda>l. l index = Some cmd) (lg_logs cfg)))"
proof -
  from one_loop_agrees [OF assms(1) [unfolded one_def] assms(2)] obtain obs polls cfg nd i
    where *: "(obs, polls) \<in> set rounds" "obs i = Some (index, True)" "cfg \<in> set polls"
      "nCommitted nilc index cfg = Inr (nd, cmd)" "0 < nd" "expectedServers \<le> nd" by blast
  have "length (lg_applyErr cfg) = length (lg_logs cfg)" using assms(3) *(1,3) by blast
  from nCommitted_same [OF *(4) this] have "nd = length (filter (\<lambda>l. l index = Some cmd) (lg_logs cfg))"
    by (metis filter_index_eq)
  with *(5,6) have "max 1 expectedServers \<le> length (filter (\<lambda>l. l index = Some cmd) (lg_logs cfg))"
    by (intro max.boundedI) linarith+
  with *(1-3) show ?thesis by blast
qed

theorem one_agrees_witness:
  "\<exists>(obs, polls) \<in> set [((\<lambda>i :: nat. if i = 1 then Some (4 :: int, True) else None),
        [\<lparr>lg_logs = [[4 \<mapsto> (7 :: int)], [4 \<mapsto> 7]], lg_lastApplied = [4, 4], lg_applyErr = [[], []], lg_maxIndex = 4\<rparr>])].
     (\<exists>i. obs i = Some (4, True)) \<and>
     (\<exists>cfg \<in> set polls. max 1 2 \<le> length (filter (\<lambda>l. l 4 = Some 7) (lg_logs cfg)))"
  by (rule one_agrees [of 0 2 7 2 False _ False]) (simp_all add: one_def nCommitted_def Let_def numeral_2_eq_2)

lemma gapless_below:
  assumes "gapless l" and "l k \<noteq> None" and "1 \<le> j" and "j \<le> k"
  shows "l j \<noteq> None"
  using assms(4,2,3)
proof (induction j rule: int_le_induct)
  case (step i)
  then have "l i \<noteq> None" "i > 1" by auto
  with assms(1) show ?case unfolding gapless_def by blast
qed simp

lemma snapshot_log_nth: "j < nat (k + 1) \<Longrightarrow> snapshot_log nilc l k ! j = map_read nilc l (int j)"
  by (simp add: snapshot_log_def)

lemma applySnap_command_snap:
  assumes "applySnap_command nilc enc i m cfg = Some (NoErr, cfg', Some (k, b))"
  shows "(lg_logs cfg' ! i) k \<noteq> None \<and> b = enc (k, snapshot_log nilc (lg_logs cfg' ! i) k)"
proof -
  have i: "i < length (lg_lastApplied cfg)"
    using assms by (cases "i < length (lg_lastApplied cfg)") (simp_all add: applySnap_command_def slice_get_def)
  have idx: "am_CommandIndex m = lg_lastApplied cfg ! i + 1"
    using assms i by (auto simp: applySnap_command_def Let_def split: if_splits bind_splits)
  have j: "i < length (lg_logs cfg)"
    using assms i idx
    by (cases "i < length (lg_logs cfg)") (simp_all add: applySnap_command_def checkLogs_def slice_get_def)
  show ?thesis using assms i idx j
    by (auto simp: applySnap_command_def checkLogs_def Let_def split: if_splits)
qed

text \<open>
  C23. Snapshots: the snapshot that the applier of server \<open>i\<close> takes at index \<open>k\<close> is accepted by any server \<open>i'\<close> to
  which it is sent for that index, which then has the log of \<open>i\<close> from index 1 to \<open>k\<close>, no entry above \<open>k\<close>, and expects
  entry \<open>k + 1\<close> next.
\<close>

theorem snapshot_restores:
  assumes "applySnap_command nilc enc i m cfg = Some (NoErr, cfg', Some (k, b))"
    and "gapless (lg_logs cfg' ! i)" and "\<forall>x. dec (enc x) = Some x"
    and "i' < length (lg_logs cfg2)" and "i' < length (lg_lastApplied cfg2)"
  shows "\<exists>cfg3. ingestSnap dec i' (Some b) k cfg2 = Inr (NoErr, cfg3) \<and>
     (\<forall>j. 1 \<le> j \<longrightarrow> (lg_logs cfg3 ! i') j = (if j \<le> k then (lg_logs cfg' ! i) j else None)) \<and>
     lg_lastApplied cfg3 ! i' = k"
proof -
  let ?l = "lg_logs cfg' ! i"
  let ?cfg3 = "cfg2\<lparr>lg_logs := (lg_logs cfg2)[i' := log_of_list (snapshot_log nilc ?l k)],
      lg_lastApplied := (lg_lastApplied cfg2)[i' := k]\<rparr>"
  from applySnap_command_snap [OF assms(1)] have last: "?l k \<noteq> None"
    and b: "b = enc (k, snapshot_log nilc ?l k)" by auto
  have "log_of_list (snapshot_log nilc ?l k) j = (if j \<le> k then ?l j else None)" if "1 \<le> j" for j
    using that gapless_below [OF assms(2) last that]
    by (auto simp: log_of_list_def snapshot_log_nth map_read_def snapshot_log_def split: option.splits)
  moreover have "ingestSnap dec i' (Some b) k cfg2 = Inr (NoErr, ?cfg3)"
    using assms(3-5) b by (simp add: ingestSnap_def)
  ultimately show ?thesis using assms(4,5) by auto
qed

text \<open>An encoding of snapshots whose commands are bytes.\<close>

definition snap_enc :: "int \<times> 8 word list \<Rightarrow> bytes" where
  "snap_enc x = (if fst x < 0 then 1 else 0) # replicate (nat \<bar>fst x\<bar>) 1 @ 0 # snd x"

definition snap_dec :: "bytes \<Rightarrow> (int \<times> 8 word list) option" where
  "snap_dec b = (case b of [] \<Rightarrow> None
     | s # r \<Rightarrow> (let n = length (takeWhile (\<lambda>w. w = 1) r) in
         Some (if s = 1 then - int n else int n, drop (n + 1) r)))"

lemma snap_dec_enc: "snap_dec (snap_enc x) = Some x"
proof -
  have "takeWhile (\<lambda>w. w = 1) (replicate n 1 @ 0 # b) = replicate n (1 :: 8 word)" for n b by (induction n) auto
  then show ?thesis by (cases x) (simp add: snap_dec_def snap_enc_def Let_def)
qed

definition ex_logs :: "8 word logs_state" where
  "ex_logs = \<lparr>lg_logs = [applied (\<lambda>j. 5) 8, Map.empty], lg_lastApplied = [8, 0], lg_applyErr = [[], []],
     lg_maxIndex = 8\<rparr>"

theorem snapshot_restores_witness:
  "\<exists>cfg' b cfg3. applySnap_command 0 snap_enc 0 (cmd_msg 7 9) ex_logs = Some (NoErr, cfg', Some (9, b)) \<and>
     ingestSnap snap_dec 1 (Some b) 9 ex_logs = Inr (NoErr, cfg3) \<and>
     (lg_logs cfg3 ! 1) 9 = (lg_logs cfg' ! 0) 9 \<and> lg_lastApplied cfg3 ! 1 = 9"
proof -
  let ?l = "(applied (\<lambda>j. 5 :: 8 word) 8)(9 \<mapsto> 7)"
  let ?cfg' = "ex_logs\<lparr>lg_logs := [?l, Map.empty], lg_lastApplied := [9, 0], lg_maxIndex := 9\<rparr>"
  let ?b = "snap_enc (9, snapshot_log 0 ?l 9)"
  have run: "applySnap_command 0 snap_enc 0 (cmd_msg 7 9) ex_logs = Some (NoErr, ?cfg', Some (9, ?b))"
    by (simp add: applySnap_command_def checkLogs_def ex_logs_def cmd_msg_def SnapShotInterval_def applied_def)
  have gap: "gapless (lg_logs ?cfg' ! 0)" by (auto simp: gapless_def applied_def)
  have len: "1 < length (lg_logs ex_logs)" "1 < length (lg_lastApplied ex_logs)" by (simp_all add: ex_logs_def)
  from snapshot_restores [OF run gap _ len, of snap_dec] obtain cfg3
    where "ingestSnap snap_dec 1 (Some ?b) 9 ex_logs = Inr (NoErr, cfg3)"
      and "\<forall>j\<ge>1. (lg_logs cfg3 ! 1) j = (if j \<le> 9 then (lg_logs ?cfg' ! 0) j else None)"
      and "lg_lastApplied cfg3 ! 1 = 9" by (auto simp: snap_dec_enc)
  with run show ?thesis by (intro exI [of _ ?cfg'] exI [of _ ?b] exI [of _ cfg3]) simp
qed

section \<open>One leader\<close>

text \<open>Who claims to be the leader of which term.\<close>

definition claims :: "(int \<times> bool) option list \<Rightarrow> (nat \<times> int) set" where
  "claims obs = {(i, t). i < length obs \<and> obs ! i = Some (t, True)}"

lemma claims_Nil [simp]: "claims [] = {}"
  by (simp add: claims_def)

lemma map_of_add_leader: "map_of (add_leader t i ls) = (map_of ls)(t \<mapsto> map_read [] (map_of ls) t @ [i])"
  by (induction t i ls rule: add_leader.induct) (auto simp: map_read_def fun_eq_iff)

lemma filter_positions_Cons:
  "filter (\<lambda>j. P ((x # xs) ! (j - i))) [i..<Suc (i + length xs)] =
     (if P x then [i] else []) @ filter (\<lambda>j. P (xs ! (j - Suc i))) [Suc i..<Suc (i + length xs)]"
proof -
  have "filter (\<lambda>j. P ((x # xs) ! (j - i))) [Suc i..<Suc (i + length xs)] =
      filter (\<lambda>j. P (xs ! (j - Suc i))) [Suc i..<Suc (i + length xs)]"
    by (intro filter_cong refl) (auto simp: nth_Cons' simp del: upt_Suc)
  then show ?thesis by (simp add: upt_conv_Cons del: upt_Suc)
qed

text \<open>The servers that \<open>leaders\<close> has for a term, and the terms that it has.\<close>

lemma collect_leaders_read:
  "map_read [] (map_of (collect_leaders i obs ls)) t =
     map_read [] (map_of ls) t @ filter (\<lambda>j. obs ! (j - i) = Some (t, True)) [i..<i + length obs]"
proof (induction i obs ls rule: collect_leaders.induct)
  case (2 i u leader obs ls)
  then show ?case by (auto simp: map_of_add_leader filter_positions_Cons [of "\<lambda>x. x = Some (t, True)"]
        simp del: upt_Suc fun_upd_apply)
next
  case (3 i obs ls)
  then show ?case by (simp add: filter_positions_Cons [of "\<lambda>x. x = Some (t, True)"] del: upt_Suc)
qed simp

lemma collect_leaders_dom:
  "dom (map_of (collect_leaders i obs ls)) = dom (map_of ls) \<union> {t. Some (t, True) \<in> set obs}"
  by (induction i obs ls rule: collect_leaders.induct) (auto simp: map_of_add_leader simp del: fun_upd_apply)

lemma collect_leaders_distinct:
  "distinct (map fst ls) \<Longrightarrow> distinct (map fst (collect_leaders i obs ls))"
proof (induction i obs ls rule: collect_leaders.induct)
  case (2 i u leader obs ls)
  have "fst ` set (add_leader u i ls) = insert u (fst ` set ls)" for ls :: "(int \<times> nat list) list"
    by (induction u i ls rule: add_leader.induct) auto
  then have "distinct (map fst (add_leader u i ls))" using 2(2)
    by (induction u i ls rule: add_leader.induct) auto
  with 2 show ?case by simp
qed simp_all

lemma last_term_eq:
  "last_term ls z = (if \<exists>(t, is) \<in> set ls. length is > 1 then None else Some (fold max (map fst ls) z))"
  by (induction ls z rule: last_term.induct) (auto simp: max.absorb1 max.absorb2)

lemma fold_max_eq: "fold max ts (z :: int) = Max (insert z (set ts))"
  using Max.set_eq_fold [of z ts] by simp

text \<open>What one round of \<open>checkOneLeader\<close> finds, in terms of the claims.\<close>

lemma leaders_of_claims:
  defines "ls obs \<equiv> collect_leaders 0 obs []"
  shows "map_of (ls obs) t = (let is = filter (\<lambda>j. (j, t) \<in> claims obs) [0..<length obs] in if is = [] then None else Some is)"
    (is "_ = ?r")
proof -
  let ?is = "filter (\<lambda>j. (j, t) \<in> claims obs) [0..<length obs]"
  have read: "map_read [] (map_of (ls obs)) t = ?is"
    unfolding ls_def using collect_leaders_read [of 0 obs "[]" t] by (auto simp: claims_def intro!: filter_cong)
  have "t \<in> dom (map_of (ls obs)) \<longleftrightarrow> ?is \<noteq> []"
    unfolding ls_def collect_leaders_dom by (auto simp: claims_def filter_empty_conv in_set_conv_nth)
  with read show ?thesis by (auto simp: map_read_def Let_def split: option.splits)
qed

text \<open>The leader of the latest term, when no term has two.\<close>

definition elected :: "(int \<times> bool) option list \<Rightarrow> nat \<Rightarrow> bool" where
  "elected obs l \<longleftrightarrow> (\<forall>i j t. (i, t) \<in> claims obs \<longrightarrow> (j, t) \<in> claims obs \<longrightarrow> i = j) \<and>
     (\<exists>t. (l, t) \<in> claims obs \<and> (\<forall>i u. (i, u) \<in> claims obs \<longrightarrow> u \<le> t))"

lemma length_gt_1_distinct: "distinct xs \<Longrightarrow> 1 < length xs \<longleftrightarrow> (\<exists>i \<in> set xs. \<exists>j \<in> set xs. i \<noteq> j)"
  by (cases xs; cases "tl xs") auto

lemma set_leaders_of_claims:
  "(t, is) \<in> set (collect_leaders 0 obs []) \<longleftrightarrow>
     is = filter (\<lambda>j. (j, t) \<in> claims obs) [0..<length obs] \<and> is \<noteq> []"
proof -
  have "distinct (map fst (collect_leaders 0 obs []))" by (simp add: collect_leaders_distinct)
  then have "(t, is) \<in> set (collect_leaders 0 obs []) \<longleftrightarrow> map_of (collect_leaders 0 obs []) t = Some is" by simp
  then show ?thesis by (auto simp: leaders_of_claims Let_def)
qed

lemma several_leaders_iff:
  "(\<exists>(t, is) \<in> set (collect_leaders 0 obs []). length is > 1) \<longleftrightarrow>
     (\<exists>i j t. (i, t) \<in> claims obs \<and> (j, t) \<in> claims obs \<and> i \<noteq> j)"
proof -
  have several: "1 < length (filter (\<lambda>j. (j, t) \<in> claims obs) [0..<length obs]) \<longleftrightarrow>
      (\<exists>i j. (i, t) \<in> claims obs \<and> (j, t) \<in> claims obs \<and> i \<noteq> j)" for t
    by (subst length_gt_1_distinct) (auto simp: claims_def)
  have terms: "(\<exists>(t, is) \<in> set (collect_leaders 0 obs []). length is > 1) \<longleftrightarrow>
      (\<exists>t. 1 < length (filter (\<lambda>j. (j, t) \<in> claims obs) [0..<length obs]))"
  proof -
    have "(\<exists>(t, is) \<in> set (collect_leaders 0 obs []). length is > 1) \<longleftrightarrow>
        (\<exists>t is. (t, is) \<in> set (collect_leaders 0 obs []) \<and> length is > 1)" by blast
    then show ?thesis unfolding set_leaders_of_claims by (metis length_0_conv not_less_zero)
  qed
  show ?thesis unfolding terms several by blast
qed

lemma terms_of_leaders: "fst ` set (collect_leaders 0 obs []) = snd ` claims obs"
proof -
  have "fst ` set (collect_leaders 0 obs []) = dom (map_of (collect_leaders 0 obs []))" by (simp add: dom_map_of_conv_image_fst)
  then show ?thesis unfolding collect_leaders_dom by (force simp: claims_def in_set_conv_nth)
qed

lemma filter_eq_upt: "filter (\<lambda>j. j = k) [0..<n] = (if k < n then [k] else [])"
  by (induction n) auto

lemma checkOneLeader_round:
  assumes "claims obs \<noteq> {}" and "\<forall>(i, t) \<in> claims obs. 0 \<le> t"
  shows "checkOneLeader_loop (obs # rounds) = Inr l \<longleftrightarrow> elected obs l"
proof (cases "\<exists>i j t. (i, t) \<in> claims obs \<and> (j, t) \<in> claims obs \<and> i \<noteq> j")
  case True
  then have "\<exists>(t, is) \<in> set (collect_leaders 0 obs []). length is > 1" unfolding several_leaders_iff .
  then have "checkOneLeader_loop (obs # rounds) = Inl TestFatal" by (simp add: last_term_eq Let_def)
  with True show ?thesis by (auto simp: elected_def)
next
  case False
  let ?ls = "collect_leaders 0 obs []" and ?T = "snd ` claims obs"
  have fin: "finite ?T" "?T \<noteq> {}" using assms(1) terms_of_leaders [of obs] by (metis List.finite_set finite_imageI, simp)
  have "0 \<le> Max ?T" using assms(2) Max_in [OF fin] by fastforce
  then have "Max (insert (-1) ?T) = Max ?T" using fin by simp
  then have last: "last_term ?ls (-1) = Some (Max ?T)"
    unfolding last_term_eq several_leaders_iff using False by (simp add: fold_max_eq terms_of_leaders)
  obtain l0 where l0: "(l0, Max ?T) \<in> claims obs" using Max_in [OF fin] by force
  then have only: "(j, Max ?T) \<in> claims obs \<longleftrightarrow> j = l0" for j using False by blast
  have "l0 < length obs" using l0 by (simp add: claims_def)
  then have "map_of ?ls (Max ?T) = Some [l0]"
    by (simp add: leaders_of_claims only filter_eq_upt Let_def)
  moreover have "?ls \<noteq> []" using fin(2) terms_of_leaders [of obs] by force
  ultimately have "checkOneLeader_loop (obs # rounds) = Inr l0" by (simp add: last Let_def)
  moreover have "elected obs l \<longleftrightarrow> l = l0"
    using False l0 Max_ge [OF fin(1)] unfolding elected_def by (metis imageI order_antisym snd_conv)
  ultimately show ?thesis by auto
qed

lemma checkOneLeader_quiet:
  assumes "claims obs = {}"
  shows "checkOneLeader_loop (obs # rounds) = checkOneLeader_loop rounds"
proof -
  have "collect_leaders 0 obs [] = []" using terms_of_leaders [of obs] assms by simp
  then show ?thesis by simp
qed

lemma checkOneLeader_loop_iff:
  assumes "\<forall>obs \<in> set rounds. \<forall>(i, t) \<in> claims obs. 0 \<le> t"
  shows "checkOneLeader_loop rounds = Inr l \<longleftrightarrow>
     (\<exists>r < length rounds. (\<forall>q < r. claims (rounds ! q) = {}) \<and> elected (rounds ! r) l)"
  using assms
proof (induction rounds)
  case (Cons obs rounds)
  show ?case
  proof (cases "claims obs = {}")
    case True
    then have "\<not> elected obs l" by (simp add: elected_def)
    with True Cons show ?thesis
      by (simp only: checkOneLeader_quiet) (auto simp: Ex_less_Suc2 All_less_Suc2)
  next
    case False
    with Cons.prems show ?thesis
      by (subst checkOneLeader_round) (auto simp: Ex_less_Suc2 All_less_Suc2)
  qed
qed simp



end
