(* ===== verification/Tester_Net.thy ===== *)
theory Tester_Net
  imports Labrpc
begin

text \<open>
  What the configurations of the testers (\<open>config.go\<close> of \<open>raft\<close>, \<open>kvraft\<close>, \<open>shardctrler\<close> and \<open>shardkv\<close>) share: the
  names that they give to end points and servers, the loops that enable and disable end points, and the
  loop that makes a fresh set of end points.

  The loops use the network through the locale \<open>switchboard\<close>: end points that can be switched on and off.
\<close>

text \<open>Names are values of an interface type: random strings for end points, indices for servers.\<close>

datatype name = EndName string | SrvName nat

section \<open>Switching end points\<close>

text \<open>One pass over a slice: where \<open>cond j\<close> holds the end point \<open>nm j\<close> is switched; both may panic.\<close>

definition switch_loop ::
  "('n \<Rightarrow> 's \<Rightarrow> 's) \<Rightarrow> ('j \<Rightarrow> bool option) \<Rightarrow> ('j \<Rightarrow> 'n option) \<Rightarrow> 'j list \<Rightarrow> 's \<Rightarrow> 's option" where
  "switch_loop switch cond nm js s =
     for_each (\<lambda>j s. do {
       c \<leftarrow> cond j;
       if c then do { e \<leftarrow> nm j; Some (switch e s) } else Some s
     }) js s"

locale switchboard =
  fixes enable :: "'n \<Rightarrow> bool \<Rightarrow> 's \<Rightarrow> 's"
    and on :: "'s \<Rightarrow> 'n \<Rightarrow> bool"
    and frame :: "'s \<Rightarrow> 'r"
  assumes on_enable: "on (enable e b s) e' \<longleftrightarrow> (if e' = e then b else on s e')"
    and frame_enable: "frame (enable e b s) = frame s"
begin

lemma switch_loop_run:
  assumes "\<And>j. j \<in> set js \<Longrightarrow> \<exists>c. cond j = Some c \<and> (c \<longrightarrow> nm j \<noteq> None)"
  shows "\<exists>s'. switch_loop (\<lambda>e. enable e b) cond nm js s = Some s' \<and> frame s' = frame s \<and>
     (\<forall>e. on s' e \<longleftrightarrow> (if \<exists>j \<in> set js. cond j = Some True \<and> nm j = Some e then b else on s e))"
  using assms
proof (induction js arbitrary: s)
  case (Cons j js)
  obtain c where c: "cond j = Some c" "c \<longrightarrow> nm j \<noteq> None" using Cons.prems by force
  show ?case
  proof (cases c)
    case True
    then obtain e where e: "nm j = Some e" using c(2) by blast
    from Cons.IH [of "enable e b s"] Cons.prems obtain s'
      where "switch_loop (\<lambda>e. enable e b) cond nm js (enable e b s) = Some s'" "frame s' = frame s"
        "\<forall>e'. on s' e' \<longleftrightarrow>
          (if \<exists>j \<in> set js. cond j = Some True \<and> nm j = Some e' then b else on (enable e b s) e')"
      by (auto simp: frame_enable)
    with c e True show ?thesis by (auto simp: switch_loop_def on_enable)
  next
    case False
    with Cons.IH [of s] Cons.prems c show ?thesis by (auto simp: switch_loop_def)
  qed
qed (simp add: switch_loop_def)

lemma switch_loop_ok:
  assumes "switch_loop (\<lambda>e. enable e b) (\<lambda>j. Some True) nm js s = Some s'"
  shows "on s' e \<longleftrightarrow> (if \<exists>j \<in> set js. nm j = Some e then b else on s e)" and "j \<in> set js \<Longrightarrow> nm j \<noteq> None"
  using assms
proof (induction js arbitrary: s)
  case (Cons x xs)
  { case 1
    then obtain e' where "nm x = Some e'" "switch_loop (\<lambda>e. enable e b) (\<lambda>j. Some True) nm xs (enable e' b s) = Some s'"
      by (auto simp: switch_loop_def bind_eq_Some_conv)
    with Cons.IH(1) [of "enable e' b s"] show ?case by (auto simp: on_enable)
  next
    case 2
    then show ?case using Cons.IH(2) by (auto simp: switch_loop_def bind_eq_Some_conv)
  }
qed (simp_all add: switch_loop_def)

lemma switch_loop_frame:
  assumes "switch_loop (\<lambda>e. enable e b) cond nm js s = Some s'"
  shows "frame s' = frame s"
  using assms unfolding switch_loop_def
  by (rule for_each_inv [where P = "\<lambda>s'. frame s' = frame s"]) (auto simp: frame_enable bind_eq_Some_conv split: if_splits)

end

text \<open>What an end point can do now, and everything else of a network.\<close>

definition end_on :: "'n Network \<Rightarrow> 'n \<Rightarrow> bool" where
  "end_on rn e = map_read False (nt_enabled rn) e"

definition net_rest :: "'n Network \<Rightarrow> 'n Network" where
  "net_rest rn = rn\<lparr>nt_enabled := Map.empty\<rparr>"

interpretation net: switchboard Enable end_on net_rest
  by unfold_locales (auto simp: Enable_def end_on_def net_rest_def)

lemma net_switch_range:
  assumes "\<And>j. j < n \<Longrightarrow> \<exists>c. cond j = Some c \<and> (c \<longrightarrow> nm j \<noteq> None)"
  obtains rn' where "switch_loop (\<lambda>e. Enable e b) cond nm [0..<n] rn = Some rn'" and "net_rest rn' = net_rest rn"
    and "\<And>e. end_on rn' e \<longleftrightarrow> (if \<exists>j < n. cond j = Some True \<and> nm j = Some e then b else end_on rn e)"
proof -
  have "\<exists>c. cond j = Some c \<and> (c \<longrightarrow> nm j \<noteq> None)" if "j \<in> set [0..<n]" for j using assms that by simp
  from net.switch_loop_run [where js = "[0..<n]" and b = b and s = rn and cond = cond and nm = nm, OF this] that show ?thesis
    by (auto simp: Bex_def)
qed

lemma net_rest_eqD:
  assumes "net_rest rn' = net_rest rn"
  shows "nt_ends rn' = nt_ends rn" "nt_connections rn' = nt_connections rn" "nt_servers rn' = nt_servers rn"
    "nt_reliable rn' = nt_reliable rn" "nt_longDelays rn' = nt_longDelays rn"
    "nt_longReordering rn' = nt_longReordering rn" "nt_done rn' = nt_done rn"
  using assms by (cases rn; cases rn'; simp add: net_rest_def)+

section \<open>Making end points\<close>

text \<open>
  The loop that makes an end point for each of the given names and connects it to the server of that
  position; with \<open>up\<close> it is enabled as well.
\<close>

fun make_ends ::
  "bool \<Rightarrow> ('n \<times> 'n) list \<Rightarrow> 'n Network \<Rightarrow> go_error + 'n Network \<times> 'n ClientEnd list" where
  "make_ends up [] rn = Inr (rn, [])"
| "make_ends up ((endname, servername) # ps) rn =
     res_bind (MakeEnd endname rn) (\<lambda>(rn1, e).
       let rn2 = Connect endname servername rn1;
           rn3 = (if up then Enable endname True rn2 else rn2)
       in res_bind (make_ends up ps rn3) (\<lambda>(rn4, es). Inr (rn4, e # es)))"

text \<open>
  When it succeeds the names are distinct and new, exactly they are added, each connected to its server, and
  nothing changes for the others.
\<close>

lemma make_ends_ok:
  assumes "make_ends up ps rn = Inr (rn', es)"
  shows "distinct (map fst ps) \<and> (\<forall>e \<in> fst ` set ps. nt_ends rn e = None) \<and>
     map end_name es = map fst ps \<and>
     dom (nt_ends rn') = dom (nt_ends rn) \<union> fst ` set ps \<and>
     (\<forall>e s. (e, s) \<in> set ps \<longrightarrow> nt_connections rn' e = Some (Some s)) \<and>
     (\<forall>e. e \<notin> fst ` set ps \<longrightarrow> nt_connections rn' e = nt_connections rn e) \<and>
     (\<forall>e. end_on rn' e \<longleftrightarrow> (if e \<in> fst ` set ps then up else end_on rn e)) \<and>
     nt_servers rn' = nt_servers rn"
  using assms
proof (induction up ps rn arbitrary: rn' es rule: make_ends.induct)
  case (2 up endname servername ps rn)
  from 2(2) have new: "nt_ends rn endname = None"
    by (auto simp: MakeEnd_def res_bind_Inr_iff split: if_splits)
  let ?rn1 = "rn\<lparr>nt_ends := (nt_ends rn)(endname \<mapsto> \<lparr>end_name = endname\<rparr>),
      nt_enabled := (nt_enabled rn)(endname \<mapsto> False), nt_connections := (nt_connections rn)(endname \<mapsto> None)\<rparr>"
  let ?rn2 = "Connect endname servername ?rn1"
  let ?rn3 = "if up then Enable endname True ?rn2 else ?rn2"
  have mk: "MakeEnd endname rn = Inr (?rn1, \<lparr>end_name = endname\<rparr>)" using new by (simp add: MakeEnd_def Let_def)
  with 2(2) obtain es' where rest: "make_ends up ps ?rn3 = Inr (rn', es')" and es: "es = \<lparr>end_name = endname\<rparr> # es'"
    by (auto simp: res_bind_Inr_iff Let_def)
  note IH = 2(1) [OF refl refl rest]
  have rn3: "nt_ends ?rn3 = (nt_ends rn)(endname \<mapsto> \<lparr>end_name = endname\<rparr>)"
    "nt_connections ?rn3 = (nt_connections rn)(endname \<mapsto> Some servername)" "nt_servers ?rn3 = nt_servers rn"
    "end_on ?rn3 e \<longleftrightarrow> (if e = endname then up else end_on rn e)" for e
    by (auto simp: Connect_def Enable_def end_on_def)
  from IH have fresh: "endname \<notin> fst ` set ps" unfolding rn3 by auto
  show ?case using IH fresh new es unfolding rn3 by (auto split: if_splits)
qed simp

lemma make_ends_keep:
  assumes "make_ends up ps rn = Inr (rn', es)" and "e \<in> dom (nt_ends rn)"
  shows "e \<in> dom (nt_ends rn')" and "nt_connections rn' e = nt_connections rn e" and "end_on rn' e = end_on rn e"
    and "e \<notin> fst ` set ps"
proof -
  note ok = make_ends_ok [OF assms(1)]
  show new: "e \<notin> fst ` set ps"
  proof
    assume "e \<in> fst ` set ps"
    moreover have "\<forall>e \<in> fst ` set ps. nt_ends rn e = None" using ok by (elim conjE)
    ultimately have "nt_ends rn e = None" by (rule bspec [rotated])
    with assms(2) show False by auto
  qed
  with ok assms(2) show "e \<in> dom (nt_ends rn')" "nt_connections rn' e = nt_connections rn e" "end_on rn' e = end_on rn e" by simp_all
qed

lemma make_ends_new:
  assumes "make_ends up ps rn = Inr (rn', es)" and "(e, s) \<in> set ps"
  shows "e \<in> dom (nt_ends rn')" and "nt_connections rn' e = Some (Some s)" and "end_on rn' e = up"
proof -
  have new: "e \<in> fst ` set ps" using assms(2) by force
  have "dom (nt_ends rn') = dom (nt_ends rn) \<union> fst ` set ps" using make_ends_ok [OF assms(1)] by (elim conjE)
  with new show "e \<in> dom (nt_ends rn')" by (simp only: Un_iff simp_thms)
  have "\<forall>e s. (e, s) \<in> set ps \<longrightarrow> nt_connections rn' e = Some (Some s)" using make_ends_ok [OF assms(1)] by (elim conjE)
  with assms(2) show "nt_connections rn' e = Some (Some s)" by blast
  have "\<forall>e. end_on rn' e \<longleftrightarrow> (if e \<in> fst ` set ps then up else end_on rn e)" using make_ends_ok [OF assms(1)] by (elim conjE)
  with new show "end_on rn' e = up" by simp
qed

lemma make_ends_servers: "make_ends up ps rn = Inr (rn', es) \<Longrightarrow> nt_servers rn' = nt_servers rn"
  by (drule make_ends_ok) (elim conjE)

lemma make_ends_succeeds:
  assumes "distinct (map fst ps)" and "\<forall>e \<in> fst ` set ps. nt_ends rn e = None"
  shows "\<exists>rn' es. make_ends up ps rn = Inr (rn', es)"
  using assms
proof (induction ps arbitrary: rn)
  case (Cons p ps)
  obtain endname servername where p: "p = (endname, servername)" by force
  let ?rn2 = "Connect endname servername (rn\<lparr>nt_ends := (nt_ends rn)(endname \<mapsto> \<lparr>end_name = endname\<rparr>),
      nt_enabled := (nt_enabled rn)(endname \<mapsto> False), nt_connections := (nt_connections rn)(endname \<mapsto> None)\<rparr>)"
  let ?rn3 = "if up then Enable endname True ?rn2 else ?rn2"
  have "\<forall>e \<in> fst ` set ps. nt_ends ?rn3 e = None"
    using Cons.prems p by (auto simp: Connect_def Enable_def)
  with Cons.IH [of ?rn3] Cons.prems(1) obtain rn' es where "make_ends up ps ?rn3 = Inr (rn', es)" by auto
  with Cons.prems(2) p show ?case by (auto simp: MakeEnd_def Let_def)
qed simp

end
