(* ===== verification/Raft_Config.thy ===== *)
theory Raft_Config
  imports Raft_Tester Tester_Net
begin

text \<open>
  The configuration of the Raft tester in \<open>raft/config.go\<close>: starting, crashing, connecting and disconnecting
  servers.

  Objects that are shared by pointer (Raft peers, persisters, servers of \<open>labrpc\<close>) live in the three stores at the
  end of the record. Random strings are arguments: \<open>rnd j\<close> is the \<open>j\<close>-th one. \<open>dec\<close> decodes a snapshot and \<open>typ\<close> lists
  what reflection tells about the methods of a peer.

  The theory shows for every state that the tester can reach that exactly the end points between connected
  servers can send, that those of crashed instances cannot, and that a crashed instance which goes on saving
  its state does not disturb the one that replaced it.
\<close>

section \<open>State\<close>

record ('c, 'v, 'w) config =
  cf_finished :: "32 word"
  cf_net :: "name Network"
  cf_n :: nat
  cf_rafts :: "ptr list"
  cf_connected :: "bool list"
  cf_saved :: "ptr list"
  cf_endnames :: "string list option list"
  cf_logs :: "'c logs_state"
  cf_rpcs0 :: int
  cf_cmds0 :: int
  cf_bytes0 :: int
  cf_maxIndex0 :: int
  cf_raft_store :: "name Raft list"
  cf_persister_store :: "Persister list"
  cf_server_store :: "('v, 'w) Server list"

text \<open>Reading \<open>cfg.endnames[i][j]\<close>, where the first slice may be nil.\<close>

definition endname_at :: "string list option list \<Rightarrow> nat \<Rightarrow> nat \<Rightarrow> name option" where
  "endname_at endnames i j = do {
     names \<leftarrow> slice_get endnames i;
     es \<leftarrow> names;
     s \<leftarrow> slice_get es j;
     Some (EndName s)
   }"

section \<open>Connecting and disconnecting\<close>

definition connect :: "nat \<Rightarrow> ('c, 'v, 'w) config \<Rightarrow> ('c, 'v, 'w) config option" where
  "connect i cfg = do {
     connected \<leftarrow> slice_set (cf_connected cfg) i True;
     rn1 \<leftarrow> switch_loop (\<lambda>e. Enable e True) (slice_get connected) (\<lambda>j. endname_at (cf_endnames cfg) i j)
       [0..<cf_n cfg] (cf_net cfg);
     rn2 \<leftarrow> switch_loop (\<lambda>e. Enable e True) (slice_get connected) (\<lambda>j. endname_at (cf_endnames cfg) j i)
       [0..<cf_n cfg] rn1;
     Some (cfg\<lparr>cf_connected := connected, cf_net := rn2\<rparr>)
   }"

definition has_names :: "string list option list \<Rightarrow> nat \<Rightarrow> bool option" where
  "has_names endnames i = do { names \<leftarrow> slice_get endnames i; Some (names \<noteq> None) }"

definition disconnect :: "nat \<Rightarrow> ('c, 'v, 'w) config \<Rightarrow> ('c, 'v, 'w) config option" where
  "disconnect i cfg = do {
     connected \<leftarrow> slice_set (cf_connected cfg) i False;
     rn1 \<leftarrow> switch_loop (\<lambda>e. Enable e False) (\<lambda>j. has_names (cf_endnames cfg) i)
       (\<lambda>j. endname_at (cf_endnames cfg) i j) [0..<cf_n cfg] (cf_net cfg);
     rn2 \<leftarrow> switch_loop (\<lambda>e. Enable e False) (\<lambda>j. has_names (cf_endnames cfg) j)
       (\<lambda>j. endname_at (cf_endnames cfg) j i) [0..<cf_n cfg] rn1;
     Some (cfg\<lparr>cf_connected := connected, cf_net := rn2\<rparr>)
   }"

section \<open>Crashing and starting\<close>

text \<open>A new persister object becomes \<open>cfg.saved[i]\<close>.\<close>

definition new_saved :: "nat \<Rightarrow> Persister \<Rightarrow> ('c, 'v, 'w) config \<Rightarrow> ('c, 'v, 'w) config" where
  "new_saved i ps cfg = cfg\<lparr>cf_persister_store := cf_persister_store cfg @ [ps],
     cf_saved := (cf_saved cfg)[i := Some (length (cf_persister_store cfg))]\<rparr>"

text \<open>\<open>if cfg.saved[i] != nil\<close>: a new object whose content depends on that of the old one.\<close>

definition replace_saved ::
  "(Persister \<Rightarrow> Persister) \<Rightarrow> nat \<Rightarrow> ('c, 'v, 'w) config \<Rightarrow> ('c, 'v, 'w) config option" where
  "replace_saved f i cfg = do {
     p \<leftarrow> slice_get (cf_saved cfg) i;
     case p of
       None \<Rightarrow> Some cfg
     | Some a \<Rightarrow> do { ps \<leftarrow> slice_get (cf_persister_store cfg) a; Some (new_saved i (f ps) cfg) }
   }"

definition kill_raft :: "nat \<Rightarrow> ('c, 'v, 'w) config \<Rightarrow> ('c, 'v, 'w) config option" where
  "kill_raft i cfg = do {
     p \<leftarrow> slice_get (cf_rafts cfg) i;
     case p of
       None \<Rightarrow> Some cfg
     | Some r \<Rightarrow> do {
         rf \<leftarrow> slice_get (cf_raft_store cfg) r;
         Some (cfg\<lparr>cf_raft_store := (cf_raft_store cfg)[r := Kill rf]\<rparr>)
       }
   }"

definition crash1 :: "nat \<Rightarrow> ('c, 'v, 'w) config \<Rightarrow> ('c, 'v, 'w) config option" where
  "crash1 i cfg = do {
     cfg1 \<leftarrow> disconnect i cfg;
     let cfg2 = cfg1\<lparr>cf_net := DeleteServer (SrvName i) (cf_net cfg1)\<rparr>;
     cfg3 \<leftarrow> replace_saved Persister_Copy i cfg2;
     cfg4 \<leftarrow> kill_raft i cfg3;
     let cfg5 = cfg4\<lparr>cf_rafts := (cf_rafts cfg4)[i := None]\<rparr>;
     replace_saved (\<lambda>ps. Save (ReadRaftState ps) (ReadSnapshot ps) \<lparr>pr_raftstate = [], pr_snapshot = []\<rparr>) i cfg5
   }"

text \<open>The persister of the new instance, with the snapshot that the tester reads from it.\<close>

definition fresh_saved ::
  "(bytes \<Rightarrow> (int \<times> 'c list) option) \<Rightarrow> nat \<Rightarrow> ('c, 'v, 'w) config \<Rightarrow> go_error + ('c, 'v, 'w) config" where
  "fresh_saved dec i cfg =
     res_bind (panics (slice_get (cf_saved cfg) i)) (\<lambda>p.
       case p of
         None \<Rightarrow> Inr (new_saved i MakePersister cfg)
       | Some a \<Rightarrow>
           res_bind (panics (slice_get (cf_persister_store cfg) a)) (\<lambda>ps.
             let cfg1 = new_saved i (Persister_Copy ps) cfg;
                 snapshot = ReadSnapshot (Persister_Copy ps)
             in if length snapshot > 0 then
                  res_bind (ingestSnap dec i (Some snapshot) (-1) (cf_logs cfg1)) (\<lambda>(err, logs).
                    if err \<noteq> NoErr then Inl TestFatal else Inr (cfg1\<lparr>cf_logs := logs\<rparr>))
                else Inr cfg1))"

text \<open>\<open>Make\<close> and the registration of the new instance as a server of the network.\<close>

definition launch ::
  "('v, 'w) Method list \<Rightarrow> name ClientEnd list \<Rightarrow> nat \<Rightarrow> ('c, 'v, 'w) config \<Rightarrow> ('c, 'v, 'w) config option" where
  "launch typ ends i cfg = do {
     p \<leftarrow> slice_get (cf_saved cfg) i;
     a \<leftarrow> p;
     rf \<leftarrow> Make (cf_persister_store cfg) ends i a;
     rafts \<leftarrow> slice_set (cf_rafts cfg) i (Some (length (cf_raft_store cfg)));
     let svc = MakeService ''Raft'' typ;
     let srv = AddService MakeServer svc;
     Some (cfg\<lparr>cf_rafts := rafts, cf_raft_store := cf_raft_store cfg @ [rf],
       cf_server_store := cf_server_store cfg @ [srv],
       cf_net := AddServer (SrvName i) (Some (length (cf_server_store cfg))) (cf_net cfg)\<rparr>)
   }"

definition start1 ::
  "(bytes \<Rightarrow> (int \<times> 'c list) option) \<Rightarrow> ('v, 'w) Method list \<Rightarrow> (nat \<Rightarrow> string) \<Rightarrow> nat \<Rightarrow> ('c, 'v, 'w) config \<Rightarrow>
   go_error + ('c, 'v, 'w) config" where
  "start1 dec typ rnd i cfg =
     res_bind (panics (crash1 i cfg)) (\<lambda>cfg1.
     let names = map rnd [0..<cf_n cfg1] in
     res_bind (panics (slice_set (cf_endnames cfg1) i (Some names))) (\<lambda>endnames.
     res_bind (make_ends False (map (\<lambda>j. (EndName (names ! j), SrvName j)) [0..<cf_n cfg1]) (cf_net cfg1)) (\<lambda>(rn, ends).
     res_bind (panics (slice_set (lg_lastApplied (cf_logs cfg1)) i 0)) (\<lambda>lastApplied.
     let cfg2 = cfg1\<lparr>cf_endnames := endnames, cf_net := rn,
       cf_logs := (cf_logs cfg1)\<lparr>lg_lastApplied := lastApplied\<rparr>\<rparr> in
     res_bind (fresh_saved dec i cfg2) (\<lambda>cfg3. panics (launch typ ends i cfg3))))))"

section \<open>The other operations\<close>

definition setunreliable :: "bool \<Rightarrow> ('c, 'v, 'w) config \<Rightarrow> ('c, 'v, 'w) config" where
  "setunreliable unrel cfg = cfg\<lparr>cf_net := Reliable (\<not> unrel) (cf_net cfg)\<rparr>"

definition setlongreordering :: "bool \<Rightarrow> ('c, 'v, 'w) config \<Rightarrow> ('c, 'v, 'w) config" where
  "setlongreordering longrel cfg = cfg\<lparr>cf_net := LongReordering longrel (cf_net cfg)\<rparr>"

definition make_config ::
  "(bytes \<Rightarrow> (int \<times> 'c list) option) \<Rightarrow> ('v, 'w) Method list \<Rightarrow> (nat \<Rightarrow> nat \<Rightarrow> string) \<Rightarrow> nat \<Rightarrow> bool \<Rightarrow>
   go_error + ('c, 'v, 'w) config" where
  "make_config dec typ rnd n unreliable =
     (let cfg = \<lparr>cf_finished = 0, cf_net = MakeNetwork, cf_n = n, cf_rafts = replicate n None,
          cf_connected = replicate n False, cf_saved = replicate n None, cf_endnames = replicate n None,
          cf_logs = logs_init n, cf_rpcs0 = 0, cf_cmds0 = 0, cf_bytes0 = 0, cf_maxIndex0 = 0,
          cf_raft_store = [], cf_persister_store = [], cf_server_store = []\<rparr>;
          cfg1 = setunreliable unreliable cfg;
          cfg2 = cfg1\<lparr>cf_net := LongDelays True (cf_net cfg1)\<rparr>
      in res_bind (for_each_res (\<lambda>i. start1 dec typ (rnd i) i) [0..<n] cfg2) (\<lambda>cfg3.
           panics (for_each connect [0..<n] cfg3)))"

definition checkTimeout :: "bool \<Rightarrow> nat \<Rightarrow> go_error + unit" where
  "checkTimeout failed seconds = (if \<not> failed \<and> seconds > 120 then Inl TestFatal else Inr ())"

definition checkFinished :: "('c, 'v, 'w) config \<Rightarrow> bool" where
  "checkFinished cfg \<longleftrightarrow> cf_finished cfg \<noteq> 0"

definition cleanup :: "bool \<Rightarrow> nat \<Rightarrow> ('c, 'v, 'w) config \<Rightarrow> go_error + ('c, 'v, 'w) config" where
  "cleanup failed seconds cfg =
     res_bind (panics (for_each kill_raft [0..<length (cf_rafts cfg)] (cfg\<lparr>cf_finished := 1\<rparr>))) (\<lambda>cfg1.
     res_bind (Cleanup (cf_net cfg1)) (\<lambda>rn.
     res_bind (checkTimeout failed seconds) (\<lambda>_. Inr (cfg1\<lparr>cf_net := rn\<rparr>))))"

definition rpcCount :: "nat \<Rightarrow> ('c, 'v, 'w) config \<Rightarrow> int option" where
  "rpcCount server cfg = Network_GetCount (cf_server_store cfg) (cf_net cfg) (SrvName server)"

definition rpcTotal :: "('c, 'v, 'w) config \<Rightarrow> int" where
  "rpcTotal cfg = GetTotalCount (cf_net cfg)"

definition bytesTotal :: "('c, 'v, 'w) config \<Rightarrow> int" where
  "bytesTotal cfg = GetTotalBytes (cf_net cfg)"

definition begin_test :: "('c, 'v, 'w) config \<Rightarrow> ('c, 'v, 'w) config" where
  "begin_test cfg = cfg\<lparr>cf_rpcs0 := rpcTotal cfg, cf_bytes0 := bytesTotal cfg, cf_cmds0 := 0,
     cf_maxIndex0 := lg_maxIndex (cf_logs cfg)\<rparr>"

text \<open>The numbers that \<open>end\<close> prints after the time: peers, RPCs, bytes and agreements.\<close>

definition end_test :: "bool \<Rightarrow> nat \<Rightarrow> ('c, 'v, 'w) config \<Rightarrow> go_error + (nat \<times> int \<times> int \<times> int) option" where
  "end_test failed seconds cfg =
     res_bind (checkTimeout failed seconds) (\<lambda>_.
       Inr (if \<not> failed then
              Some (cf_n cfg, rpcTotal cfg - cf_rpcs0 cfg, bytesTotal cfg - cf_bytes0 cfg,
                lg_maxIndex (cf_logs cfg) - cf_maxIndex0 cfg)
            else None))"

definition LogSize :: "('c, 'v, 'w) config \<Rightarrow> nat option" where
  "LogSize cfg = for_each (\<lambda>i logsize. do {
     p \<leftarrow> slice_get (cf_saved cfg) i;
     a \<leftarrow> p;
     ps \<leftarrow> slice_get (cf_persister_store cfg) a;
     let n = RaftStateSize ps;
     Some (if n > logsize then n else logsize)
   }) [0..<cf_n cfg] 0"

section \<open>Who can send\<close>

text \<open>
  The names of the end points: every server has none or one for each server; no name is used twice, and
  each is known to the network and connected to its server.
\<close>

definition names_inv :: "nat \<Rightarrow> string list option list \<Rightarrow> name Network \<Rightarrow> bool" where
  "names_inv n endnames rn \<longleftrightarrow> length endnames = n \<and> (\<forall>l. Some l \<in> set endnames \<longrightarrow> length l = n) \<and>
     (\<forall>i j i' j' e. endname_at endnames i j = Some e \<longrightarrow> endname_at endnames i' j' = Some e \<longrightarrow> i = i' \<and> j = j') \<and>
     (\<forall>i j e. endname_at endnames i j = Some e \<longrightarrow>
        e \<in> dom (nt_ends rn) \<and> nt_connections rn e = Some (Some (SrvName j)))"

text \<open>An end point can send exactly when it leads from a connected server to a connected server.\<close>

definition conn_inv :: "('c, 'v, 'w) config \<Rightarrow> bool" where
  "conn_inv cfg \<longleftrightarrow> names_inv (cf_n cfg) (cf_endnames cfg) (cf_net cfg) \<and>
     length (cf_connected cfg) = cf_n cfg \<and>
     (\<forall>e. end_on (cf_net cfg) e \<longleftrightarrow>
        (\<exists>i < cf_n cfg. \<exists>j < cf_n cfg. cf_connected cfg ! i \<and> cf_connected cfg ! j \<and>
           endname_at (cf_endnames cfg) i j = Some e))"

lemma endname_at_Some_iff:
  "endname_at endnames i j = Some e \<longleftrightarrow>
     i < length endnames \<and> (\<exists>l. endnames ! i = Some l \<and> j < length l \<and> e = EndName (l ! j))"
  by (auto simp: endname_at_def bind_eq_Some_conv slice_get_eq_Some_iff)

lemma names_inv_len:
  assumes "names_inv n endnames rn" and "i < n" and "endnames ! i = Some l"
  shows "length l = n"
  using assms unfolding names_inv_def by (metis nth_mem)

lemma names_inv_ex:
  assumes "names_inv n endnames rn" and "i < n" and "j < n" and "endnames ! i \<noteq> None"
  shows "endname_at endnames i j \<noteq> None"
proof -
  obtain l where l: "endnames ! i = Some l" using assms(4) by blast
  have "i < length endnames" using assms(1,2) by (simp add: names_inv_def)
  with l names_inv_len [OF assms(1,2) l] assms(3) endname_at_Some_iff [of endnames i j] show ?thesis by fastforce
qed

lemma names_inv_bounds:
  assumes "names_inv n endnames rn" and "endname_at endnames i j = Some e"
  shows "i < n \<and> j < n"
proof -
  have "length endnames = n" using assms(1) by (simp add: names_inv_def)
  with assms(2) names_inv_len [OF assms(1)] show ?thesis by (auto simp: endname_at_Some_iff)
qed

lemma names_inv_inj:
  assumes "names_inv n endnames rn" and "endname_at endnames i j = Some e" and "endname_at endnames i' j' = Some e"
  shows "i = i' \<and> j = j'"
  using assms unfolding names_inv_def by blast

lemma names_inv_frame:
  assumes "net_rest rn' = net_rest rn"
  shows "names_inv n endnames rn' \<longleftrightarrow> names_inv n endnames rn"
  unfolding names_inv_def net_rest_eqD(1,2) [OF assms] ..

lemma names_inv_AddServer [simp]: "names_inv n endnames (AddServer servername p rn) \<longleftrightarrow> names_inv n endnames rn"
  by (simp add: names_inv_def AddServer_def)

lemma connect_run:
  assumes "conn_inv cfg" and "i < cf_n cfg" and "\<forall>j < cf_n cfg. cf_endnames cfg ! j \<noteq> None"
  shows "\<exists>rn. connect i cfg = Some (cfg\<lparr>cf_connected := (cf_connected cfg)[i := True], cf_net := rn\<rparr>) \<and>
     net_rest rn = net_rest (cf_net cfg) \<and>
     conn_inv (cfg\<lparr>cf_connected := (cf_connected cfg)[i := True], cf_net := rn\<rparr>)"
proof -
  let ?n = "cf_n cfg" and ?C = "(cf_connected cfg)[i := True]" and ?at = "endname_at (cf_endnames cfg)"
  have names: "names_inv ?n (cf_endnames cfg) (cf_net cfg)" and len: "length (cf_connected cfg) = ?n"
    and on: "end_on (cf_net cfg) e \<longleftrightarrow> (\<exists>i < ?n. \<exists>j < ?n. cf_connected cfg ! i \<and> cf_connected cfg ! j \<and> ?at i j = Some e)"
    for e using assms(1) by (simp_all add: conn_inv_def)
  have at: "?at a b \<noteq> None" if "a < ?n" "b < ?n" for a b using names_inv_ex [OF names that] assms(3) that by blast
  obtain rn1 where rn1: "switch_loop (\<lambda>e. Enable e True) (slice_get ?C) (?at i) [0..<?n] (cf_net cfg) = Some rn1"
      "net_rest rn1 = net_rest (cf_net cfg)"
      "\<And>e. end_on rn1 e \<longleftrightarrow>
         (if \<exists>j < ?n. slice_get ?C j = Some True \<and> ?at i j = Some e then True else end_on (cf_net cfg) e)"
    by (rule net_switch_range [of ?n "slice_get ?C" "?at i" True "cf_net cfg"]) (use at assms(2) len in simp_all)
  obtain rn2 where rn2: "switch_loop (\<lambda>e. Enable e True) (slice_get ?C) (\<lambda>j. ?at j i) [0..<?n] rn1 = Some rn2"
      "net_rest rn2 = net_rest rn1"
      "\<And>e. end_on rn2 e \<longleftrightarrow> (if \<exists>j < ?n. slice_get ?C j = Some True \<and> ?at j i = Some e then True else end_on rn1 e)"
    by (rule net_switch_range [of ?n "slice_get ?C" "\<lambda>j. ?at j i" True rn1]) (use at assms(2) len in simp_all)
  have "end_on rn2 e \<longleftrightarrow> (\<exists>i < ?n. \<exists>j < ?n. ?C ! i \<and> ?C ! j \<and> ?at i j = Some e)" for e
    unfolding rn2(3) rn1(3) on using assms(2) len by (auto simp: slice_get_def nth_list_update)
  with names names_inv_frame [of rn2 "cf_net cfg"] rn1(2) rn2(2) len
  have "conn_inv (cfg\<lparr>cf_connected := ?C, cf_net := rn2\<rparr>)" by (simp add: conn_inv_def)
  with rn1 rn2 assms(2) len show ?thesis by (auto simp: connect_def)
qed

lemma disconnect_run:
  assumes "conn_inv cfg" and "i < cf_n cfg"
  shows "\<exists>rn. disconnect i cfg = Some (cfg\<lparr>cf_connected := (cf_connected cfg)[i := False], cf_net := rn\<rparr>) \<and>
     net_rest rn = net_rest (cf_net cfg) \<and>
     conn_inv (cfg\<lparr>cf_connected := (cf_connected cfg)[i := False], cf_net := rn\<rparr>)"
proof -
  let ?n = "cf_n cfg" and ?C = "(cf_connected cfg)[i := False]" and ?at = "endname_at (cf_endnames cfg)"
  let ?has = "has_names (cf_endnames cfg)"
  have names: "names_inv ?n (cf_endnames cfg) (cf_net cfg)" and len: "length (cf_connected cfg) = ?n"
    and on: "end_on (cf_net cfg) e \<longleftrightarrow> (\<exists>i < ?n. \<exists>j < ?n. cf_connected cfg ! i \<and> cf_connected cfg ! j \<and> ?at i j = Some e)"
    for e using assms(1) by (simp_all add: conn_inv_def)
  have has: "\<exists>c. ?has a = Some c \<and> (c \<longrightarrow> ?at a b \<noteq> None)" if "a < ?n" "b < ?n" for a b
    using names_inv_ex [OF names that] names that by (auto simp: has_names_def names_inv_def)
  have has_at: "?has a = Some True" if "?at a b = Some e" for a b e
    using that by (auto simp: has_names_def endname_at_def bind_eq_Some_conv)
  obtain rn1 where rn1: "switch_loop (\<lambda>e. Enable e False) (\<lambda>j. ?has i) (?at i) [0..<?n] (cf_net cfg) = Some rn1"
      "net_rest rn1 = net_rest (cf_net cfg)"
      "\<And>e. end_on rn1 e \<longleftrightarrow>
         (if \<exists>j < ?n. ?has i = Some True \<and> ?at i j = Some e then False else end_on (cf_net cfg) e)"
    by (rule net_switch_range [of ?n "\<lambda>j. ?has i" "?at i" False "cf_net cfg"]) (use has assms(2) in simp_all)
  obtain rn2 where rn2: "switch_loop (\<lambda>e. Enable e False) ?has (\<lambda>j. ?at j i) [0..<?n] rn1 = Some rn2"
      "net_rest rn2 = net_rest rn1"
      "\<And>e. end_on rn2 e \<longleftrightarrow> (if \<exists>j < ?n. ?has j = Some True \<and> ?at j i = Some e then False else end_on rn1 e)"
    by (rule net_switch_range [of ?n ?has "\<lambda>j. ?at j i" False rn1]) (use has assms(2) in simp_all)
  have "end_on rn2 e \<longleftrightarrow> (\<exists>i < ?n. \<exists>j < ?n. ?C ! i \<and> ?C ! j \<and> ?at i j = Some e)" for e
  proof -
    have "end_on rn2 e \<longleftrightarrow> (\<nexists>j. ?at i j = Some e) \<and> (\<nexists>j. ?at j i = Some e) \<and> end_on (cf_net cfg) e"
      unfolding rn2(3) rn1(3) using has_at names_inv_bounds [OF names] by (metis (no_types, lifting))
    also have "\<dots> \<longleftrightarrow> (\<exists>a < ?n. \<exists>b < ?n. ?C ! a \<and> ?C ! b \<and> ?at a b = Some e)"
      (is "?L \<longleftrightarrow> ?R")
    proof
      assume L: ?L
      then obtain a b where ab: "a < ?n" "b < ?n" "cf_connected cfg ! a" "cf_connected cfg ! b" "?at a b = Some e"
        unfolding on by blast
      with L have "a \<noteq> i" "b \<noteq> i" by blast+
      with ab have "?C ! a" "?C ! b" by simp_all
      with ab show ?R by blast
    next
      assume ?R
      then obtain a b where ab: "a < ?n" "b < ?n" "?C ! a" "?C ! b" "?at a b = Some e" by blast
      then have ne: "a \<noteq> i" "b \<noteq> i" using assms(2) len by auto
      with ab have "end_on (cf_net cfg) e" unfolding on by auto
      moreover have "?at i j \<noteq> Some e" "?at j i \<noteq> Some e" for j using names_inv_inj [OF names ab(5)] ne by blast+
      ultimately show ?L by blast
    qed
    finally show ?thesis .
  qed
  with names names_inv_frame [of rn2 "cf_net cfg"] rn1(2) rn2(2) len
  have "conn_inv (cfg\<lparr>cf_connected := ?C, cf_net := rn2\<rparr>)" by (simp add: conn_inv_def)
  with rn1 rn2 assms(2) len show ?thesis by (auto simp: disconnect_def)
qed

section \<open>Who owns which persister\<close>

text \<open>
  Pointers are valid, no two servers share a persister, and an instance that holds the persister of server \<open>i\<close> is
  the current instance of \<open>i\<close>; the servers in \<open>X\<close> are excepted from the last clause.
\<close>

definition store_wf :: "('c, 'v, 'w) config \<Rightarrow> bool" where
  "store_wf cfg \<longleftrightarrow> length (cf_rafts cfg) = cf_n cfg \<and> length (cf_saved cfg) = cf_n cfg \<and>
     (\<forall>i r. i < cf_n cfg \<longrightarrow> cf_rafts cfg ! i = Some r \<longrightarrow> r < length (cf_raft_store cfg)) \<and>
     (\<forall>i p. i < cf_n cfg \<longrightarrow> cf_saved cfg ! i = Some p \<longrightarrow> p < length (cf_persister_store cfg)) \<and>
     (\<forall>r < length (cf_raft_store cfg). rf_persister (cf_raft_store cfg ! r) < length (cf_persister_store cfg)) \<and>
     (\<forall>i j p. i < cf_n cfg \<longrightarrow> j < cf_n cfg \<longrightarrow> cf_saved cfg ! i = Some p \<longrightarrow> cf_saved cfg ! j = Some p \<longrightarrow> i = j)"

definition owned :: "nat set \<Rightarrow> ('c, 'v, 'w) config \<Rightarrow> bool" where
  "owned X cfg \<longleftrightarrow>
     (\<forall>i r. i < cf_n cfg \<longrightarrow> i \<notin> X \<longrightarrow> r < length (cf_raft_store cfg) \<longrightarrow>
        cf_saved cfg ! i = Some (rf_persister (cf_raft_store cfg ! r)) \<longrightarrow> cf_rafts cfg ! i = Some r)"

definition store_inv :: "nat set \<Rightarrow> ('c, 'v, 'w) config \<Rightarrow> bool" where
  "store_inv X cfg \<longleftrightarrow> store_wf cfg \<and> owned X cfg"

text \<open>What is saved for a server.\<close>

definition content :: "('c, 'v, 'w) config \<Rightarrow> nat \<Rightarrow> (bytes \<times> bytes) option" where
  "content cfg i = do {
     p \<leftarrow> slice_get (cf_saved cfg) i;
     a \<leftarrow> p;
     ps \<leftarrow> slice_get (cf_persister_store cfg) a;
     Some (ReadRaftState ps, ReadSnapshot ps)
   }"

text \<open>The part of the state that the connections depend on.\<close>

definition conn_view :: "('c, 'v, 'w) config \<Rightarrow> nat \<times> string list option list \<times> bool list \<times> (name \<rightharpoonup> name ClientEnd) \<times>
  (name \<rightharpoonup> name option) \<times> (name \<rightharpoonup> bool)" where
  "conn_view cfg = (cf_n cfg, cf_endnames cfg, cf_connected cfg, nt_ends (cf_net cfg), nt_connections (cf_net cfg),
     nt_enabled (cf_net cfg))"

lemma conn_inv_cong: "conn_view cfg' = conn_view cfg \<Longrightarrow> conn_inv cfg' \<longleftrightarrow> conn_inv cfg"
  by (simp add: conn_view_def conn_inv_def names_inv_def end_on_def)

lemma store_inv_cong:
  assumes "cf_n cfg' = cf_n cfg" and "cf_rafts cfg' = cf_rafts cfg" and "cf_saved cfg' = cf_saved cfg"
    and "length (cf_persister_store cfg') = length (cf_persister_store cfg)"
    and "map rf_persister (cf_raft_store cfg') = map rf_persister (cf_raft_store cfg)"
  shows "store_inv X cfg' \<longleftrightarrow> store_inv X cfg"
proof -
  have "length (cf_raft_store cfg') = length (cf_raft_store cfg)"
    "\<And>k. k < length (cf_raft_store cfg) \<Longrightarrow> rf_persister (cf_raft_store cfg' ! k) = rf_persister (cf_raft_store cfg ! k)"
    using assms(5) map_eq_imp_length_eq [OF assms(5)] by (auto simp: list_eq_iff_nth_eq)
  with assms(1-4) show ?thesis unfolding store_inv_def store_wf_def owned_def by simp
qed

lemma store_inv_net [simp]:
  "store_inv X (cfg\<lparr>cf_net := rn\<rparr>) \<longleftrightarrow> store_inv X cfg"
  "store_inv X (cfg\<lparr>cf_connected := C\<rparr>) \<longleftrightarrow> store_inv X cfg"
  by (rule store_inv_cong; simp)+

text \<open>A new persister for \<open>i\<close>.\<close>

lemma new_saved_sel [simp]:
  "cf_n (new_saved i ps cfg) = cf_n cfg" "cf_rafts (new_saved i ps cfg) = cf_rafts cfg"
  "cf_raft_store (new_saved i ps cfg) = cf_raft_store cfg" "cf_net (new_saved i ps cfg) = cf_net cfg"
  "cf_connected (new_saved i ps cfg) = cf_connected cfg" "cf_endnames (new_saved i ps cfg) = cf_endnames cfg"
  "cf_persister_store (new_saved i ps cfg) = cf_persister_store cfg @ [ps]"
  "cf_saved (new_saved i ps cfg) = (cf_saved cfg)[i := Some (length (cf_persister_store cfg))]"
  "cf_logs (new_saved i ps cfg) = cf_logs cfg"
  by (simp_all add: new_saved_def)

lemma new_saved_store:
  assumes "store_inv X cfg"
  shows "store_inv (X - {i}) (new_saved i ps cfg)"
proof -
  let ?a = "length (cf_persister_store cfg)"
  have len: "length (cf_rafts cfg) = cf_n cfg" "length (cf_saved cfg) = cf_n cfg"
    and cur: "\<And>k r. k < cf_n cfg \<Longrightarrow> cf_rafts cfg ! k = Some r \<Longrightarrow> r < length (cf_raft_store cfg)"
    and old: "\<And>k p. k < cf_n cfg \<Longrightarrow> cf_saved cfg ! k = Some p \<Longrightarrow> p < ?a"
    and held: "\<And>r. r < length (cf_raft_store cfg) \<Longrightarrow> rf_persister (cf_raft_store cfg ! r) < ?a"
    and dist: "\<And>k j p. k < cf_n cfg \<Longrightarrow> j < cf_n cfg \<Longrightarrow> cf_saved cfg ! k = Some p \<Longrightarrow> cf_saved cfg ! j = Some p \<Longrightarrow> k = j"
    and own: "\<And>k r. k < cf_n cfg \<Longrightarrow> k \<notin> X \<Longrightarrow> r < length (cf_raft_store cfg) \<Longrightarrow>
      cf_saved cfg ! k = Some (rf_persister (cf_raft_store cfg ! r)) \<Longrightarrow> cf_rafts cfg ! k = Some r"
    using assms unfolding store_inv_def store_wf_def owned_def by blast+
  have nth: "(cf_saved cfg)[i := Some ?a] ! k = (if k = i then Some ?a else cf_saved cfg ! k)" if "k < cf_n cfg" for k
    using that len by (simp add: nth_list_update)
  show ?thesis unfolding store_inv_def store_wf_def owned_def new_saved_sel
    using len by (auto simp: nth dest: cur old held intro: own less_SucI split: if_splits)
      (use old held dist in fastforce)+
qed

lemma new_saved_content:
  assumes "store_inv X cfg" and "k < cf_n cfg"
  shows "content (new_saved i ps cfg) k = (if k = i then Some (ReadRaftState ps, ReadSnapshot ps) else content cfg k)"
proof -
  have "length (cf_saved cfg) = cf_n cfg" "cf_saved cfg ! k = Some p \<Longrightarrow> p < length (cf_persister_store cfg)" for p
    using assms unfolding store_inv_def store_wf_def owned_def by blast+
  with assms(2) show ?thesis by (cases "cf_saved cfg ! k") (auto simp: content_def nth_append)
qed

text \<open>The operations that replace a persister, kill an instance or start one.\<close>

lemma replace_saved_ok:
  assumes "replace_saved f i cfg = Some cfg'" and "store_inv X cfg"
  shows "store_inv (X - {i}) cfg'" and "conn_view cfg' = conn_view cfg"
    and "k < cf_n cfg \<Longrightarrow> (\<And>ps. ReadRaftState (f ps) = ReadRaftState ps \<and> ReadSnapshot (f ps) = ReadSnapshot ps) \<Longrightarrow>
      content cfg' k = content cfg k"
proof -
  from assms(1) obtain p where p: "slice_get (cf_saved cfg) i = Some p"
    by (auto simp: replace_saved_def bind_eq_Some_conv)
  show "store_inv (X - {i}) cfg'"
  proof (cases p)
    case None
    with p assms(1) have "cfg' = cfg" "cf_saved cfg ! i = None" by (auto simp: replace_saved_def slice_get_eq_Some_iff)
    with assms(2) show ?thesis by (auto simp: store_inv_def owned_def)
  next
    case (Some a)
    with p assms(1) new_saved_store [OF assms(2)] show ?thesis by (auto simp: replace_saved_def bind_eq_Some_conv)
  qed
  show "conn_view cfg' = conn_view cfg"
    using assms(1) by (auto simp: replace_saved_def bind_eq_Some_conv conn_view_def split: option.splits)
  show "content cfg' k = content cfg k"
    if "k < cf_n cfg" "\<And>ps. ReadRaftState (f ps) = ReadRaftState ps \<and> ReadSnapshot (f ps) = ReadSnapshot ps"
  proof (cases p)
    case None
    with p assms(1) show ?thesis by (auto simp: replace_saved_def)
  next
    case (Some a)
    with p assms(1) obtain ps where "slice_get (cf_persister_store cfg) a = Some ps" "cfg' = new_saved i (f ps) cfg"
      by (auto simp: replace_saved_def bind_eq_Some_conv)
    with new_saved_content [OF assms(2) that(1)] that(2) p Some show ?thesis by (simp add: content_def)
  qed
qed

lemma kill_raft_ok:
  assumes "kill_raft i cfg = Some cfg'" and "store_inv X cfg"
  shows "store_inv X cfg'" and "conn_view cfg' = conn_view cfg" and "content cfg' = content cfg"
proof -
  from assms(1) have "cfg' = cfg \<or> (\<exists>r < length (cf_raft_store cfg).
      cfg' = cfg\<lparr>cf_raft_store := (cf_raft_store cfg)[r := Kill (cf_raft_store cfg ! r)]\<rparr>)"
    by (auto simp: kill_raft_def bind_eq_Some_conv slice_get_eq_Some_iff split: option.splits)
  then have c: "cfg' = cfg\<lparr>cf_raft_store := cf_raft_store cfg'\<rparr>"
    and r: "map rf_persister (cf_raft_store cfg') = map rf_persister (cf_raft_store cfg)"
    by (auto simp: Kill_def map_update list_eq_iff_nth_eq nth_list_update)
  show "store_inv X cfg'" using assms(2) by (subst store_inv_cong [OF _ _ _ _ r]) (subst c, simp)+
  show "conn_view cfg' = conn_view cfg" "content cfg' = content cfg" by (subst c, simp add: conn_view_def content_def fun_eq_iff)+
qed

lemma conn_viewD:
  assumes "conn_view cfg' = conn_view cfg"
  shows "cf_n cfg' = cf_n cfg" "cf_endnames cfg' = cf_endnames cfg" "cf_connected cfg' = cf_connected cfg"
  using assms by (simp_all add: conn_view_def)

lemma drop_raft:
  assumes "store_inv X cfg"
  shows "store_inv (insert i X) (cfg\<lparr>cf_rafts := (cf_rafts cfg)[i := None]\<rparr>)"
proof -
  have len: "length (cf_rafts cfg) = cf_n cfg" using assms by (simp add: store_inv_def store_wf_def)
  have nth: "(cf_rafts cfg)[i := None] ! k = Some r \<longleftrightarrow> k \<noteq> i \<and> cf_rafts cfg ! k = Some r" if "k < cf_n cfg" for k r
    using that len by (cases "k = i") auto
  let ?c = "cfg\<lparr>cf_rafts := (cf_rafts cfg)[i := None]\<rparr>"
  have sel: "cf_n ?c = cf_n cfg" "cf_rafts ?c = (cf_rafts cfg)[i := None]" "cf_saved ?c = cf_saved cfg"
    "cf_raft_store ?c = cf_raft_store cfg" "cf_persister_store ?c = cf_persister_store cfg" by simp_all
  have "store_wf ?c" using assms nth unfolding store_inv_def store_wf_def sel length_list_update by blast
  moreover have "owned (insert i X) ?c" using assms nth unfolding store_inv_def owned_def sel by blast
  ultimately show ?thesis by (simp add: store_inv_def)
qed

lemma crash1_ok:
  assumes "crash1 i cfg = Some cfg'" and "conn_inv cfg" and "store_inv {} cfg"
  shows "i < cf_n cfg \<and> conn_inv cfg' \<and> store_inv {} cfg' \<and> cf_n cfg' = cf_n cfg \<and>
     cf_endnames cfg' = cf_endnames cfg \<and> cf_connected cfg' = (cf_connected cfg)[i := False] \<and>
     (\<forall>k < cf_n cfg. content cfg' k = content cfg k)"
proof -
  from assms(1) have i: "i < cf_n cfg"
    using assms(2) by (auto simp: crash1_def disconnect_def bind_eq_Some_conv slice_set_eq_Some_iff conn_inv_def)
  let ?C = "(cf_connected cfg)[i := False]"
  obtain rn where dis: "disconnect i cfg = Some (cfg\<lparr>cf_connected := ?C, cf_net := rn\<rparr>)"
    and inv1: "conn_inv (cfg\<lparr>cf_connected := ?C, cf_net := rn\<rparr>)" using disconnect_run [OF assms(2) i] by blast
  let ?c2 = "cfg\<lparr>cf_connected := ?C, cf_net := DeleteServer (SrvName i) rn\<rparr>"
  from assms(1) dis obtain c3 c4 where c3: "replace_saved Persister_Copy i ?c2 = Some c3"
    and c4: "kill_raft i c3 = Some c4"
    and c': "replace_saved (\<lambda>ps. Save (ReadRaftState ps) (ReadSnapshot ps) \<lparr>pr_raftstate = [], pr_snapshot = []\<rparr>) i
      (c4\<lparr>cf_rafts := (cf_rafts c4)[i := None]\<rparr>) = Some cfg'"
    by (auto simp: crash1_def bind_eq_Some_conv Let_def)
  let ?c5 = "c4\<lparr>cf_rafts := (cf_rafts c4)[i := None]\<rparr>"
  have inv2: "conn_inv ?c2" using inv1 by (subst conn_inv_cong) (simp_all add: conn_view_def DeleteServer_def)
  have "store_inv {} ?c2" using assms(3) by (subst store_inv_cong) simp_all
  note s3 = replace_saved_ok [OF c3 this]
  note s4 = kill_raft_ok [OF c4 s3(1)]
  have "store_inv {i} ?c5" using drop_raft [OF s4(1)] by simp
  note s5 = replace_saved_ok [OF c' this]
  have view: "conn_view cfg' = conn_view ?c2" using s3(2) s4(2) s5(2) by (simp add: conn_view_def)
  have "content ?c5 = content c4" by (simp add: content_def fun_eq_iff)
  moreover have "content ?c2 = content cfg" by (simp add: content_def fun_eq_iff)
  moreover have "cf_n ?c5 = cf_n cfg" using s3(2) s4(2) by (simp add: conn_view_def)
  ultimately have "content cfg' k = content cfg k" if "k < cf_n cfg" for k
    using that s3(3) [of k] s4(3) s5(3) [of k]
    by (simp add: persister.state_copy persister.snap_copy persister.state_save persister.snap_save)
  then show ?thesis using i s5(1) conn_viewD [OF view] inv2 conn_inv_cong [OF view] by simp
qed

lemma fresh_saved_ok:
  assumes "fresh_saved dec i cfg = Inr cfg'" and "store_inv {} cfg"
  shows "\<exists>ps logs. cfg' = (new_saved i ps cfg)\<lparr>cf_logs := logs\<rparr> \<and>
     (ReadRaftState ps, ReadSnapshot ps) = (case content cfg i of None \<Rightarrow> ([], []) | Some c \<Rightarrow> c)"
proof -
  from assms(1) obtain p where p: "slice_get (cf_saved cfg) i = Some p"
    by (auto simp: fresh_saved_def res_bind_Inr_iff panics_Inr_iff)
  show ?thesis
  proof (cases p)
    case None
    with p assms(1) have "cfg' = new_saved i MakePersister cfg" by (simp add: fresh_saved_def)
    then have "cfg' = (new_saved i MakePersister cfg)\<lparr>cf_logs := cf_logs cfg\<rparr>" by (simp add: new_saved_def)
    moreover have "content cfg i = None" using None p by (simp add: content_def)
    ultimately show ?thesis by (auto simp: MakePersister_def ReadRaftState_def ReadSnapshot_def)
  next
    case (Some a)
    with p assms(1) obtain ps where ps: "slice_get (cf_persister_store cfg) a = Some ps"
      by (auto simp: fresh_saved_def res_bind_Inr_iff panics_Inr_iff)
    let ?c = "new_saved i (Persister_Copy ps) cfg"
    from p Some ps assms(1) have "cfg' = ?c \<or> (\<exists>logs. cfg' = ?c\<lparr>cf_logs := logs\<rparr>)"
      by (auto simp: fresh_saved_def res_bind_Inr_iff Let_def split: if_splits)
    moreover have "?c = ?c\<lparr>cf_logs := cf_logs ?c\<rparr>" by simp
    ultimately obtain logs where cfg': "cfg' = ?c\<lparr>cf_logs := logs\<rparr>" by blast
    have "content cfg i = Some (ReadRaftState ps, ReadSnapshot ps)" using Some p ps by (simp add: content_def)
    with cfg' show ?thesis by (auto simp: persister.state_copy persister.snap_copy)
  qed
qed

lemma launch_ok:
  assumes "launch typ ends i cfg = Some cfg'" and "store_inv {} cfg" and "cf_saved cfg ! i = Some p"
    and "\<forall>r < length (cf_raft_store cfg). rf_persister (cf_raft_store cfg ! r) \<noteq> p"
  shows "store_inv {} cfg' \<and> conn_view cfg' = conn_view cfg \<and> content cfg' = content cfg \<and>
     cf_rafts cfg' ! i = Some (length (cf_raft_store cfg)) \<and> cf_saved cfg' = cf_saved cfg \<and>
     (\<exists>rf. cf_raft_store cfg' = cf_raft_store cfg @ [rf] \<and> rf_persister rf = p)"
proof -
  from assms(1) have i: "i < length (cf_saved cfg)" by (auto simp: launch_def bind_eq_Some_conv slice_get_eq_Some_iff)
  with assms(1,3) obtain rf rafts where rf: "Make (cf_persister_store cfg) ends i p = Some rf"
    and rafts: "slice_set (cf_rafts cfg) i (Some (length (cf_raft_store cfg))) = Some rafts"
    and cfg': "cfg' = cfg\<lparr>cf_rafts := rafts, cf_raft_store := cf_raft_store cfg @ [rf],
      cf_server_store := cf_server_store cfg @ [AddService MakeServer (MakeService ''Raft'' typ)],
      cf_net := AddServer (SrvName i) (Some (length (cf_server_store cfg))) (cf_net cfg)\<rparr>"
    by (auto simp: launch_def bind_eq_Some_conv Let_def)
  have p: "rf_persister rf = p" "p < length (cf_persister_store cfg)"
    using rf by (auto simp: Make_def readPersist_def bind_eq_Some_conv slice_get_eq_Some_iff)
  have r: "rafts = (cf_rafts cfg)[i := Some (length (cf_raft_store cfg))]" "i < length (cf_rafts cfg)"
    using rafts by (auto simp: slice_set_eq_Some_iff)
  have len: "length (cf_rafts cfg) = cf_n cfg" "length (cf_saved cfg) = cf_n cfg"
    and cur: "\<And>k r. k < cf_n cfg \<Longrightarrow> cf_rafts cfg ! k = Some r \<Longrightarrow> r < length (cf_raft_store cfg)"
    and old: "\<And>k q. k < cf_n cfg \<Longrightarrow> cf_saved cfg ! k = Some q \<Longrightarrow> q < length (cf_persister_store cfg)"
    and held: "\<And>r. r < length (cf_raft_store cfg) \<Longrightarrow> rf_persister (cf_raft_store cfg ! r) < length (cf_persister_store cfg)"
    and dist: "\<And>k j p. k < cf_n cfg \<Longrightarrow> j < cf_n cfg \<Longrightarrow> cf_saved cfg ! k = Some p \<Longrightarrow> cf_saved cfg ! j = Some p \<Longrightarrow> k = j"
    and own: "\<And>k r. k < cf_n cfg \<Longrightarrow> r < length (cf_raft_store cfg) \<Longrightarrow>
      cf_saved cfg ! k = Some (rf_persister (cf_raft_store cfg ! r)) \<Longrightarrow> cf_rafts cfg ! k = Some r"
    using assms(2) unfolding store_inv_def store_wf_def owned_def by blast+
  have "store_wf cfg'"
    unfolding store_wf_def cfg' r(1) using len r(2) p held dist
    by (auto simp: nth_append nth_list_update less_SucI dest: cur old split: if_splits)
  moreover have "owned {} cfg'"
    unfolding owned_def cfg' r(1) using len r(2) p(1) assms(3,4) dist own
    by (auto simp: nth_append nth_list_update less_Suc_eq split: if_splits)
  ultimately show ?thesis using r p(1)
    by (auto simp: store_inv_def cfg' conn_view_def content_def AddServer_def fun_eq_iff)
qed

text \<open>Fresh end points for a server that is not connected.\<close>

lemma endname_at_update:
  assumes "i < length endnames"
  shows "endname_at (endnames[i := Some names]) a b =
     (if a = i then (if b < length names then Some (EndName (names ! b)) else None) else endname_at endnames a b)"
  using assms by (auto simp: endname_at_def slice_get_def)

lemma new_names:
  assumes inv: "names_inv n endnames rn" and i: "i < n" and len: "length names = n"
    and mk: "make_ends up (map (\<lambda>j. (EndName (names ! j), SrvName j)) [0..<n]) rn = Inr (rn', ends)"
  shows "names_inv n (endnames[i := Some names]) rn'"
    and "end_on rn' e \<longleftrightarrow> (if \<exists>j < n. e = EndName (names ! j) then up else end_on rn e)"
    and "e \<in> dom (nt_ends rn) \<Longrightarrow> j < n \<Longrightarrow> e \<noteq> EndName (names ! j)"
proof -
  let ?ps = "map (\<lambda>j. (EndName (names ! j), SrvName j)) [0..<n]"
  have new: "fst ` set ?ps = {EndName (names ! j) |j. j < n}" by force
  note ok = make_ends_ok [OF mk]
  have inj: "j = j'" if "names ! j = names ! j'" "j < n" "j' < n" for j j'
  proof -
    from ok have "distinct (map fst ?ps)" by blast
    then have "distinct (map (\<lambda>j. EndName (names ! j)) [0..<n])" by (simp add: comp_def)
    with that show ?thesis by (simp add: distinct_map inj_on_def)
  qed
  from ok have fresh: "nt_ends rn (EndName (names ! j)) = None" if "j < n" for j using that unfolding new by blast
  then show "e \<in> dom (nt_ends rn) \<Longrightarrow> j < n \<Longrightarrow> e \<noteq> EndName (names ! j)" by auto
  from ok show "end_on rn' e \<longleftrightarrow> (if \<exists>j < n. e = EndName (names ! j) then up else end_on rn e)"
    unfolding new by (auto split: if_splits)
  have E: "length endnames = n" using inv by (simp add: names_inv_def)
  have old: "e \<in> dom (nt_ends rn) \<and> nt_connections rn e = Some (Some (SrvName b))" if "endname_at endnames a b = Some e" for a b e
    using inv that unfolding names_inv_def by blast
  have old': "e \<in> dom (nt_ends rn') \<and> nt_connections rn' e = Some (Some (SrvName b))" if "endname_at endnames a b = Some e" for a b e
  proof -
    have "e \<notin> fst ` set ?ps" using fresh old [OF that] unfolding new by auto
    with ok old [OF that] show ?thesis by auto
  qed
  have new': "EndName (names ! b) \<in> dom (nt_ends rn') \<and> nt_connections rn' (EndName (names ! b)) = Some (Some (SrvName b))"
    if "b < n" for b
  proof -
    have p: "(EndName (names ! b), SrvName b) \<in> set ?ps" using that by simp
    have "dom (nt_ends rn') = dom (nt_ends rn) \<union> fst ` set ?ps"
      "\<forall>e s. (e, s) \<in> set ?ps \<longrightarrow> nt_connections rn' e = Some (Some s)" using ok by blast+
    with p that show ?thesis unfolding new by blast
  qed
  have at': "endname_at (endnames[i := Some names]) a b = Some e \<longleftrightarrow>
      (if a = i then b < n \<and> EndName (names ! b) = e else endname_at endnames a b = Some e)" for a b e
    using i len E by (simp add: endname_at_update)
  have "a = a' \<and> b = b'"
    if "endname_at (endnames[i := Some names]) a b = Some e" "endname_at (endnames[i := Some names]) a' b' = Some e" for a b a' b' e
  proof -
    have clash: False if "endname_at endnames c d = Some (EndName (names ! j))" "j < n" for c d j
      using old [OF that(1)] fresh [OF that(2)] by auto
    show ?thesis
    proof (cases "a = i"; cases "a' = i")
      assume "a = i" "a' = i"
      with that show ?thesis by (auto simp: at' intro: inj)
    next
      assume "a = i" "a' \<noteq> i"
      with that clash show ?thesis by (auto simp: at')
    next
      assume "a \<noteq> i" "a' = i"
      with that clash show ?thesis by (auto simp: at')
    next
      assume "a \<noteq> i" "a' \<noteq> i"
      with that names_inv_inj [OF inv] show ?thesis by (simp add: at')
    qed
  qed
  moreover have "e \<in> dom (nt_ends rn') \<and> nt_connections rn' e = Some (Some (SrvName b))"
    if "endname_at (endnames[i := Some names]) a b = Some e" for a b e
    using that old' [of a b e] new' [of b] unfolding at' by (cases "a = i") auto
  moreover have "length l = n" if "Some l \<in> set (endnames[i := Some names])" for l
    using that inv len set_update_subset_insert [of endnames i "Some names"] by (auto simp: names_inv_def)
  ultimately show "names_inv n (endnames[i := Some names]) rn'" using E unfolding names_inv_def by auto
qed

lemma start1_ok:
  assumes "start1 dec typ rnd i cfg = Inr cfg'" and "conn_inv cfg" and "store_inv {} cfg"
  shows "i < cf_n cfg \<and> conn_inv cfg' \<and> store_inv {} cfg' \<and> cf_n cfg' = cf_n cfg \<and>
     cf_connected cfg' = (cf_connected cfg)[i := False] \<and>
     cf_endnames cfg' = (cf_endnames cfg)[i := Some (map rnd [0..<cf_n cfg])] \<and>
     (\<exists>r. cf_rafts cfg' ! i = Some r \<and> r < length (cf_raft_store cfg') \<and>
        cf_saved cfg' ! i = Some (rf_persister (cf_raft_store cfg' ! r))) \<and>
     (\<forall>k < cf_n cfg. content cfg' k = (if k = i \<and> content cfg i = None then Some ([], []) else content cfg k))"
proof -
  let ?names = "map rnd [0..<cf_n cfg]"
  from assms(1) obtain c1 where c1: "crash1 i cfg = Some c1"
    by (auto simp: start1_def res_bind_Inr_iff panics_Inr_iff)
  from crash1_ok [OF c1 assms(2,3)] have i: "i < cf_n cfg" and inv1: "conn_inv c1" and st1: "store_inv {} c1"
    and n1: "cf_n c1 = cf_n cfg" and E1: "cf_endnames c1 = cf_endnames cfg"
    and C1: "cf_connected c1 = (cf_connected cfg)[i := False]"
    and cont1: "\<forall>k < cf_n cfg. content c1 k = content cfg k" by auto
  have len: "length (cf_endnames cfg) = cf_n cfg" "length (cf_connected cfg) = cf_n cfg"
    using assms(2) by (simp_all add: conn_inv_def names_inv_def)
  let ?E = "(cf_endnames cfg)[i := Some ?names]"
  from assms(1) i len obtain rn ends la c3
    where mk: "make_ends False (map (\<lambda>j. (EndName (?names ! j), SrvName j)) [0..<cf_n cfg]) (cf_net c1) = Inr (rn, ends)"
      and c3: "fresh_saved dec i (c1\<lparr>cf_endnames := ?E, cf_net := rn, cf_logs := (cf_logs c1)\<lparr>lg_lastApplied := la\<rparr>\<rparr>) = Inr c3"
      and l: "launch typ ends i c3 = Some cfg'"
    by (auto simp: start1_def c1 n1 E1 Let_def res_bind_Inr_iff panics_Inr_iff)
  let ?c2 = "c1\<lparr>cf_endnames := ?E, cf_net := rn, cf_logs := (cf_logs c1)\<lparr>lg_lastApplied := la\<rparr>\<rparr>"
  have nm: "names_inv (cf_n cfg) (cf_endnames cfg) (cf_net c1)" using inv1 by (simp add: conn_inv_def n1 E1)
  note new = new_names [OF nm i _ mk, simplified]
  have inv2: "conn_inv ?c2"
  proof -
    have "end_on rn e \<longleftrightarrow> (\<exists>a < cf_n cfg. \<exists>b < cf_n cfg. cf_connected c1 ! a \<and> cf_connected c1 ! b \<and> endname_at ?E a b = Some e)" for e
    proof -
      have on1: "end_on (cf_net c1) e \<longleftrightarrow> (\<exists>a < cf_n cfg. \<exists>b < cf_n cfg. cf_connected c1 ! a \<and> cf_connected c1 ! b \<and>
          endname_at (cf_endnames cfg) a b = Some e)" using inv1 by (simp add: conn_inv_def n1 E1)
      have "e \<in> dom (nt_ends (cf_net c1))" if "endname_at (cf_endnames cfg) a b = Some e" for a b
        using nm that unfolding names_inv_def by blast
      then have "\<not> (\<exists>j < cf_n cfg. e = EndName (?names ! j))" if "end_on (cf_net c1) e"
        using that new(3) unfolding on1 by (metis add.left_neutral nth_map_upt diff_zero)
      then have "end_on rn e \<longleftrightarrow> end_on (cf_net c1) e" using new(2) [of e] by auto
      moreover have "endname_at ?E a b = endname_at (cf_endnames cfg) a b" if "cf_connected c1 ! a" for a b
        using that i len C1 by (cases "a = i") (simp_all add: endname_at_update)
      ultimately show ?thesis unfolding on1 by (metis (no_types, lifting))
    qed
    with new(1) show ?thesis using len C1 by (simp add: conn_inv_def n1)
  qed
  have st2: "store_inv {} ?c2" using st1 by (subst store_inv_cong) simp_all
  from fresh_saved_ok [OF c3 st2] obtain ps logs where c3': "c3 = (new_saved i ps ?c2)\<lparr>cf_logs := logs\<rparr>"
    and ps: "(ReadRaftState ps, ReadSnapshot ps) = (case content ?c2 i of None \<Rightarrow> ([], []) | Some c \<Rightarrow> c)" by blast
  have st3: "store_inv {} c3" using new_saved_store [OF st2, of i ps] unfolding c3' by (subst store_inv_cong) simp_all
  let ?p = "length (cf_persister_store ?c2)"
  have p: "cf_saved c3 ! i = Some ?p"
    using st2 i n1 by (simp add: c3' store_inv_def store_wf_def)
  have "\<forall>r < length (cf_raft_store c3). rf_persister (cf_raft_store c3 ! r) \<noteq> ?p"
    using st2 by (auto simp: c3' store_inv_def store_wf_def)
  note la = launch_ok [OF l st3 p this]
  have "content c3 = content (new_saved i ps ?c2)" by (simp add: c3' content_def fun_eq_iff)
  moreover have c2: "content ?c2 = content c1" by (simp add: content_def fun_eq_iff)
  ultimately have "content cfg' k = (if k = i then Some (ReadRaftState ps, ReadSnapshot ps) else content cfg k)"
    if "k < cf_n cfg" for k using la new_saved_content [OF st2, of k i ps] that cont1 n1 by simp
  then have "content cfg' k = (if k = i \<and> content cfg i = None then Some ([], []) else content cfg k)"
    if "k < cf_n cfg" for k using that ps cont1 i unfolding c2 by (auto split: option.splits)
  moreover have view: "conn_view cfg' = conn_view ?c2" using la by (simp add: c3' conn_view_def)
  moreover have "cf_rafts cfg' ! i = Some (length (cf_raft_store c3))" "cf_saved cfg' ! i = Some ?p"
    "\<exists>rf. cf_raft_store cfg' = cf_raft_store c3 @ [rf] \<and> rf_persister rf = ?p" using la p by auto
  ultimately show ?thesis
    using i la inv2 conn_inv_cong [OF view] conn_viewD [OF view] n1 C1 by (auto simp: nth_append)
qed

section \<open>The runs of the tester\<close>

text \<open>
  What can happen to a configuration: the operations of the tester, and a peer, current or not, that saves its
  state.
\<close>

datatype cfg_op =
    OpConnect nat | OpDisconnect nat | OpCrash nat | OpStart nat "nat \<Rightarrow> string"
  | OpUnreliable bool | OpLongReordering bool | OpSave nat bytes bytes

definition peer_save :: "nat \<Rightarrow> bytes \<Rightarrow> bytes \<Rightarrow> ('c, 'v, 'w) config \<Rightarrow> ('c, 'v, 'w) config option" where
  "peer_save r raftstate snapshot cfg = do {
     rf \<leftarrow> slice_get (cf_raft_store cfg) r;
     ps \<leftarrow> slice_get (cf_persister_store cfg) (rf_persister rf);
     Some (cfg\<lparr>cf_persister_store := (cf_persister_store cfg)[rf_persister rf := Save raftstate snapshot ps]\<rparr>)
   }"

fun cfg_step ::
  "(bytes \<Rightarrow> (int \<times> 'c list) option) \<Rightarrow> ('v, 'w) Method list \<Rightarrow> cfg_op \<Rightarrow> ('c, 'v, 'w) config \<Rightarrow>
   go_error + ('c, 'v, 'w) config" where
  "cfg_step dec typ (OpConnect i) cfg = panics (connect i cfg)"
| "cfg_step dec typ (OpDisconnect i) cfg = panics (disconnect i cfg)"
| "cfg_step dec typ (OpCrash i) cfg = panics (crash1 i cfg)"
| "cfg_step dec typ (OpStart i rnd) cfg = start1 dec typ rnd i cfg"
| "cfg_step dec typ (OpUnreliable b) cfg = Inr (setunreliable b cfg)"
| "cfg_step dec typ (OpLongReordering b) cfg = Inr (setlongreordering b cfg)"
| "cfg_step dec typ (OpSave r s t) cfg = panics (peer_save r s t cfg)"

inductive reachable ::
  "(bytes \<Rightarrow> (int \<times> 'c list) option) \<Rightarrow> ('v, 'w) Method list \<Rightarrow> ('c, 'v, 'w) config \<Rightarrow> bool"
  for dec :: "bytes \<Rightarrow> (int \<times> 'c list) option" and meths :: "('v, 'w) Method list" where
  reach_make: "make_config dec meths rnd n unreliable = Inr cfg \<Longrightarrow> reachable dec meths cfg"
| reach_step: "reachable dec meths cfg \<Longrightarrow> cfg_step dec meths op cfg = Inr cfg' \<Longrightarrow> reachable dec meths cfg'"

definition cfg_inv :: "('c, 'v, 'w) config \<Rightarrow> bool" where
  "cfg_inv cfg \<longleftrightarrow> conn_inv cfg \<and> store_inv {} cfg \<and> (\<forall>i < cf_n cfg. cf_endnames cfg ! i \<noteq> None)"

lemma connect_inv:
  assumes "connect i cfg = Some cfg'" and "cfg_inv cfg"
  shows "cfg_inv cfg' \<and> cf_n cfg' = cf_n cfg \<and> cf_connected cfg' = (cf_connected cfg)[i := True]"
proof -
  have i: "i < cf_n cfg"
    using assms by (auto simp: connect_def bind_eq_Some_conv slice_set_eq_Some_iff cfg_inv_def conn_inv_def)
  with connect_run [of cfg i] assms obtain rn
    where "cfg' = cfg\<lparr>cf_connected := (cf_connected cfg)[i := True], cf_net := rn\<rparr>" and "conn_inv cfg'"
    by (auto simp: cfg_inv_def)
  with assms(2) show ?thesis by (auto simp: cfg_inv_def)
qed

lemma disconnect_inv:
  assumes "disconnect i cfg = Some cfg'" and "cfg_inv cfg"
  shows "cfg_inv cfg'"
proof -
  have i: "i < cf_n cfg"
    using assms by (auto simp: disconnect_def bind_eq_Some_conv slice_set_eq_Some_iff cfg_inv_def conn_inv_def)
  with disconnect_run [of cfg i] assms obtain rn
    where "cfg' = cfg\<lparr>cf_connected := (cf_connected cfg)[i := False], cf_net := rn\<rparr>" and "conn_inv cfg'"
    by (auto simp: cfg_inv_def)
  with assms(2) show ?thesis by (auto simp: cfg_inv_def)
qed

lemma start_all:
  assumes "for_each_res (\<lambda>i. start1 dec typ (rnd i) i) xs cfg = Inr cfg'" and "conn_inv cfg" and "store_inv {} cfg"
  shows "conn_inv cfg' \<and> store_inv {} cfg' \<and> cf_n cfg' = cf_n cfg \<and>
     (\<forall>i < cf_n cfg. i \<in> set xs \<or> cf_endnames cfg ! i \<noteq> None \<longrightarrow> cf_endnames cfg' ! i \<noteq> None)"
  using assms
proof (induction xs arbitrary: cfg)
  case (Cons x xs)
  from Cons.prems(1) obtain c1 where c1: "start1 dec typ (rnd x) x cfg = Inr c1"
    and rest: "for_each_res (\<lambda>i. start1 dec typ (rnd i) i) xs c1 = Inr cfg'" by (auto simp: res_bind_Inr_iff)
  note ok = start1_ok [OF c1 Cons.prems(2,3)]
  have "length (cf_endnames cfg) = cf_n cfg" using Cons.prems(2) by (simp add: conn_inv_def names_inv_def)
  with ok have "cf_endnames c1 ! i \<noteq> None" if "i < cf_n cfg" "i = x \<or> cf_endnames cfg ! i \<noteq> None" for i
    using that by (cases "i = x") auto
  with Cons.IH [OF rest] ok show ?case by auto
qed simp

lemma start1_inv:
  assumes "start1 dec typ rnd i cfg = Inr cfg'" and "cfg_inv cfg"
  shows "cfg_inv cfg'"
proof -
  have "for_each_res (\<lambda>i. start1 dec typ rnd i) [i] cfg = Inr cfg'" using assms(1) by simp
  from start_all [OF this] assms(2) show ?thesis by (simp add: cfg_inv_def)
qed

lemma peer_save_inv:
  assumes "peer_save r s t cfg = Some cfg'" and "cfg_inv cfg"
  shows "cfg_inv cfg'"
proof -
  from assms(1) obtain ps' where c: "cfg' = cfg\<lparr>cf_persister_store := ps'\<rparr>"
    and len: "length ps' = length (cf_persister_store cfg)"
    by (auto simp: peer_save_def bind_eq_Some_conv)
  have "conn_inv cfg' \<longleftrightarrow> conn_inv cfg" by (rule conn_inv_cong) (simp add: c conn_view_def)
  moreover have "store_inv {} cfg' \<longleftrightarrow> store_inv {} cfg" by (rule store_inv_cong) (simp_all add: c len)
  ultimately show ?thesis using assms(2) c by (simp add: cfg_inv_def)
qed

lemma net_flag_inv:
  assumes "cfg_inv cfg" and "nt_ends rn = nt_ends (cf_net cfg)" and "nt_connections rn = nt_connections (cf_net cfg)"
    and "nt_enabled rn = nt_enabled (cf_net cfg)"
  shows "cfg_inv (cfg\<lparr>cf_net := rn\<rparr>)"
proof -
  have "conn_inv (cfg\<lparr>cf_net := rn\<rparr>) \<longleftrightarrow> conn_inv cfg" by (rule conn_inv_cong) (simp add: conn_view_def assms)
  with assms(1) show ?thesis by (simp add: cfg_inv_def)
qed

lemma cfg_step_inv:
  assumes "cfg_step dec typ op cfg = Inr cfg'" and "cfg_inv cfg"
  shows "cfg_inv cfg'"
proof (cases op)
  case (OpCrash i)
  then show ?thesis using assms crash1_ok [of i cfg cfg'] by (auto simp: cfg_inv_def panics_Inr_iff)
next
  case (OpUnreliable b)
  then show ?thesis using assms by (auto simp: setunreliable_def Reliable_def intro: net_flag_inv)
next
  case (OpLongReordering b)
  then show ?thesis using assms by (auto simp: setlongreordering_def LongReordering_def intro: net_flag_inv)
qed (use assms in \<open>auto simp: panics_Inr_iff intro: connect_inv [THEN conjunct1] disconnect_inv start1_inv peer_save_inv\<close>)

lemma connect_all:
  assumes "for_each connect xs cfg = Some cfg'" and "cfg_inv cfg"
  shows "cfg_inv cfg' \<and> cf_n cfg' = cf_n cfg \<and>
     (\<forall>i < cf_n cfg. i \<in> set xs \<or> cf_connected cfg ! i \<longrightarrow> cf_connected cfg' ! i)"
  using assms
proof (induction xs arbitrary: cfg)
  case (Cons x xs)
  from Cons.prems(1) obtain c1 where c1: "connect x cfg = Some c1" and rest: "for_each connect xs c1 = Some cfg'"
    by (auto simp: bind_eq_Some_conv)
  note ok = connect_inv [OF c1 Cons.prems(2)]
  have "length (cf_connected cfg) = cf_n cfg" using Cons.prems(2) by (simp add: cfg_inv_def conn_inv_def)
  with ok have "cf_connected c1 ! i" if "i < cf_n cfg" "i = x \<or> cf_connected cfg ! i" for i
    using that by (cases "i = x") auto
  with Cons.IH [OF rest] ok show ?case by auto
qed simp

lemma make_config_inv:
  fixes cfg :: "('c, 'v, 'w) config"
  assumes "make_config dec typ rnd n unreliable = Inr cfg"
  shows "cfg_inv cfg \<and> cf_n cfg = n \<and> (\<forall>i < n. cf_connected cfg ! i)"
proof -
  let ?c = "\<lparr>cf_finished = 0, cf_net = LongDelays True (Reliable (\<not> unreliable) MakeNetwork), cf_n = n, cf_rafts = replicate n None,
      cf_connected = replicate n False, cf_saved = replicate n None, cf_endnames = replicate n None,
      cf_logs = logs_init n, cf_rpcs0 = 0, cf_cmds0 = 0, cf_bytes0 = 0, cf_maxIndex0 = 0,
      cf_raft_store = [], cf_persister_store = [], cf_server_store = []\<rparr> :: ('c, 'v, 'w) config"
  from assms obtain c3 where c3: "for_each_res (\<lambda>i. start1 dec typ (rnd i) i) [0..<n] ?c = Inr c3"
    and c: "for_each connect [0..<n] c3 = Some cfg"
    by (auto simp: make_config_def setunreliable_def Let_def res_bind_Inr_iff panics_Inr_iff)
  have inv: "conn_inv ?c"
    by (auto simp: conn_inv_def names_inv_def end_on_def endname_at_Some_iff LongDelays_def Reliable_def MakeNetwork_def)
  have "store_inv {} ?c" by (auto simp: store_inv_def store_wf_def owned_def)
  from start_all [OF c3 inv this] have "cfg_inv c3 \<and> cf_n c3 = n" by (simp add: cfg_inv_def)
  with connect_all [OF c] show ?thesis by simp
qed

lemma reachable_inv: "reachable dec typ cfg \<Longrightarrow> cfg_inv cfg"
proof (induction rule: reachable.induct)
  case (reach_make rnd n unreliable cfg)
  then show ?case using make_config_inv by blast
next
  case (reach_step cfg op cfg')
  then show ?case using cfg_step_inv by blast
qed

lemma reachable_ends:
  assumes "reachable dec typ cfg"
  shows "(\<forall>i < cf_n cfg. \<forall>j < cf_n cfg. \<exists>e. endname_at (cf_endnames cfg) i j = Some e \<and>
       ei_enabled (readEndnameInfo (cf_net cfg) e) = (cf_connected cfg ! i \<and> cf_connected cfg ! j) \<and>
       ei_servername (readEndnameInfo (cf_net cfg) e) = Some (SrvName j)) \<and>
     (\<forall>e. (\<forall>i j. endname_at (cf_endnames cfg) i j \<noteq> Some e) \<longrightarrow> \<not> ei_enabled (readEndnameInfo (cf_net cfg) e))"
proof -
  note inv = reachable_inv [OF assms, unfolded cfg_inv_def]
  have names: "names_inv (cf_n cfg) (cf_endnames cfg) (cf_net cfg)" using inv by (simp add: conn_inv_def)
  have enabled: "ei_enabled (readEndnameInfo (cf_net cfg) e) = end_on (cf_net cfg) e" for e
    by (simp add: readEndnameInfo_def end_on_def Let_def)
  have on: "end_on (cf_net cfg) e \<longleftrightarrow> (\<exists>i < cf_n cfg. \<exists>j < cf_n cfg. cf_connected cfg ! i \<and> cf_connected cfg ! j \<and>
      endname_at (cf_endnames cfg) i j = Some e)" for e using inv by (simp add: conn_inv_def)
  have "\<exists>e. endname_at (cf_endnames cfg) i j = Some e \<and>
       ei_enabled (readEndnameInfo (cf_net cfg) e) = (cf_connected cfg ! i \<and> cf_connected cfg ! j) \<and>
       ei_servername (readEndnameInfo (cf_net cfg) e) = Some (SrvName j)" if ij: "i < cf_n cfg" "j < cf_n cfg" for i j
  proof -
    obtain e where e: "endname_at (cf_endnames cfg) i j = Some e" using names_inv_ex [OF names ij] inv ij by blast
    then have "nt_connections (cf_net cfg) e = Some (Some (SrvName j))" using names unfolding names_inv_def by blast
    moreover have "end_on (cf_net cfg) e \<longleftrightarrow> cf_connected cfg ! i \<and> cf_connected cfg ! j"
      unfolding on using names_inv_inj [OF names e] e ij by blast
    ultimately show ?thesis using e enabled by (auto simp: readEndnameInfo_def map_read_def Let_def)
  qed
  then show ?thesis using enabled on by auto
qed

section \<open>Properties\<close>

text \<open>
  C4. Partitions are what the tester says: in every state that it can reach, whatever it connects, disconnects,
  crashes and restarts, and whatever old instances do, the end point of server \<open>i\<close> for server \<open>j\<close> can send, and sends to
  \<open>j\<close>, exactly when both are connected; an end point that is not a current one, such as those of crashed
  instances, cannot send at all.
\<close>

theorem tester_connectivity:
  assumes "reachable dec typ cfg"
  shows "(\<forall>i < cf_n cfg. \<forall>j < cf_n cfg. \<exists>e. endname_at (cf_endnames cfg) i j = Some e \<and>
       ei_enabled (readEndnameInfo (cf_net cfg) e) = (cf_connected cfg ! i \<and> cf_connected cfg ! j) \<and>
       ei_servername (readEndnameInfo (cf_net cfg) e) = Some (SrvName j)) \<and>
     (\<forall>e. (\<forall>i j. endname_at (cf_endnames cfg) i j \<noteq> Some e) \<longrightarrow> \<not> ei_enabled (readEndnameInfo (cf_net cfg) e))"
  by (rule reachable_ends [OF assms])

text \<open>
  C9. Stable storage survives a restart: the new instance of server \<open>i\<close> owns a persister that holds exactly what was
  saved last for \<open>i\<close>, nothing at the first start, and what is saved for the others does not change.
\<close>

theorem restart_recovers:
  assumes "reachable dec typ cfg" and "start1 dec typ rnd i cfg = Inr cfg'"
  shows "(\<exists>r. cf_rafts cfg' ! i = Some r \<and> cf_saved cfg' ! i = Some (rf_persister (cf_raft_store cfg' ! r))) \<and>
     content cfg' i = (case content cfg i of None \<Rightarrow> Some ([], []) | Some c \<Rightarrow> Some c) \<and>
     (\<forall>k < cf_n cfg. k \<noteq> i \<longrightarrow> content cfg' k = content cfg k)"
proof -
  from reachable_inv [OF assms(1)] have "conn_inv cfg" "store_inv {} cfg" by (simp_all add: cfg_inv_def)
  from start1_ok [OF assms(2) this] show ?thesis by (auto split: option.splits)
qed

text \<open>
  C32. Isolation: an instance that is not the current one of any server may go on saving its state, but this changes
  nothing of what is saved for any server.
\<close>

theorem stale_save_isolated:
  assumes "reachable dec typ cfg" and "peer_save r s t cfg = Some cfg'" and "\<forall>i < cf_n cfg. cf_rafts cfg ! i \<noteq> Some r"
    and "k < cf_n cfg"
  shows "content cfg' k = content cfg k"
proof -
  from reachable_inv [OF assms(1)] have "store_inv {} cfg" by (simp add: cfg_inv_def)
  then have own: "\<And>k r. k < cf_n cfg \<Longrightarrow> r < length (cf_raft_store cfg) \<Longrightarrow>
      cf_saved cfg ! k = Some (rf_persister (cf_raft_store cfg ! r)) \<Longrightarrow> cf_rafts cfg ! k = Some r"
    and len: "length (cf_saved cfg) = cf_n cfg"
    unfolding store_inv_def store_wf_def owned_def by blast+
  from assms(2) obtain ps where r: "r < length (cf_raft_store cfg)"
    and cfg': "cfg' = cfg\<lparr>cf_persister_store :=
      (cf_persister_store cfg)[rf_persister (cf_raft_store cfg ! r) := Save s t ps]\<rparr>"
    by (auto simp: peer_save_def bind_eq_Some_conv slice_get_eq_Some_iff)
  have "cf_saved cfg ! k \<noteq> Some (rf_persister (cf_raft_store cfg ! r))" using own [OF assms(4) r] assms(3,4) by blast
  then show ?thesis using assms(4) len by (cases "cf_saved cfg ! k") (auto simp: content_def cfg' slice_get_def)
qed

section \<open>Witnesses\<close>

text \<open>Two servers; then server 0 is restarted, so that instance 0 is stale.\<close>

definition ex_rnd :: "nat \<Rightarrow> nat \<Rightarrow> string" where
  "ex_rnd i j = replicate i (CHR ''a'') @ CHR ''-'' # replicate j (CHR ''b'')"

definition ex_make :: "go_error + (unit, unit, unit) config" where
  "ex_make = make_config (\<lambda>_. None) [] ex_rnd 2 False"

definition ex_restart :: "go_error + (unit, unit, unit) config" where
  "ex_restart = res_bind ex_make (start1 (\<lambda>_. None) [] (ex_rnd 7) 0)"

lemma ex_restart_run:
  "case ex_restart of Inl e \<Rightarrow> False | Inr cfg \<Rightarrow> cf_n cfg = 2 \<and> cf_rafts cfg = [Some 2, Some 1] \<and>
     (case peer_save 0 [1] [2] cfg of None \<Rightarrow> False | Some cfg' \<Rightarrow> True)"
  by code_simp

lemma ex_run:
  obtains cfg cfg1 cfg2 where "make_config (\<lambda>_. None) [] ex_rnd 2 False = Inr cfg"
    and "start1 (\<lambda>_. None) [] (ex_rnd 7) 0 cfg = Inr cfg1" and "cf_n cfg1 = 2" and "cf_rafts cfg1 = [Some 2, Some 1]"
    and "peer_save 0 [1] [2] cfg1 = Some (cfg2 :: (unit, unit, unit) config)"
  using ex_restart_run unfolding ex_restart_def ex_make_def
  by (cases "make_config (\<lambda>_. None) [] ex_rnd 2 False :: go_error + (unit, unit, unit) config")
    (auto split: sum.splits option.splits)

theorem tester_connectivity_witness:
  "\<exists>cfg :: (unit, unit, unit) config. make_config (\<lambda>_. None) [] ex_rnd 2 False = Inr cfg \<and>
     (\<exists>e. endname_at (cf_endnames cfg) 0 1 = Some e \<and> ei_enabled (readEndnameInfo (cf_net cfg) e))"
proof -
  obtain cfg :: "(unit, unit, unit) config" where cfg: "make_config (\<lambda>_. None) [] ex_rnd 2 False = Inr cfg"
    by (rule ex_run)
  from make_config_inv [OF cfg] have "cf_n cfg = 2" "cf_connected cfg ! 0" "cf_connected cfg ! 1" by auto
  moreover from this have "0 < cf_n cfg" "1 < cf_n cfg" by simp_all
  ultimately show ?thesis
    using tester_connectivity [OF reach_make [OF cfg], THEN conjunct1, rule_format, of 0 1] cfg by blast
qed

theorem restart_recovers_witness:
  "\<exists>cfg cfg1 :: (unit, unit, unit) config. make_config (\<lambda>_. None) [] ex_rnd 2 False = Inr cfg \<and>
     start1 (\<lambda>_. None) [] (ex_rnd 7) 0 cfg = Inr cfg1 \<and>
     (\<exists>r. cf_rafts cfg1 ! 0 = Some r \<and> cf_saved cfg1 ! 0 = Some (rf_persister (cf_raft_store cfg1 ! r)))"
proof -
  obtain cfg cfg1 :: "(unit, unit, unit) config" where cfg: "make_config (\<lambda>_. None) [] ex_rnd 2 False = Inr cfg"
    and cfg1: "start1 (\<lambda>_. None) [] (ex_rnd 7) 0 cfg = Inr cfg1" by (rule ex_run)
  with restart_recovers [OF reach_make [OF cfg] cfg1] show ?thesis by blast
qed

theorem stale_save_isolated_witness:
  "\<exists>cfg1 cfg2 :: (unit, unit, unit) config. peer_save 0 [1] [2] cfg1 = Some cfg2 \<and> content cfg2 0 = content cfg1 0"
proof -
  obtain cfg cfg1 cfg2 :: "(unit, unit, unit) config" where cfg: "make_config (\<lambda>_. None) [] ex_rnd 2 False = Inr cfg"
    and cfg1: "start1 (\<lambda>_. None) [] (ex_rnd 7) 0 cfg = Inr cfg1" and n: "cf_n cfg1 = 2"
    and rafts: "cf_rafts cfg1 = [Some 2, Some 1]" and save: "peer_save 0 [1] [2] cfg1 = Some cfg2" by (rule ex_run)
  have "cfg_step (\<lambda>_. None) [] (OpStart 0 (ex_rnd 7)) cfg = Inr cfg1" using cfg1 by simp
  from reach_step [OF reach_make [OF cfg] this] have "reachable (\<lambda>_. None) [] cfg1" .
  moreover have "\<forall>i < cf_n cfg1. cf_rafts cfg1 ! i \<noteq> Some 0" using n rafts by (auto simp: less_2_cases_iff)
  moreover have "0 < cf_n cfg1" using n by simp
  ultimately have "content cfg2 0 = content cfg1 0" by (rule stale_save_isolated [OF _ save])
  with save show ?thesis by blast
qed

end
