(* ===== verification/Cluster.thy ===== *)
theory Cluster
  imports Raft_Config
begin

text \<open>
  What the testers of the replicated services (\<open>kvraft/config.go\<close> and \<open>shardctrler/config.go\<close>) have in common: servers
  that are connected pairwise by named end points and are partitioned by switching those on and off.

  The locale \<open>cluster\<close> is the interface: what connecting and disconnecting one server promises about who can send to
  whom. What follows for the loops over servers, \<open>ConnectAll\<close> and \<open>partition\<close>, is proved once in it.
\<close>

section \<open>End points between servers\<close>

text \<open>Every server has its end points.\<close>

definition net_ready :: "nat \<Rightarrow> string list option list \<Rightarrow> name Network \<Rightarrow> bool" where
  "net_ready n endnames rn \<longleftrightarrow> names_inv n endnames rn \<and> (\<forall>i < n. endnames ! i \<noteq> None)"

text \<open>Server \<open>a\<close> can send to server \<open>b\<close>.\<close>

definition net_link :: "string list option list \<Rightarrow> name Network \<Rightarrow> nat \<Rightarrow> nat \<Rightarrow> bool" where
  "net_link endnames rn a b \<longleftrightarrow> (\<exists>e. endname_at endnames a b = Some e \<and> end_on rn e)"

text \<open>The end points between server \<open>i\<close> and the servers in \<open>S\<close>, in both directions.\<close>

definition between :: "nat \<Rightarrow> nat set \<Rightarrow> nat \<Rightarrow> nat \<Rightarrow> bool" where
  "between i S a b \<longleftrightarrow> a = i \<and> b \<in> S \<or> b = i \<and> a \<in> S"

lemma net_ready_at:
  assumes "net_ready n endnames rn" and "a < n" and "b < n"
  obtains e where "endname_at endnames a b = Some e"
  using assms names_inv_ex [of n endnames rn a b] unfolding net_ready_def by blast

lemma net_ready_has_names:
  assumes "net_ready n endnames rn" and "j < n"
  shows "has_names endnames j = Some True"
  using assms by (auto simp: net_ready_def has_names_def names_inv_def)

lemma net_ready_frame:
  assumes "net_rest rn' = net_rest rn"
  shows "net_ready n endnames rn' \<longleftrightarrow> net_ready n endnames rn"
  by (simp add: net_ready_def names_inv_frame [OF assms])

text \<open>Two passes that switch the end points between \<open>i\<close> and the members of a list.\<close>

lemma switch_between:
  assumes ready: "net_ready n endnames rn" and i: "i < n" and js: "\<forall>t \<in> set js. t < n"
    and c1: "\<forall>j < length js. c1 j = Some True" and c2: "\<forall>j < length js. c2 j = Some True"
  obtains rn1 rn2 where
    "switch_loop (\<lambda>e. Enable e v) c1 (\<lambda>j. endname_at endnames i (js ! j)) [0..<length js] rn = Some rn1"
    and "switch_loop (\<lambda>e. Enable e v) c2 (\<lambda>j. endname_at endnames (js ! j) i) [0..<length js] rn1 = Some rn2"
    and "net_rest rn2 = net_rest rn" and "net_ready n endnames rn2"
    and "\<And>a b. a < n \<Longrightarrow> b < n \<Longrightarrow>
      net_link endnames rn2 a b \<longleftrightarrow> (if between i (set js) a b then v else net_link endnames rn a b)"
proof -
  let ?at = "endname_at endnames"
  have names: "names_inv n endnames rn" using ready by (simp add: net_ready_def)
  have at: "?at a b \<noteq> None" if "a < n" "b < n" for a b using net_ready_at [OF ready that] by blast
  have mem: "js ! j < n" if "j < length js" for j using js that by simp
  obtain rn1 where rn1: "switch_loop (\<lambda>e. Enable e v) c1 (\<lambda>j. ?at i (js ! j)) [0..<length js] rn = Some rn1"
      "net_rest rn1 = net_rest rn"
      "\<And>e. end_on rn1 e \<longleftrightarrow> (if \<exists>j < length js. c1 j = Some True \<and> ?at i (js ! j) = Some e then v else end_on rn e)"
    by (rule net_switch_range [of "length js" c1 "\<lambda>j. ?at i (js ! j)" v rn]) (use at i mem c1 in auto)
  obtain rn2 where rn2: "switch_loop (\<lambda>e. Enable e v) c2 (\<lambda>j. ?at (js ! j) i) [0..<length js] rn1 = Some rn2"
      "net_rest rn2 = net_rest rn1"
      "\<And>e. end_on rn2 e \<longleftrightarrow> (if \<exists>j < length js. c2 j = Some True \<and> ?at (js ! j) i = Some e then v else end_on rn1 e)"
    by (rule net_switch_range [of "length js" c2 "\<lambda>j. ?at (js ! j) i" v rn1]) (use at i mem c2 in auto)
  have "net_link endnames rn2 a b \<longleftrightarrow> (if between i (set js) a b then v else net_link endnames rn a b)"
    if ab: "a < n" "b < n" for a b
  proof -
    obtain e where e: "?at a b = Some e" by (rule net_ready_at [OF ready ab])
    have out: "(\<exists>j < length js. c1 j = Some True \<and> ?at i (js ! j) = Some e) \<longleftrightarrow> a = i \<and> b \<in> set js"
      using names_inv_inj [OF names e] e c1 by (metis in_set_conv_nth)
    have inc: "(\<exists>j < length js. c2 j = Some True \<and> ?at (js ! j) i = Some e) \<longleftrightarrow> b = i \<and> a \<in> set js"
      using names_inv_inj [OF names e] e c2 by (metis in_set_conv_nth)
    show ?thesis using e rn1(3) [of e] rn2(3) [of e] unfolding out inc by (auto simp: net_link_def between_def)
  qed
  moreover have rest: "net_rest rn2 = net_rest rn" using rn1(2) rn2(2) by simp
  moreover have "net_ready n endnames rn2" using ready by (simp add: net_ready_frame [OF rest])
  ultimately show ?thesis using rn1(1) rn2(1) that by blast
qed

text \<open>The two passes of \<open>connectUnlocked\<close> and of \<open>disconnectUnlocked\<close>.\<close>

lemma connect_passes:
  assumes "net_ready n endnames rn" and "i < n" and "\<forall>t \<in> set to. t < n"
  obtains rn1 rn2 where
    "switch_loop (\<lambda>e. Enable e True) (\<lambda>j. Some True) (\<lambda>j. endname_at endnames i (to ! j)) [0..<length to] rn = Some rn1"
    and "switch_loop (\<lambda>e. Enable e True) (\<lambda>j. Some True) (\<lambda>j. endname_at endnames (to ! j) i) [0..<length to] rn1 = Some rn2"
    and "net_rest rn2 = net_rest rn" and "net_ready n endnames rn2"
    and "\<And>a b. a < n \<Longrightarrow> b < n \<Longrightarrow> net_link endnames rn2 a b \<longleftrightarrow> between i (set to) a b \<or> net_link endnames rn a b"
  by (rule switch_between [where v = True, OF assms, of "\<lambda>j. Some True" "\<lambda>j. Some True"]) (simp, simp, rule that, assumption+, simp)

lemma disconnect_passes:
  assumes "net_ready n endnames rn" and "i < n" and "\<forall>t \<in> set frm. t < n" and "length frm \<le> n"
  obtains rn1 rn2 where
    "switch_loop (\<lambda>e. Enable e False) (\<lambda>j. has_names endnames i) (\<lambda>j. endname_at endnames i (frm ! j)) [0..<length frm] rn = Some rn1"
    and "switch_loop (\<lambda>e. Enable e False) (\<lambda>j. has_names endnames j) (\<lambda>j. endname_at endnames (frm ! j) i) [0..<length frm] rn1 = Some rn2"
    and "net_rest rn2 = net_rest rn" and "net_ready n endnames rn2"
    and "\<And>a b. a < n \<Longrightarrow> b < n \<Longrightarrow> net_link endnames rn2 a b \<longleftrightarrow> \<not> between i (set frm) a b \<and> net_link endnames rn a b"
proof -
  have "\<forall>j < length frm. has_names endnames i = Some True" "\<forall>j < length frm. has_names endnames j = Some True"
    using net_ready_has_names [OF assms(1)] assms(2,4) by simp_all
  from this show ?thesis by (rule switch_between [where v = False, OF assms(1-3)]) (rule that, assumption+, simp)
qed

lemma distinct_bound_length:
  assumes "distinct xs" and "\<forall>t \<in> set xs. t < n"
  shows "length xs \<le> n"
proof -
  have "set xs \<subseteq> {..<n}" using assms(2) by auto
  from card_mono [OF _ this] show ?thesis using assms(1) by (simp add: distinct_card)
qed

section \<open>Stable storage of the servers\<close>

text \<open>The pointers of \<open>saved\<close> into the store of persisters, and what is saved for a server.\<close>

definition saved_ok :: "ptr list \<Rightarrow> Persister list \<Rightarrow> bool" where
  "saved_ok saved store \<longleftrightarrow> (\<forall>a. Some a \<in> set saved \<longrightarrow> a < length store)"

definition saved_content :: "ptr list \<Rightarrow> Persister list \<Rightarrow> nat \<Rightarrow> (bytes \<times> bytes) option" where
  "saved_content saved store i = do {
     p \<leftarrow> slice_get saved i;
     a \<leftarrow> p;
     ps \<leftarrow> slice_get store a;
     Some (ReadRaftState ps, ReadSnapshot ps)
   }"

text \<open>A new persister for server \<open>i\<close>.\<close>

lemma saved_ok_new [simp]:
  assumes "saved_ok saved store"
  shows "saved_ok (saved[i := Some (length store)]) (store @ [ps])"
  using assms set_update_subset_insert [of saved i "Some (length store)"] by (force simp: saved_ok_def)

lemma saved_ok_get:
  assumes "saved_ok saved store" and "i < length saved" and "saved ! i = Some a"
  shows "a < length store"
  using assms unfolding saved_ok_def by (metis nth_mem)

lemma saved_content_new:
  assumes "saved_ok saved store" and "i < length saved" and "k < length saved"
  shows "saved_content (saved[i := Some (length store)]) (store @ [ps]) k =
     (if k = i then Some (ReadRaftState ps, ReadSnapshot ps) else saved_content saved store k)"
proof (cases "saved ! k")
  case (Some a)
  with assms saved_ok_get [OF assms(1,3)] show ?thesis by (simp add: saved_content_def nth_append)
qed (use assms in \<open>simp add: saved_content_def\<close>)

section \<open>Partitions\<close>

locale cluster =
  fixes size_of :: "'c \<Rightarrow> nat"
    and ready :: "'c \<Rightarrow> bool"
    and lnk :: "'c \<Rightarrow> nat \<Rightarrow> nat \<Rightarrow> bool"
    and rest :: "'c \<Rightarrow> 'r"
    and con :: "nat \<Rightarrow> nat list \<Rightarrow> 'c \<Rightarrow> 'c option"
    and dis :: "nat \<Rightarrow> nat list \<Rightarrow> 'c \<Rightarrow> 'c option"
  assumes con_law: "ready c \<Longrightarrow> i < size_of c \<Longrightarrow> \<forall>t \<in> set js. t < size_of c \<Longrightarrow>
      \<exists>c'. con i js c = Some c' \<and> ready c' \<and> size_of c' = size_of c \<and> rest c' = rest c \<and>
        (\<forall>a < size_of c. \<forall>b < size_of c. lnk c' a b \<longleftrightarrow> between i (set js) a b \<or> lnk c a b)"
    and dis_law: "ready c \<Longrightarrow> i < size_of c \<Longrightarrow> \<forall>t \<in> set js. t < size_of c \<Longrightarrow> length js \<le> size_of c \<Longrightarrow>
      \<exists>c'. dis i js c = Some c' \<and> ready c' \<and> size_of c' = size_of c \<and> rest c' = rest c \<and>
        (\<forall>a < size_of c. \<forall>b < size_of c. lnk c' a b \<longleftrightarrow> \<not> between i (set js) a b \<and> lnk c a b)"
begin

lemma con_all:
  assumes "ready c" and "\<forall>x \<in> set xs. x < size_of c" and "n = size_of c"
  shows "\<exists>c'. for_each (\<lambda>i c. con i [0..<size_of c] c) xs c = Some c' \<and> ready c' \<and> size_of c' = n \<and> rest c' = rest c \<and>
     (\<forall>a < n. \<forall>b < n. lnk c' a b \<longleftrightarrow> a \<in> set xs \<or> b \<in> set xs \<or> lnk c a b)"
  using assms
proof (induction xs arbitrary: c)
  case (Cons x xs)
  from con_law [OF Cons.prems(1), of x "[0..<size_of c]"] Cons.prems(2) obtain c1
    where c1: "con x [0..<size_of c] c = Some c1" "ready c1" "size_of c1 = size_of c" "rest c1 = rest c"
      and l1: "\<And>a b. a < size_of c \<Longrightarrow> b < size_of c \<Longrightarrow> lnk c1 a b \<longleftrightarrow> between x {0..<size_of c} a b \<or> lnk c a b" by auto
  from Cons.IH [OF c1(2)] Cons.prems c1(3) obtain c'
    where c': "for_each (\<lambda>i c. con i [0..<size_of c] c) xs c1 = Some c'" "ready c'" "size_of c' = n" "rest c' = rest c1"
      and l2: "\<And>a b. a < n \<Longrightarrow> b < n \<Longrightarrow> lnk c' a b \<longleftrightarrow> a \<in> set xs \<or> b \<in> set xs \<or> lnk c1 a b" by auto
  have "lnk c' a b \<longleftrightarrow> a \<in> set (x # xs) \<or> b \<in> set (x # xs) \<or> lnk c a b" if "a < n" "b < n" for a b
    using l1 [of a b] l2 [OF that] that Cons.prems(3) by (auto simp: between_def)
  with c1 c' show ?case by auto
qed simp

text \<open>One side of a partition, after its members \<open>xs\<close>.\<close>

lemma side_loop:
  assumes "set xs \<subseteq> set mine" and "set mine \<inter> set other = {}" and "ready c" and "n = size_of c"
    and "\<forall>t \<in> set mine \<union> set other. t < n" and "length other \<le> n"
  shows "\<exists>c'. for_each (\<lambda>s c. do { c1 \<leftarrow> dis s other c; con s mine c1 }) xs c = Some c' \<and> ready c' \<and> size_of c' = n \<and>
     rest c' = rest c \<and>
     (\<forall>a < n. \<forall>b < n. lnk c' a b \<longleftrightarrow>
        (if a \<in> set mine \<and> b \<in> set mine \<and> (a \<in> set xs \<or> b \<in> set xs) then True
         else if a \<in> set xs \<and> b \<in> set other \<or> b \<in> set xs \<and> a \<in> set other then False else lnk c a b))"
  using assms(1,3-6)
proof (induction xs arbitrary: c)
  case (Cons x xs)
  have x: "x \<in> set mine" "x < size_of c" and xs: "set xs \<subseteq> set mine" using Cons.prems(1,3,4) by auto
  have bounds: "\<forall>t \<in> set mine. t < size_of c" "\<forall>t \<in> set other. t < size_of c" "length other \<le> size_of c"
    using Cons.prems(3-5) by auto
  from dis_law [OF Cons.prems(2) x(2) bounds(2,3)] obtain c1
    where c1: "dis x other c = Some c1" "ready c1" "size_of c1 = size_of c" "rest c1 = rest c"
      and l1: "\<And>a b. a < size_of c \<Longrightarrow> b < size_of c \<Longrightarrow> lnk c1 a b \<longleftrightarrow> \<not> between x (set other) a b \<and> lnk c a b" by blast
  from con_law [OF c1(2), of x mine] x(2) bounds(1) c1(3) obtain c2
    where c2: "con x mine c1 = Some c2" "ready c2" "size_of c2 = size_of c" "rest c2 = rest c"
      and l2: "\<And>a b. a < size_of c \<Longrightarrow> b < size_of c \<Longrightarrow> lnk c2 a b \<longleftrightarrow> between x (set mine) a b \<or> lnk c1 a b"
    using c1(4) by auto
  from Cons.IH [OF xs c2(2)] Cons.prems(3-5) c2(3) obtain c'
    where c': "for_each (\<lambda>s c. do { c1 \<leftarrow> dis s other c; con s mine c1 }) xs c2 = Some c'" "ready c'" "size_of c' = n"
        "rest c' = rest c2"
      and l3: "\<And>a b. a < n \<Longrightarrow> b < n \<Longrightarrow> lnk c' a b \<longleftrightarrow>
        (if a \<in> set mine \<and> b \<in> set mine \<and> (a \<in> set xs \<or> b \<in> set xs) then True
         else if a \<in> set xs \<and> b \<in> set other \<or> b \<in> set xs \<and> a \<in> set other then False else lnk c2 a b)" by auto
  have "lnk c' a b \<longleftrightarrow>
      (if a \<in> set mine \<and> b \<in> set mine \<and> (a \<in> set (x # xs) \<or> b \<in> set (x # xs)) then True
       else if a \<in> set (x # xs) \<and> b \<in> set other \<or> b \<in> set (x # xs) \<and> a \<in> set other then False else lnk c a b)"
    if "a < n" "b < n" for a b
    using x(1) assms(2) l3 [OF that] l2 [of a b] l1 [of a b] that Cons.prems(3) unfolding between_def
    by (auto split: if_splits)
  with c1 c2 c' show ?case by auto
qed simp

text \<open>Both sides, one after the other: exactly the links within a side remain, those to others are kept.\<close>

lemma partition_run:
  assumes "ready c" and "distinct (p1 @ p2)" and "n = size_of c" and "\<forall>t \<in> set (p1 @ p2). t < n"
  shows "\<exists>c1 c2. for_each (\<lambda>s c. do { c1 \<leftarrow> dis s p2 c; con s p1 c1 }) p1 c = Some c1 \<and>
     for_each (\<lambda>s c. do { c1 \<leftarrow> dis s p1 c; con s p2 c1 }) p2 c1 = Some c2 \<and> ready c2 \<and> size_of c2 = n \<and> rest c2 = rest c \<and>
     (\<forall>a \<in> set (p1 @ p2). \<forall>b \<in> set (p1 @ p2). lnk c2 a b \<longleftrightarrow> (a \<in> set p1 \<longleftrightarrow> b \<in> set p1)) \<and>
     (\<forall>a < n. \<forall>b < n. a \<notin> set (p1 @ p2) \<or> b \<notin> set (p1 @ p2) \<longrightarrow> lnk c2 a b = lnk c a b)"
proof -
  have disj: "set p1 \<inter> set p2 = {}" "set p2 \<inter> set p1 = {}" using assms(2) by auto
  have len: "length p1 \<le> n" "length p2 \<le> n" using assms(2,4) by (simp_all add: distinct_bound_length)
  have all: "\<forall>t \<in> set p1 \<union> set p2. t < n" "\<forall>t \<in> set p2 \<union> set p1. t < n" using assms(4) by auto
  from side_loop [OF order_refl disj(1) assms(1,3) all(1) len(2)] obtain c1
    where c1: "for_each (\<lambda>s c. do { c1 \<leftarrow> dis s p2 c; con s p1 c1 }) p1 c = Some c1" "ready c1" "n = size_of c1" "rest c1 = rest c"
      and l1: "\<And>a b. a < n \<Longrightarrow> b < n \<Longrightarrow> lnk c1 a b \<longleftrightarrow> (if a \<in> set p1 \<and> b \<in> set p1 then True
        else if a \<in> set p1 \<and> b \<in> set p2 \<or> b \<in> set p1 \<and> a \<in> set p2 then False else lnk c a b)" by auto
  from side_loop [OF order_refl disj(2) c1(2,3) all(2) len(1)] obtain c2
    where c2: "for_each (\<lambda>s c. do { c1 \<leftarrow> dis s p1 c; con s p2 c1 }) p2 c1 = Some c2" "ready c2" "size_of c2 = n" "rest c2 = rest c1"
      and l2: "\<And>a b. a < n \<Longrightarrow> b < n \<Longrightarrow> lnk c2 a b \<longleftrightarrow> (if a \<in> set p2 \<and> b \<in> set p2 then True
        else if a \<in> set p2 \<and> b \<in> set p1 \<or> b \<in> set p2 \<and> a \<in> set p1 then False else lnk c1 a b)" by auto
  have "lnk c2 a b \<longleftrightarrow> (a \<in> set p1 \<longleftrightarrow> b \<in> set p1)" if ab: "a \<in> set (p1 @ p2)" "b \<in> set (p1 @ p2)" for a b
  proof -
    have n: "a < n" "b < n" using ab assms(4) by blast+
    have "a \<in> set p2 \<longleftrightarrow> a \<notin> set p1" "b \<in> set p2 \<longleftrightarrow> b \<notin> set p1" using ab disj(1) by auto
    then show ?thesis unfolding l2 [OF n] l1 [OF n] by simp
  qed
  moreover have "lnk c2 a b = lnk c a b" if "a < n" "b < n" "a \<notin> set (p1 @ p2) \<or> b \<notin> set (p1 @ p2)" for a b
    using that by (auto simp: l1 l2)
  ultimately show ?thesis using c1(1,4) c2 by (intro exI [of _ c1] exI [of _ c2]) simp
qed

end

end
