(* ===== verification/Kv_Cluster.thy ===== *)
theory Kv_Cluster
  imports Cluster
begin

text \<open>
  The key/value service on Raft: the server and the clerk of \<open>kvraft/server.go\<close> and \<open>kvraft/client.go\<close>, which are
  the skeletons that the repository has, and the configuration of the tester in \<open>kvraft/config.go\<close>, which starts and
  stops servers, makes clerks and partitions the network.

  As in the configuration of the Raft tester, objects that are shared by pointer live in stores, random strings are
  arguments, and \<open>typ\<close> lists what reflection tells about the methods. A clerk is its index in the store of clerks.

  The theory shows that \<open>partition\<close> leaves exactly the end points within each side enabled, that \<open>make_partition\<close> puts
  the leader into a minority when the number of servers is odd, and that \<open>random_handles\<close> can produce every
  order of the handles and nothing else.
\<close>

section \<open>Server and clerk\<close>

record KVServer =
  kv_me :: nat
  kv_rf :: nat
  kv_dead :: "32 word"
  kv_maxraftstate :: int

record Clerk =
  ck_servers :: "name ClientEnd list"

definition MakeClerk :: "name ClientEnd list \<Rightarrow> Clerk" where
  "MakeClerk servers = \<lparr>ck_servers = servers\<rparr>"

definition Clerk_Get :: "string \<Rightarrow> Clerk \<Rightarrow> string" where
  "Clerk_Get key ck = []"

definition Clerk_PutAppend :: "string \<Rightarrow> string \<Rightarrow> string \<Rightarrow> Clerk \<Rightarrow> Clerk" where
  "Clerk_PutAppend key value op ck = ck"

definition Clerk_Put :: "string \<Rightarrow> string \<Rightarrow> Clerk \<Rightarrow> Clerk" where
  "Clerk_Put key value ck = Clerk_PutAppend key value ''Put'' ck"

definition Clerk_Append :: "string \<Rightarrow> string \<Rightarrow> Clerk \<Rightarrow> Clerk" where
  "Clerk_Append key value ck = Clerk_PutAppend key value ''Append'' ck"

text \<open>The messages of \<open>kvraft/common.go\<close> and the handlers, which leave the server and the reply as they are.\<close>

record kr_PutAppendArgs =
  kra_Key :: string
  kra_Value :: string
  kra_Op :: string

record kr_PutAppendReply =
  krp_Err :: string

record kr_GetArgs =
  krg_Key :: string

record kr_GetReply =
  krr_Err :: string
  krr_Value :: string

definition KVServer_Get :: "KVServer \<Rightarrow> kr_GetArgs \<Rightarrow> kr_GetReply \<Rightarrow> KVServer \<times> kr_GetReply" where
  "KVServer_Get kv args reply = (kv, reply)"

definition KVServer_PutAppend :: "KVServer \<Rightarrow> kr_PutAppendArgs \<Rightarrow> kr_PutAppendReply \<Rightarrow> KVServer \<times> kr_PutAppendReply" where
  "KVServer_PutAppend kv args reply = (kv, reply)"

definition KVServer_killed :: "KVServer \<Rightarrow> bool" where
  "KVServer_killed kv \<longleftrightarrow> kv_dead kv = 1"

section \<open>State of the tester\<close>

record ('v, 'w) kv_config =
  kc_net :: "name Network"
  kc_n :: nat
  kc_kvservers :: "ptr list"
  kc_saved :: "ptr list"
  kc_endnames :: "string list option list"
  kc_clerks :: "nat \<rightharpoonup> string list"
  kc_nextClientId :: int
  kc_maxraftstate :: int
  kc_rpcs0 :: int
  kc_ops :: "32 word"
  kc_kv_store :: "KVServer list"
  kc_raft_store :: "name Raft list"
  kc_persister_store :: "Persister list"
  kc_server_store :: "('v, 'w) Server list"
  kc_clerk_store :: "Clerk list"

text \<open>\<open>StartKVServer\<close>; \<open>labgob.Register\<close> of the empty struct \<open>Op\<close> checks nothing.\<close>

definition StartKVServer ::
  "name ClientEnd list \<Rightarrow> nat \<Rightarrow> nat \<Rightarrow> int \<Rightarrow> ('v, 'w) kv_config \<Rightarrow> (('v, 'w) kv_config \<times> nat) option" where
  "StartKVServer servers me persister maxraftstate cfg = do {
     rf \<leftarrow> Make (kc_persister_store cfg) servers me persister;
     let kv = \<lparr>kv_me = me, kv_rf = length (kc_raft_store cfg), kv_dead = 0, kv_maxraftstate = maxraftstate\<rparr>;
     Some (cfg\<lparr>kc_raft_store := kc_raft_store cfg @ [rf], kc_kv_store := kc_kv_store cfg @ [kv]\<rparr>,
           length (kc_kv_store cfg))
   }"

definition KVServer_Kill :: "nat \<Rightarrow> ('v, 'w) kv_config \<Rightarrow> ('v, 'w) kv_config option" where
  "KVServer_Kill p cfg = do {
     kv \<leftarrow> slice_get (kc_kv_store cfg) p;
     let cfg1 = cfg\<lparr>kc_kv_store := (kc_kv_store cfg)[p := kv\<lparr>kv_dead := 1\<rparr>]\<rparr>;
     rf \<leftarrow> slice_get (kc_raft_store cfg1) (kv_rf kv);
     Some (cfg1\<lparr>kc_raft_store := (kc_raft_store cfg1)[kv_rf kv := Kill rf]\<rparr>)
   }"

section \<open>Connections\<close>

definition connectUnlocked :: "nat \<Rightarrow> nat list \<Rightarrow> ('v, 'w) kv_config \<Rightarrow> ('v, 'w) kv_config option" where
  "connectUnlocked i to cfg = do {
     rn1 \<leftarrow> switch_loop (\<lambda>e. Enable e True) (\<lambda>j. Some True) (\<lambda>j. endname_at (kc_endnames cfg) i (to ! j))
       [0..<length to] (kc_net cfg);
     rn2 \<leftarrow> switch_loop (\<lambda>e. Enable e True) (\<lambda>j. Some True) (\<lambda>j. endname_at (kc_endnames cfg) (to ! j) i)
       [0..<length to] rn1;
     Some (cfg\<lparr>kc_net := rn2\<rparr>)
   }"

text \<open>The second loop tests \<open>cfg.endnames[j]\<close> and then uses \<open>cfg.endnames[from[j]]\<close>.\<close>

definition disconnectUnlocked :: "nat \<Rightarrow> nat list \<Rightarrow> ('v, 'w) kv_config \<Rightarrow> ('v, 'w) kv_config option" where
  "disconnectUnlocked i frm cfg = do {
     rn1 \<leftarrow> switch_loop (\<lambda>e. Enable e False) (\<lambda>j. has_names (kc_endnames cfg) i)
       (\<lambda>j. endname_at (kc_endnames cfg) i (frm ! j)) [0..<length frm] (kc_net cfg);
     rn2 \<leftarrow> switch_loop (\<lambda>e. Enable e False) (\<lambda>j. has_names (kc_endnames cfg) j)
       (\<lambda>j. endname_at (kc_endnames cfg) (frm ! j) i) [0..<length frm] rn1;
     Some (cfg\<lparr>kc_net := rn2\<rparr>)
   }"

definition All_servers :: "('v, 'w) kv_config \<Rightarrow> nat list" where
  "All_servers cfg = [0..<kc_n cfg]"

definition ConnectAll :: "('v, 'w) kv_config \<Rightarrow> ('v, 'w) kv_config option" where
  "ConnectAll cfg = for_each (\<lambda>i cfg. connectUnlocked i (All_servers cfg) cfg) [0..<kc_n cfg] cfg"

definition partition_side :: "nat list \<Rightarrow> nat list \<Rightarrow> ('v, 'w) kv_config \<Rightarrow> ('v, 'w) kv_config option" where
  "partition_side mine other cfg =
     for_each (\<lambda>s cfg. do { cfg1 \<leftarrow> disconnectUnlocked s other cfg; connectUnlocked s mine cfg1 }) mine cfg"

definition kv_partition :: "nat list \<Rightarrow> nat list \<Rightarrow> ('v, 'w) kv_config \<Rightarrow> ('v, 'w) kv_config option" where
  "kv_partition p1 p2 cfg = do { cfg1 \<leftarrow> partition_side p1 p2 cfg; partition_side p2 p1 cfg1 }"

section \<open>Clerks\<close>

text \<open>\<open>rnd i\<close> is the number that \<open>rand.Intn(i + 1)\<close> returns.\<close>

definition swap_at :: "'a list \<Rightarrow> nat \<Rightarrow> nat \<Rightarrow> 'a list option" where
  "swap_at sa i j = do { a \<leftarrow> slice_get sa i; b \<leftarrow> slice_get sa j; Some (sa[i := b, j := a]) }"

definition random_handles :: "(nat \<Rightarrow> nat) \<Rightarrow> 'a list \<Rightarrow> 'a list option" where
  "random_handles rnd kvh = for_each (\<lambda>i sa. swap_at sa i (rnd i)) [0..<length kvh] kvh"

definition ConnectClientUnlocked :: "nat \<Rightarrow> nat list \<Rightarrow> ('v, 'w) kv_config \<Rightarrow> ('v, 'w) kv_config option" where
  "ConnectClientUnlocked ck to cfg = do {
     let endnames = map_read [] (kc_clerks cfg) ck;
     rn \<leftarrow> switch_loop (\<lambda>e. Enable e True) (\<lambda>j. Some True)
       (\<lambda>t. map_option EndName (slice_get endnames t)) to (kc_net cfg);
     Some (cfg\<lparr>kc_net := rn\<rparr>)
   }"

definition DisconnectClientUnlocked :: "nat \<Rightarrow> nat list \<Rightarrow> ('v, 'w) kv_config \<Rightarrow> ('v, 'w) kv_config option" where
  "DisconnectClientUnlocked ck frm cfg = do {
     let endnames = map_read [] (kc_clerks cfg) ck;
     rn \<leftarrow> switch_loop (\<lambda>e. Enable e False) (\<lambda>j. Some True)
       (\<lambda>t. map_option EndName (slice_get endnames t)) frm (kc_net cfg);
     Some (cfg\<lparr>kc_net := rn\<rparr>)
   }"

text \<open>The variants that take the lock.\<close>

definition kv_connect :: "nat \<Rightarrow> nat list \<Rightarrow> ('v, 'w) kv_config \<Rightarrow> ('v, 'w) kv_config option" where
  "kv_connect i to cfg = connectUnlocked i to cfg"

definition kv_disconnect :: "nat \<Rightarrow> nat list \<Rightarrow> ('v, 'w) kv_config \<Rightarrow> ('v, 'w) kv_config option" where
  "kv_disconnect i frm cfg = disconnectUnlocked i frm cfg"

definition kv_ConnectClient :: "nat \<Rightarrow> nat list \<Rightarrow> ('v, 'w) kv_config \<Rightarrow> ('v, 'w) kv_config option" where
  "kv_ConnectClient ck to cfg = ConnectClientUnlocked ck to cfg"

definition kv_DisconnectClient :: "nat \<Rightarrow> nat list \<Rightarrow> ('v, 'w) kv_config \<Rightarrow> ('v, 'w) kv_config option" where
  "kv_DisconnectClient ck frm cfg = DisconnectClientUnlocked ck frm cfg"

definition makeClient ::
  "(nat \<Rightarrow> string) \<Rightarrow> (nat \<Rightarrow> nat) \<Rightarrow> nat list \<Rightarrow> ('v, 'w) kv_config \<Rightarrow> go_error + ('v, 'w) kv_config \<times> nat" where
  "makeClient rnd shuffle to cfg =
     (let endnames = map rnd [0..<kc_n cfg] in
      res_bind (make_ends False (map (\<lambda>j. (EndName (endnames ! j), SrvName j)) [0..<kc_n cfg]) (kc_net cfg)) (\<lambda>(rn, ends).
      res_bind (panics (random_handles shuffle ends)) (\<lambda>handles.
      let ck = length (kc_clerk_store cfg);
          cfg1 = cfg\<lparr>kc_net := rn, kc_clerk_store := kc_clerk_store cfg @ [MakeClerk handles],
            kc_clerks := (kc_clerks cfg)(ck \<mapsto> endnames), kc_nextClientId := kc_nextClientId cfg + 1\<rparr>
      in res_bind (panics (ConnectClientUnlocked ck to cfg1)) (\<lambda>cfg2. Inr (cfg2, ck)))))"

text \<open>\<open>os.Remove\<close> of the names has no effect on the network; they are not files.\<close>

definition deleteClient :: "nat \<Rightarrow> ('v, 'w) kv_config \<Rightarrow> ('v, 'w) kv_config" where
  "deleteClient ck cfg = cfg\<lparr>kc_clerks := (kc_clerks cfg)(ck := None)\<rparr>"

section \<open>Starting and stopping servers\<close>

definition kv_new_saved :: "nat \<Rightarrow> Persister \<Rightarrow> ('v, 'w) kv_config \<Rightarrow> ('v, 'w) kv_config" where
  "kv_new_saved i ps cfg = cfg\<lparr>kc_persister_store := kc_persister_store cfg @ [ps],
     kc_saved := (kc_saved cfg)[i := Some (length (kc_persister_store cfg))]\<rparr>"

definition ShutdownServer :: "nat \<Rightarrow> ('v, 'w) kv_config \<Rightarrow> ('v, 'w) kv_config option" where
  "ShutdownServer i cfg = do {
     cfg1 \<leftarrow> disconnectUnlocked i (All_servers cfg) cfg;
     let cfg2 = cfg1\<lparr>kc_net := DeleteServer (SrvName i) (kc_net cfg1)\<rparr>;
     p \<leftarrow> slice_get (kc_saved cfg2) i;
     cfg3 \<leftarrow> (case p of
         None \<Rightarrow> Some cfg2
       | Some a \<Rightarrow> do { ps \<leftarrow> slice_get (kc_persister_store cfg2) a; Some (kv_new_saved i (Persister_Copy ps) cfg2) });
     kv \<leftarrow> slice_get (kc_kvservers cfg3) i;
     (case kv of
        None \<Rightarrow> Some cfg3
      | Some k \<Rightarrow> do {
          cfg4 \<leftarrow> KVServer_Kill k cfg3;
          Some (cfg4\<lparr>kc_kvservers := (kc_kvservers cfg4)[i := None]\<rparr>)
        })
   }"

definition kv_fresh_saved :: "nat \<Rightarrow> ('v, 'w) kv_config \<Rightarrow> ('v, 'w) kv_config option" where
  "kv_fresh_saved i cfg = do {
     p \<leftarrow> slice_get (kc_saved cfg) i;
     (case p of
        None \<Rightarrow> Some (kv_new_saved i MakePersister cfg)
      | Some a \<Rightarrow> do { ps \<leftarrow> slice_get (kc_persister_store cfg) a; Some (kv_new_saved i (Persister_Copy ps) cfg) })
   }"

definition kv_launch ::
  "('v, 'w) Method list \<Rightarrow> ('v, 'w) Method list \<Rightarrow> name ClientEnd list \<Rightarrow> nat \<Rightarrow> ('v, 'w) kv_config \<Rightarrow>
   ('v, 'w) kv_config option" where
  "kv_launch kvtyp rftyp ends i cfg = do {
     p \<leftarrow> slice_get (kc_saved cfg) i;
     a \<leftarrow> p;
     (cfg1, k) \<leftarrow> StartKVServer ends i a (kc_maxraftstate cfg) cfg;
     kvservers \<leftarrow> slice_set (kc_kvservers cfg1) i (Some k);
     let kvsvc = MakeService ''KVServer'' kvtyp;
     let rfsvc = MakeService ''Raft'' rftyp;
     let srv = AddService (AddService MakeServer kvsvc) rfsvc;
     Some (cfg1\<lparr>kc_kvservers := kvservers, kc_server_store := kc_server_store cfg1 @ [srv],
       kc_net := AddServer (SrvName i) (Some (length (kc_server_store cfg1))) (kc_net cfg1)\<rparr>)
   }"

definition StartServer ::
  "('v, 'w) Method list \<Rightarrow> ('v, 'w) Method list \<Rightarrow> (nat \<Rightarrow> string) \<Rightarrow> nat \<Rightarrow> ('v, 'w) kv_config \<Rightarrow>
   go_error + ('v, 'w) kv_config" where
  "StartServer kvtyp rftyp rnd i cfg =
     (let names = map rnd [0..<kc_n cfg] in
      res_bind (panics (slice_set (kc_endnames cfg) i (Some names))) (\<lambda>endnames.
      res_bind (make_ends False (map (\<lambda>j. (EndName (names ! j), SrvName j)) [0..<kc_n cfg]) (kc_net cfg)) (\<lambda>(rn, ends).
      res_bind (panics (kv_fresh_saved i (cfg\<lparr>kc_endnames := endnames, kc_net := rn\<rparr>))) (\<lambda>cfg1.
      panics (kv_launch kvtyp rftyp ends i cfg1)))))"

definition kv_make_config ::
  "('v, 'w) Method list \<Rightarrow> ('v, 'w) Method list \<Rightarrow> (nat \<Rightarrow> nat \<Rightarrow> string) \<Rightarrow> nat \<Rightarrow> bool \<Rightarrow> int \<Rightarrow>
   go_error + ('v, 'w) kv_config" where
  "kv_make_config kvtyp rftyp rnd n unreliable maxraftstate =
     (let cfg = \<lparr>kc_net = MakeNetwork, kc_n = n, kc_kvservers = replicate n None, kc_saved = replicate n None,
          kc_endnames = replicate n None, kc_clerks = Map.empty, kc_nextClientId = int n + 1000,
          kc_maxraftstate = maxraftstate, kc_rpcs0 = 0, kc_ops = 0, kc_kv_store = [], kc_raft_store = [],
          kc_persister_store = [], kc_server_store = [], kc_clerk_store = []\<rparr>
      in res_bind (for_each_res (\<lambda>i. StartServer kvtyp rftyp (rnd i) i) [0..<n] cfg) (\<lambda>cfg1.
         res_bind (panics (ConnectAll cfg1)) (\<lambda>cfg2.
         Inr (cfg2\<lparr>kc_net := Reliable (\<not> unreliable) (kc_net cfg2)\<rparr>))))"

section \<open>The other operations\<close>

definition kv_saved_max :: "(Persister \<Rightarrow> nat) \<Rightarrow> ('v, 'w) kv_config \<Rightarrow> nat option" where
  "kv_saved_max size_of cfg = for_each (\<lambda>i m. do {
     p \<leftarrow> slice_get (kc_saved cfg) i;
     a \<leftarrow> p;
     ps \<leftarrow> slice_get (kc_persister_store cfg) a;
     let n = size_of ps;
     Some (if n > m then n else m)
   }) [0..<kc_n cfg] 0"

definition kv_LogSize :: "('v, 'w) kv_config \<Rightarrow> nat option" where
  "kv_LogSize cfg = kv_saved_max RaftStateSize cfg"

definition kv_SnapshotSize :: "('v, 'w) kv_config \<Rightarrow> nat option" where
  "kv_SnapshotSize cfg = kv_saved_max SnapshotSize cfg"

definition kv_cleanup :: "bool \<Rightarrow> nat \<Rightarrow> ('v, 'w) kv_config \<Rightarrow> go_error + ('v, 'w) kv_config" where
  "kv_cleanup failed seconds cfg =
     res_bind (panics (for_each (\<lambda>i cfg. do {
         p \<leftarrow> slice_get (kc_kvservers cfg) i;
         (case p of None \<Rightarrow> Some cfg | Some k \<Rightarrow> KVServer_Kill k cfg)
       }) [0..<length (kc_kvservers cfg)] cfg)) (\<lambda>cfg1.
     res_bind (Cleanup (kc_net cfg1)) (\<lambda>rn.
     res_bind (checkTimeout failed seconds) (\<lambda>_. Inr (cfg1\<lparr>kc_net := rn\<rparr>))))"

text \<open>\<open>gs r\<close> is what \<open>GetState\<close> returns for the peer \<open>r\<close>.\<close>

fun Leader_loop :: "(nat \<Rightarrow> int \<times> bool) \<Rightarrow> ('v, 'w) kv_config \<Rightarrow> nat list \<Rightarrow> (bool \<times> nat) option" where
  "Leader_loop gs cfg [] = Some (False, 0)"
| "Leader_loop gs cfg (i # is) = do {
     p \<leftarrow> slice_get (kc_kvservers cfg) i;
     k \<leftarrow> p;
     kv \<leftarrow> slice_get (kc_kv_store cfg) k;
     (if snd (gs (kv_rf kv)) then Some (True, i) else Leader_loop gs cfg is)
   }"

definition Leader :: "(nat \<Rightarrow> int \<times> bool) \<Rightarrow> ('v, 'w) kv_config \<Rightarrow> (bool \<times> nat) option" where
  "Leader gs cfg = Leader_loop gs cfg [0..<kc_n cfg]"

fun fill_partition ::
  "nat \<Rightarrow> nat list \<Rightarrow> nat list \<Rightarrow> nat list \<Rightarrow> nat \<Rightarrow> (nat list \<times> nat list) option" where
  "fill_partition l [] p1 p2 j = Some (p1, p2)"
| "fill_partition l (i # is) p1 p2 j =
     (if i \<noteq> l then
        (if j < length p1 then fill_partition l is (p1[j := i]) p2 (j + 1)
         else do { p2' \<leftarrow> slice_set p2 (j - length p1) i; fill_partition l is p1 p2' (j + 1) })
      else fill_partition l is p1 p2 j)"

definition partition_around :: "nat \<Rightarrow> nat \<Rightarrow> (nat list \<times> nat list) option" where
  "partition_around l n = do {
     (p1, p2) \<leftarrow> fill_partition l [0..<n] (replicate (n div 2 + 1) 0) (replicate (n div 2) 0) 0;
     (if length p2 = 0 then None else Some (p1, p2[length p2 - 1 := l]))
   }"

definition make_partition :: "(nat \<Rightarrow> int \<times> bool) \<Rightarrow> ('v, 'w) kv_config \<Rightarrow> (nat list \<times> nat list) option" where
  "make_partition gs cfg = do { (_, l) \<leftarrow> Leader gs cfg; partition_around l (kc_n cfg) }"

definition kv_rpcTotal :: "('v, 'w) kv_config \<Rightarrow> int" where
  "kv_rpcTotal cfg = GetTotalCount (kc_net cfg)"

definition kv_begin :: "('v, 'w) kv_config \<Rightarrow> ('v, 'w) kv_config" where
  "kv_begin cfg = cfg\<lparr>kc_rpcs0 := kv_rpcTotal cfg, kc_ops := 0\<rparr>"

definition kv_count_op :: "('v, 'w) kv_config \<Rightarrow> ('v, 'w) kv_config" where
  "kv_count_op cfg = cfg\<lparr>kc_ops := kc_ops cfg + 1\<rparr>"

definition kv_end :: "bool \<Rightarrow> nat \<Rightarrow> ('v, 'w) kv_config \<Rightarrow> go_error + (nat \<times> int \<times> int) option" where
  "kv_end failed seconds cfg =
     res_bind (checkTimeout failed seconds) (\<lambda>_.
       Inr (if \<not> failed then Some (kc_n cfg, kv_rpcTotal cfg - kc_rpcs0 cfg, sint (kc_ops cfg)) else None))"

section \<open>Partitions\<close>

text \<open>Every server has its end points.\<close>

definition kv_ready :: "('v, 'w) kv_config \<Rightarrow> bool" where
  "kv_ready cfg \<longleftrightarrow> names_inv (kc_n cfg) (kc_endnames cfg) (kc_net cfg) \<and>
     (\<forall>i < kc_n cfg. kc_endnames cfg ! i \<noteq> None)"

text \<open>Server \<open>a\<close> can send to server \<open>b\<close>.\<close>

definition link :: "('v, 'w) kv_config \<Rightarrow> nat \<Rightarrow> nat \<Rightarrow> bool" where
  "link cfg a b \<longleftrightarrow> (\<exists>e. endname_at (kc_endnames cfg) a b = Some e \<and> end_on (kc_net cfg) e)"

text \<open>Everything but which end points are enabled.\<close>

definition kv_rest :: "('v, 'w) kv_config \<Rightarrow> ('v, 'w) kv_config" where
  "kv_rest cfg = cfg\<lparr>kc_net := net_rest (kc_net cfg)\<rparr>"

lemma kv_ready_net: "kv_ready cfg \<longleftrightarrow> net_ready (kc_n cfg) (kc_endnames cfg) (kc_net cfg)"
  by (simp add: kv_ready_def net_ready_def)

lemma link_net: "link cfg = net_link (kc_endnames cfg) (kc_net cfg)"
  by (simp add: fun_eq_iff link_def net_link_def)

lemma kv_rest_net [simp]: "net_rest rn = net_rest (kc_net cfg) \<Longrightarrow> kv_rest (cfg\<lparr>kc_net := rn\<rparr>) = kv_rest cfg"
  by (simp add: kv_rest_def)

lemma connectUnlocked_law:
  assumes "kv_ready cfg" and "i < kc_n cfg" and "\<forall>t \<in> set to. t < kc_n cfg"
  shows "\<exists>cfg'. connectUnlocked i to cfg = Some cfg' \<and> kv_ready cfg' \<and> kc_n cfg' = kc_n cfg \<and> kv_rest cfg' = kv_rest cfg \<and>
     (\<forall>a < kc_n cfg. \<forall>b < kc_n cfg. link cfg' a b \<longleftrightarrow> between i (set to) a b \<or> link cfg a b)"
  by (rule connect_passes [OF assms(1) [unfolded kv_ready_net] assms(2,3)])
    (simp add: connectUnlocked_def kv_ready_net link_net)

lemma disconnectUnlocked_law:
  assumes "kv_ready cfg" and "i < kc_n cfg" and "\<forall>t \<in> set frm. t < kc_n cfg" and "length frm \<le> kc_n cfg"
  shows "\<exists>cfg'. disconnectUnlocked i frm cfg = Some cfg' \<and> kv_ready cfg' \<and> kc_n cfg' = kc_n cfg \<and> kv_rest cfg' = kv_rest cfg \<and>
     (\<forall>a < kc_n cfg. \<forall>b < kc_n cfg. link cfg' a b \<longleftrightarrow> \<not> between i (set frm) a b \<and> link cfg a b)"
  by (rule disconnect_passes [OF assms(1) [unfolded kv_ready_net] assms(2-4)])
    (simp add: disconnectUnlocked_def kv_ready_net link_net)

interpretation kv: cluster kc_n kv_ready link kv_rest connectUnlocked disconnectUnlocked
  by unfold_locales (use connectUnlocked_law disconnectUnlocked_law in blast)+

text \<open>
  C11. Partition: after \<open>partition(p1, p2)\<close> of two disjoint sets of servers, a server can send to another of the sets
  exactly when both are on the same side, whatever was connected before; the end points to servers outside
  the two sets keep their state.
\<close>

theorem partition_isolates:
  assumes "kv_ready cfg" and "distinct (p1 @ p2)" and "\<forall>t \<in> set (p1 @ p2). t < kc_n cfg"
  shows "\<exists>cfg'. kv_partition p1 p2 cfg = Some cfg' \<and> kv_ready cfg' \<and>
     (\<forall>a \<in> set (p1 @ p2). \<forall>b \<in> set (p1 @ p2). link cfg' a b \<longleftrightarrow> (a \<in> set p1 \<longleftrightarrow> b \<in> set p1)) \<and>
     (\<forall>a < kc_n cfg. \<forall>b < kc_n cfg. a \<notin> set (p1 @ p2) \<or> b \<notin> set (p1 @ p2) \<longrightarrow> link cfg' a b = link cfg a b)"
  using kv.partition_run [OF assms(1,2) refl assms(3)] by (auto simp: kv_partition_def partition_side_def)

text \<open>The configuration that \<open>make_config\<close> returns: every server has its end points and all are connected.\<close>

lemma StartServer_names:
  assumes "StartServer kvtyp rftyp rnd i cfg = Inr cfg'" and "names_inv (kc_n cfg) (kc_endnames cfg) (kc_net cfg)"
  shows "i < kc_n cfg \<and> kc_n cfg' = kc_n cfg \<and> names_inv (kc_n cfg) (kc_endnames cfg') (kc_net cfg') \<and>
     kc_endnames cfg' = (kc_endnames cfg)[i := Some (map rnd [0..<kc_n cfg])]"
proof -
  let ?names = "map rnd [0..<kc_n cfg]" and ?n = "kc_n cfg"
  from assms(1) obtain rn ends c1
    where i: "i < length (kc_endnames cfg)"
      and mk: "make_ends False (map (\<lambda>j. (EndName (?names ! j), SrvName j)) [0..<?n]) (kc_net cfg) = Inr (rn, ends)"
      and c1: "kv_fresh_saved i (cfg\<lparr>kc_endnames := (kc_endnames cfg)[i := Some ?names], kc_net := rn\<rparr>) = Some c1"
      and l: "kv_launch kvtyp rftyp ends i c1 = Some cfg'"
    by (auto simp: StartServer_def Let_def res_bind_Inr_iff panics_Inr_iff slice_set_eq_Some_iff)
  have n: "length (kc_endnames cfg) = ?n" using assms(2) by (simp add: names_inv_def)
  have new: "names_inv ?n ((kc_endnames cfg)[i := Some ?names]) rn"
    using new_names(1) [OF assms(2) _ _ mk] i n by simp
  have "kc_n c1 = ?n" "kc_endnames c1 = (kc_endnames cfg)[i := Some ?names]" "kc_net c1 = rn"
    using c1 by (auto simp: kv_fresh_saved_def kv_new_saved_def bind_eq_Some_conv split: option.splits)
  moreover from l have "kc_n cfg' = kc_n c1" "kc_endnames cfg' = kc_endnames c1"
    "\<exists>p. kc_net cfg' = AddServer (SrvName i) p (kc_net c1)"
    by (auto simp: kv_launch_def StartKVServer_def bind_eq_Some_conv Let_def)
  ultimately show ?thesis using new i n by auto
qed

lemma start_servers:
  assumes "for_each_res (\<lambda>i. StartServer kvtyp rftyp (rnd i) i) xs cfg = Inr cfg'"
    and "names_inv (kc_n cfg) (kc_endnames cfg) (kc_net cfg)"
  shows "kc_n cfg' = kc_n cfg \<and> names_inv (kc_n cfg) (kc_endnames cfg') (kc_net cfg') \<and>
     (\<forall>i < kc_n cfg. i \<in> set xs \<or> kc_endnames cfg ! i \<noteq> None \<longrightarrow> kc_endnames cfg' ! i \<noteq> None)"
  using assms
proof (induction xs arbitrary: cfg)
  case (Cons x xs)
  from Cons.prems(1) obtain c1 where c1: "StartServer kvtyp rftyp (rnd x) x cfg = Inr c1"
    and rest: "for_each_res (\<lambda>i. StartServer kvtyp rftyp (rnd i) i) xs c1 = Inr cfg'" by (auto simp: res_bind_Inr_iff)
  note ok = StartServer_names [OF c1 Cons.prems(2)]
  have "length (kc_endnames cfg) = kc_n cfg" using Cons.prems(2) by (simp add: names_inv_def)
  with ok have "kc_endnames c1 ! i \<noteq> None" if "i < kc_n cfg" "i = x \<or> kc_endnames cfg ! i \<noteq> None" for i
    using that by (cases "i = x") auto
  with Cons.IH [OF rest] ok show ?case by auto
qed simp

lemma kv_make_config_ready:
  fixes cfg :: "('v, 'w) kv_config"
  assumes "kv_make_config kvtyp rftyp rnd n unreliable maxraftstate = Inr cfg"
  shows "kv_ready cfg \<and> kc_n cfg = n \<and> (\<forall>a < n. \<forall>b < n. link cfg a b)"
proof -
  let ?c = "\<lparr>kc_net = MakeNetwork, kc_n = n, kc_kvservers = replicate n None, kc_saved = replicate n None,
      kc_endnames = replicate n None, kc_clerks = Map.empty, kc_nextClientId = int n + 1000,
      kc_maxraftstate = maxraftstate, kc_rpcs0 = 0, kc_ops = 0, kc_kv_store = [], kc_raft_store = [],
      kc_persister_store = [], kc_server_store = [], kc_clerk_store = []\<rparr> :: ('v, 'w) kv_config"
  from assms obtain c1 c2 where c1: "for_each_res (\<lambda>i. StartServer kvtyp rftyp (rnd i) i) [0..<n] ?c = Inr c1"
    and c2: "ConnectAll c1 = Some c2" and cfg: "cfg = c2\<lparr>kc_net := Reliable (\<not> unreliable) (kc_net c2)\<rparr>"
    by (auto simp: kv_make_config_def Let_def res_bind_Inr_iff panics_Inr_iff)
  have "names_inv (kc_n ?c) (kc_endnames ?c) (kc_net ?c)" by (auto simp: names_inv_def endname_at_Some_iff)
  from start_servers [OF c1 this] have r1: "kv_ready c1" "kc_n c1 = n" by (simp_all add: kv_ready_def)
  from kv.con_all [OF r1(1), of "[0..<kc_n c1]", OF _ refl] c2 have c2': "kc_n c2 = n" "kv_ready c2"
    and l: "\<And>a b. a < n \<Longrightarrow> b < n \<Longrightarrow> link c2 a b" using r1(2) by (auto simp: ConnectAll_def All_servers_def)
  have "kv_ready cfg" using c2'(2) by (simp add: cfg kv_ready_def names_inv_def Reliable_def)
  moreover have "link cfg a b = link c2 a b" for a b by (simp add: cfg link_def end_on_def Reliable_def)
  ultimately show ?thesis using l r1(2) c2'(1) cfg by auto
qed

definition ex_kv :: "go_error + (unit, unit) kv_config" where
  "ex_kv = kv_make_config [] [] (\<lambda>i j. replicate i (CHR ''a'') @ CHR ''-'' # replicate j (CHR ''b'')) 3 False (-1)"

lemma ex_kv_run: "case ex_kv of Inl e \<Rightarrow> False | Inr cfg \<Rightarrow> True"
  by code_simp

theorem partition_isolates_witness:
  "\<exists>cfg cfg'. ex_kv = Inr cfg \<and> kv_partition [2, 0] [1] cfg = Some cfg' \<and>
     link cfg' 0 2 \<and> \<not> link cfg' 0 1 \<and> \<not> link cfg' 1 2 \<and> link cfg 0 1"
proof -
  obtain cfg where cfg: "ex_kv = Inr cfg" using ex_kv_run by (auto split: sum.splits)
  from kv_make_config_ready [OF cfg [unfolded ex_kv_def]] have r: "kv_ready cfg" "kc_n cfg = 3" "link cfg 0 1" by auto
  from partition_isolates [OF r(1), of "[2, 0]" "[1]"] r(2) cfg r(3) show ?thesis by fastforce
qed

section \<open>The leader in a minority\<close>

lemma fill_next: "(xs @ replicate (Suc k) z)[length xs := v] = (xs @ [v]) @ replicate k z"
  by (simp add: list_update_append)

text \<open>
  The loop of \<open>make_partition\<close> after the servers \<open>os\<close> other than the leader: the first \<open>k1\<close> of them fill \<open>p1\<close>, the
  others \<open>p2\<close>; \<open>is\<close> are still to come.
\<close>

lemma fill_partition_run:
  assumes "length (os @ filter (\<lambda>i. i \<noteq> l) is) \<le> k1 + k2"
  shows "fill_partition l is (take k1 os @ replicate (k1 - length os) 0)
       (drop k1 os @ replicate (k2 - (length os - k1)) 0) (length os) =
     (let os' = os @ filter (\<lambda>i. i \<noteq> l) is in
      Some (take k1 os' @ replicate (k1 - length os') 0, drop k1 os' @ replicate (k2 - (length os' - k1)) 0))"
  using assms
proof (induction "is" arbitrary: os)
  case (Cons i "is")
  show ?case
  proof (cases "i \<noteq> l")
    case True
    have IH: "fill_partition l is (take k1 (os @ [i]) @ replicate (k1 - length (os @ [i])) 0)
        (drop k1 (os @ [i]) @ replicate (k2 - (length (os @ [i]) - k1)) 0) (length (os @ [i])) =
      (let os' = os @ filter (\<lambda>i. i \<noteq> l) (i # is) in
       Some (take k1 os' @ replicate (k1 - length os') 0, drop k1 os' @ replicate (k2 - (length os' - k1)) 0))"
      using Cons.IH [of "os @ [i]"] Cons.prems True by simp
    show ?thesis
    proof (cases "length os < k1")
      case less: True
      then obtain d where d: "k1 - length os = Suc d" by (metis Suc_diff_Suc)
      then have "(take k1 os @ replicate (k1 - length os) 0)[length os := i] =
          take k1 (os @ [i]) @ replicate (k1 - length (os @ [i])) 0"
        using less fill_next [of os d 0 i] by simp
      with IH less True show ?thesis by simp
    next
      case ge: False
      then obtain d where d: "k2 - (length os - k1) = Suc d" using Cons.prems True by (auto simp: not_less intro: that [of "k2 - (length os - k1) - 1"])
      have "(drop k1 os @ replicate (k2 - (length os - k1)) 0)[length os - k1 := i] =
          drop k1 (os @ [i]) @ replicate (k2 - (length (os @ [i]) - k1)) 0"
        using ge d fill_next [of "drop k1 os" d 0 i] by simp
      with IH ge True d show ?thesis by (simp add: slice_set_def)
    qed
  next
    case False
    with Cons show ?thesis by simp
  qed
qed simp

lemma partition_around_minority:
  assumes "n = 2 * m + 1" and "1 \<le> m" and "l < n"
  shows "\<exists>p1 p2. partition_around l n = Some (p1, p2) \<and> distinct (p1 @ p2) \<and> set (p1 @ p2) = {..<n} \<and>
     l \<in> set p2 \<and> length p1 = m + 1 \<and> length p2 = m"
proof -
  define os where "os = filter (\<lambda>i. i \<noteq> l) [0..<n]"
  have os: "distinct os" "set os = {..<n} - {l}" by (auto simp: os_def)
  then have len: "length os = 2 * m" using distinct_card [of os] assms(1,3) by simp
  let ?p1 = "take (m + 1) os" and ?p2 = "drop (m + 1) os @ [l]"
  have "fill_partition l [0..<n] (replicate (m + 1) 0) (replicate m 0) 0 = Some (?p1, drop (m + 1) os @ [0])"
    using fill_partition_run [of "[]" l "[0..<n]" "m + 1" m] len assms(2)
    by (simp add: Let_def os_def [symmetric])
  moreover have "n div 2 = m" using assms(1) by simp
  ultimately have run: "partition_around l n = Some (?p1, ?p2)" by (simp add: partition_around_def list_update_append)
  have all: "?p1 @ ?p2 = os @ [l]" by simp
  have "distinct (?p1 @ ?p2)" "set (?p1 @ ?p2) = {..<n}" unfolding all using os assms(3) by auto
  moreover have "length ?p1 = m + 1" "length ?p2 = m" using len assms(2) by simp_all
  ultimately show ?thesis using run by (intro exI [of _ ?p1] exI [of _ ?p2]) simp
qed

text \<open>
  C39. With an odd number of servers, three or more, \<open>make_partition\<close> splits all servers into two disjoint sets so that the
  first has one more than the second, a majority, and the leader is in the second.
\<close>

theorem make_partition_minority:
  assumes "Leader gs cfg = Some (b, l)" and "kc_n cfg = 2 * m + 1" and "1 \<le> m" and "l < kc_n cfg"
  shows "\<exists>p1 p2. make_partition gs cfg = Some (p1, p2) \<and> distinct (p1 @ p2) \<and> set (p1 @ p2) = {..<kc_n cfg} \<and>
     l \<in> set p2 \<and> length p1 = m + 1 \<and> length p2 = m"
  using partition_around_minority [OF assms(2-4)] assms(1) by (auto simp: make_partition_def)

theorem make_partition_minority_witness:
  "\<exists>cfg p1 p2. ex_kv = Inr cfg \<and> make_partition (\<lambda>r. (4, r = 1)) cfg = Some (p1, p2) \<and> 1 \<in> set p2 \<and> length p2 = 1"
proof -
  have "case ex_kv of Inl e \<Rightarrow> False | Inr cfg \<Rightarrow> kc_n cfg = 3 \<and> Leader (\<lambda>r. (4, r = 1)) cfg = Some (True, 1)" by code_simp
  then obtain cfg where cfg: "ex_kv = Inr cfg" "kc_n cfg = 2 * 1 + 1" "Leader (\<lambda>r. (4, r = 1)) cfg = Some (True, 1)"
    by (auto split: sum.splits)
  with make_partition_minority [OF cfg(3,2)] show ?thesis by auto
qed

section \<open>Shuffling\<close>

lemma swap_at_run: "i < length sa \<Longrightarrow> j < length sa \<Longrightarrow> swap_at sa i j = Some (sa[i := sa ! j, j := sa ! i])"
  by (simp add: swap_at_def)

text \<open>The first \<open>k\<close> rounds permute the first \<open>k\<close> elements and touch no other.\<close>

lemma shuffle_prefix:
  assumes "\<And>i. rnd i \<le> i" and "k \<le> length kvh"
  shows "\<exists>sa. for_each (\<lambda>i sa. swap_at sa i (rnd i)) [0..<k] kvh = Some (sa @ drop k kvh) \<and> mset sa = mset (take k kvh)"
  using assms(2)
proof (induction k)
  case (Suc k)
  then obtain sa where sa: "for_each (\<lambda>i sa. swap_at sa i (rnd i)) [0..<k] kvh = Some (sa @ drop k kvh)"
    "mset sa = mset (take k kvh)" by auto
  have len: "length sa = k" using mset_eq_length [OF sa(2)] Suc.prems by simp
  let ?x = "kvh ! k" and ?l = "sa @ [kvh ! k]"
  have d: "drop k kvh = ?x # drop (Suc k) kvh" using Suc.prems by (simp add: Cons_nth_drop_Suc)
  have r: "rnd k \<le> k" by (rule assms(1))
  have "swap_at (sa @ drop k kvh) k (rnd k) = Some (?l[k := ?l ! rnd k, rnd k := ?l ! k] @ drop (Suc k) kvh)"
    using len r Suc.prems by (subst swap_at_run) (auto simp: d list_update_append nth_append list_update_append1)
  moreover have "mset (?l[k := ?l ! rnd k, rnd k := ?l ! k]) = mset (take (Suc k) kvh)"
    using len r sa(2) Suc.prems by (subst mset_swap) (auto simp: take_Suc_conv_app_nth)
  ultimately show ?case using sa(1) by (auto simp: for_each_append)
qed simp

text \<open>Every order can be reached: put the last element where it belongs.\<close>

lemma shuffle_reaches:
  assumes "mset ys = mset (take k kvh)" and "k \<le> length kvh"
  shows "\<exists>rnd. (\<forall>i. rnd i \<le> i) \<and> for_each (\<lambda>i sa. swap_at sa i (rnd i)) [0..<k] kvh = Some (ys @ drop k kvh)"
  using assms
proof (induction k arbitrary: ys)
  case 0
  then show ?case by (intro exI [of _ "\<lambda>_. 0"]) simp
next
  case (Suc k)
  let ?x = "kvh ! k"
  have len: "length ys = Suc k" using mset_eq_length [OF Suc.prems(1)] Suc.prems(2) by simp
  have ys: "mset ys = add_mset ?x (mset (take k kvh))" using Suc.prems by (simp add: take_Suc_conv_app_nth)
  then have "?x \<in> set ys" by (metis set_mset_mset union_single_eq_member)
  then obtain j where j: "j \<le> k" "ys ! j = ?x" using len by (auto simp: in_set_conv_nth less_Suc_eq_le)
  let ?zs = "ys[j := ys ! k, k := ?x]"
  have zs: "mset ?zs = mset ys" using j len mset_swap [of k ys j] by simp
  have ne: "?zs \<noteq> []" using len by auto
  moreover have "last ?zs = ?x" using last_conv_nth [OF ne] len by simp
  ultimately have last: "?zs = butlast ?zs @ [?x]" by (metis append_butlast_last_id)
  have "mset (butlast ?zs) = mset (take k kvh)"
  proof -
    have "mset (butlast ?zs) + {#?x#} = mset (take k kvh) + {#?x#}"
      using zs ys by (subst (asm) last) simp
    then show ?thesis by simp
  qed
  with Suc.IH [of "butlast ?zs"] Suc.prems(2) obtain rnd where rnd: "\<forall>i. rnd i \<le> i"
    "for_each (\<lambda>i sa. swap_at sa i (rnd i)) [0..<k] kvh = Some (butlast ?zs @ drop k kvh)" by auto
  let ?rnd = "rnd(k := j)"
  have d: "drop k kvh = ?x # drop (Suc k) kvh" using Suc.prems(2) by (simp add: Cons_nth_drop_Suc)
  have "for_each (\<lambda>i sa. swap_at sa i (?rnd i)) [0..<k] kvh = for_each (\<lambda>i sa. swap_at sa i (rnd i)) [0..<k] kvh"
    by (rule for_each_cong) simp_all
  moreover have "swap_at (butlast ?zs @ drop k kvh) k j = Some (ys @ drop (Suc k) kvh)"
  proof -
    have "butlast ?zs @ drop k kvh = ?zs @ drop (Suc k) kvh" unfolding d using last by (metis append_Cons append_Nil append_assoc)
    moreover have "?zs[k := ?zs ! j, j := ?zs ! k] = ys" using j len by (auto simp: list_eq_iff_nth_eq nth_list_update)
    ultimately show ?thesis using j len by (subst swap_at_run) (auto simp: list_update_append1 nth_append)
  qed
  ultimately have "for_each (\<lambda>i sa. swap_at sa i (?rnd i)) [0..<Suc k] kvh = Some (ys @ drop (Suc k) kvh)"
    using rnd(2) by (simp add: for_each_append)
  with rnd(1) j(1) show ?case by (intro exI [of _ ?rnd]) auto
qed

text \<open>
  \<open>random_handles\<close> returns the handles in some order, never panics, and can return them in any order.
\<close>

theorem random_handles_orders:
  "{sa. \<exists>rnd. (\<forall>i. rnd i \<le> i) \<and> random_handles rnd kvh = Some sa} = {sa. mset sa = mset kvh} \<and>
   (\<forall>rnd. (\<forall>i. rnd i \<le> i) \<longrightarrow> random_handles rnd kvh \<noteq> None)"
proof -
  have run: "\<exists>sa. random_handles rnd kvh = Some sa \<and> mset sa = mset kvh" if "\<forall>i. rnd i \<le> i" for rnd
    using shuffle_prefix [of rnd "length kvh" kvh] that by (simp add: random_handles_def)
  have "\<exists>rnd. (\<forall>i. rnd i \<le> i) \<and> random_handles rnd kvh = Some sa" if "mset sa = mset kvh" for sa
    using shuffle_reaches [of sa "length kvh" kvh] that by (simp add: random_handles_def)
  moreover have "mset sa = mset kvh" if "\<forall>i. rnd i \<le> i" "random_handles rnd kvh = Some sa" for rnd sa
    using run [OF that(1)] that(2) by auto
  ultimately have "{sa. \<exists>rnd. (\<forall>i. rnd i \<le> i) \<and> random_handles rnd kvh = Some sa} = {sa. mset sa = mset kvh}" by blast
  moreover have "random_handles rnd kvh \<noteq> None" if "\<forall>i. rnd i \<le> i" for rnd using run [OF that] by auto
  ultimately show ?thesis by blast
qed

theorem random_handles_orders_witness: "random_handles (\<lambda>i. i div 2) ''abc'' \<noteq> None"
  using random_handles_orders [of "''abc''"] by (metis div_le_dividend)

end
