(* ===== verification/Decimal.thy ===== *)
theory Decimal
  imports Lab_Prelude
begin

text \<open>
  The decimal notation of numbers, which \<open>strconv.Itoa\<close> and the verb \<open>%d\<close> of \<open>fmt\<close> write and \<open>fmt.Sscanf\<close> reads. Reading what
  was written gives the number back, so different numbers have different notations.
\<close>

section \<open>Writing\<close>

text \<open>\<open>strconv.Itoa\<close>, of a natural number and of an \<open>int\<close>.\<close>

function Itoa :: "nat \<Rightarrow> string" where
  "Itoa n = (if n < 10 then [char_of (48 + n)] else Itoa (n div 10) @ [char_of (48 + n mod 10)])"
  by pat_completeness auto

termination
  by (relation "measure id") auto

declare Itoa.simps [simp del]

definition Itoa_int :: "int \<Rightarrow> string" where
  "Itoa_int i = (if i < 0 then CHR ''-'' # Itoa (nat (- i)) else Itoa (nat i))"

section \<open>Reading\<close>

definition is_digit :: "char \<Rightarrow> bool" where
  "is_digit c \<longleftrightarrow> 48 \<le> (of_char c :: nat) \<and> (of_char c :: nat) \<le> 57"

definition digits_value :: "string \<Rightarrow> nat" where
  "digits_value s = fold (\<lambda>c v. v * 10 + (of_char c - 48)) s 0"

section \<open>Round trip\<close>

lemma digit_char:
  fixes d :: nat
  assumes "d < 10"
  shows "is_digit (char_of (48 + d))" and "of_char (char_of (48 + d) :: char) = 48 + d"
proof -
  show "of_char (char_of (48 + d) :: char) = 48 + d" using assms by simp
  then show "is_digit (char_of (48 + d))" using assms unfolding is_digit_def by simp
qed

lemma Itoa_digits: "Itoa n \<noteq> [] \<and> list_all is_digit (Itoa n)"
proof (induction n rule: Itoa.induct)
  case (1 n)
  show ?case
  proof (cases "n < 10")
    case True
    then show ?thesis by (subst Itoa.simps, subst (2) Itoa.simps) (simp add: digit_char(1))
  next
    case False
    with 1 have "list_all is_digit (Itoa (n div 10))" by simp
    moreover have "Itoa n = Itoa (n div 10) @ [char_of (48 + n mod 10)]" using False by (simp add: Itoa.simps [of n])
    moreover have "is_digit (char_of (48 + n mod 10))" by (rule digit_char(1)) simp
    ultimately show ?thesis by simp
  qed
qed

lemma digits_value_Itoa [simp]: "digits_value (Itoa n) = n"
proof (induction n rule: Itoa.induct)
  case (1 n)
  show ?case
  proof (cases "n < 10")
    case True
    then have "Itoa n = [char_of (48 + n)]" by (simp add: Itoa.simps [of n])
    with digit_char(2) [OF True] show ?thesis by (simp add: digits_value_def)
  next
    case False
    have "Itoa n = Itoa (n div 10) @ [char_of (48 + n mod 10)]" using False by (simp add: Itoa.simps [of n])
    moreover have "of_char (char_of (48 + n mod 10) :: char) = 48 + n mod 10" by (rule digit_char(2)) simp
    ultimately have "digits_value (Itoa n) = digits_value (Itoa (n div 10)) * 10 + n mod 10" by (simp add: digits_value_def)
    with 1 False show ?thesis by simp
  qed
qed

lemma Itoa_inj [simp]: "Itoa m = Itoa n \<longleftrightarrow> m = n"
  by (metis digits_value_Itoa)

lemma Itoa_not_minus: "Itoa n \<noteq> CHR ''-'' # s"
proof
  assume "Itoa n = CHR ''-'' # s"
  with Itoa_digits [of n] show False by (simp add: is_digit_def)
qed

lemma Itoa_int_inj [simp]: "Itoa_int i = Itoa_int j \<longleftrightarrow> i = j"
  using Itoa_not_minus [of "nat i"] Itoa_not_minus [of "nat j"]
  by (auto simp: Itoa_int_def) (metis Itoa_not_minus)+

text \<open>What stands before the first character that is not a digit.\<close>

lemma takeWhile_Itoa:
  assumes "s = [] \<or> \<not> is_digit (hd s)"
  shows "takeWhile is_digit (Itoa n @ s) = Itoa n" and "dropWhile is_digit (Itoa n @ s) = s"
proof -
  have "\<forall>c \<in> set (Itoa n). is_digit c" using Itoa_digits [of n] by (simp add: list_all_iff)
  then show "takeWhile is_digit (Itoa n @ s) = Itoa n" "dropWhile is_digit (Itoa n @ s) = s"
    using assms by (cases s; simp add: takeWhile_eq_all_conv dropWhile_eq_Nil_conv takeWhile_append2 dropWhile_append2)+
qed

text \<open>A notation that is followed by a character other than a digit can be read off unambiguously.\<close>

lemma Itoa_int_prefix:
  assumes "Itoa_int i @ CHR ''-'' # s = Itoa_int j @ CHR ''-'' # t"
  shows "i = j \<and> s = t"
proof -
  have minus: "\<not> is_digit (CHR ''-'')" by (simp add: is_digit_def)
  have nat: "m = n \<and> s = t" if "Itoa m @ CHR ''-'' # s = Itoa n @ CHR ''-'' # t" for m n
    using takeWhile_Itoa [of "CHR ''-'' # s" m] takeWhile_Itoa [of "CHR ''-'' # t" n] minus that by simp
  have sign: False if "Itoa m @ s' = CHR ''-'' # t'" for m s' t'
    using that Itoa_digits [of m] minus by (cases "Itoa m") auto
  from assms show ?thesis
    by (cases "i < 0"; cases "j < 0") (auto simp: Itoa_int_def dest: nat sign [OF sym] sign)
qed

end
