(* ===== verification/MapReduce.thy ===== *)
theory MapReduce
  imports Decimal "HOL-Library.Word" "HOL-Library.Char_ord" "HOL-Library.List_Lexorder"
begin

text \<open>
  The sequential MapReduce of \<open>main/mrsequential.go\<close>, the hash of \<open>mr/worker.go\<close> that chooses a reduce task, and the
  applications \<open>mrapps/wc.go\<close>, \<open>mrapps/indexer.go\<close>, \<open>mrapps/crash.go\<close>, \<open>mrapps/nocrash.go\<close> and \<open>mrapps/early_exit.go\<close>.

  A string is the list of its bytes, compared lexicographically as Go compares strings. The file system is an
  argument: what opening and reading a file yields. \<open>unicode.IsLetter\<close> is the argument \<open>isLetter\<close>, asked for each
  character. \<open>sort.Sort\<close> is any function that meets its contract, and the order in which a map is
  iterated is an argument too.

  The theory shows that the output has one line for each key, in increasing order, with the result of \<open>Reduce\<close> on
  all values of the key, whatever the sorting function does with equal keys, when \<open>Reduce\<close> does not depend on the
  order of the values; so word count counts words, and the index lists the documents of each word.
\<close>

unbundle bit_operations_syntax

section \<open>Keys and values\<close>

record KeyValue =
  mr_Key :: string
  mr_Value :: string

definition ByKey_Less :: "KeyValue \<Rightarrow> KeyValue \<Rightarrow> bool" where
  "ByKey_Less a b \<longleftrightarrow> mr_Key a < mr_Key b"

text \<open>The hash FNV-1a of 32 bits.\<close>

definition fnv32a :: "string \<Rightarrow> 32 word" where
  "fnv32a s = fold (\<lambda>c h. (h XOR of_nat (of_char c)) * 16777619) s 2166136261"

definition ihash :: "string \<Rightarrow> int" where
  "ihash key = uint (fnv32a key AND 0x7fffffff)"

section \<open>mrsequential\<close>

text \<open>\<open>None\<close>: the file cannot be opened; \<open>Some None\<close>: it cannot be read.\<close>

type_synonym files = "string \<Rightarrow> string option option"

primrec map_files ::
  "(string \<Rightarrow> string \<Rightarrow> KeyValue list) \<Rightarrow> files \<Rightarrow> string list \<Rightarrow> KeyValue list \<Rightarrow> go_error + KeyValue list" where
  "map_files mapf fs [] intermediate = Inr intermediate"
| "map_files mapf fs (filename # rest) intermediate =
     (case fs filename of
        None \<Rightarrow> Inl LogFatal
      | Some None \<Rightarrow> Inl LogFatal
      | Some (Some content) \<Rightarrow>
          (let kva = mapf filename content in map_files mapf fs rest (intermediate @ kva)))"

function run_end :: "KeyValue list \<Rightarrow> nat \<Rightarrow> nat \<Rightarrow> nat" where
  "run_end xs i j = (if j < length xs \<and> mr_Key (xs ! j) = mr_Key (xs ! i) then run_end xs i (j + 1) else j)"
  by pat_completeness auto

termination
  by (relation "measure (\<lambda>(xs, i, j). length xs - j)") auto

declare run_end.simps [simp del]

lemma run_end_ge: "j \<le> run_end xs i j"
proof (induction xs i j rule: run_end.induct)
  case (1 xs i j)
  then show ?case by (subst run_end.simps) auto
qed

function reduce_loop :: "(string \<Rightarrow> string list \<Rightarrow> string) \<Rightarrow> KeyValue list \<Rightarrow> nat \<Rightarrow> string" where
  "reduce_loop reducef xs i =
     (if i < length xs then
        (let j = run_end xs i (i + 1);
             values = map (\<lambda>k. mr_Value (xs ! k)) [i..<j];
             output = reducef (mr_Key (xs ! i)) values
         in mr_Key (xs ! i) @ '' '' @ output @ [CHR 0x0A] @ reduce_loop reducef xs j)
      else [])"
  by pat_completeness auto

termination
  by (relation "measure (\<lambda>(reducef, xs, i). length xs - i)") (auto intro: diff_less_mono2 less_le_trans [OF _ run_end_ge])

declare reduce_loop.simps [simp del]

text \<open>
  The whole program after loading the plugin; a usage error ends it with status 1, and the value is the
  content of \<open>mr-out-0\<close>.
\<close>

datatype mr_exit = Usage | Failed go_error | Output string

definition mrsequential ::
  "(KeyValue list \<Rightarrow> KeyValue list) \<Rightarrow> (string \<Rightarrow> string \<Rightarrow> KeyValue list) \<Rightarrow> (string \<Rightarrow> string list \<Rightarrow> string) \<Rightarrow> files \<Rightarrow>
   string list \<Rightarrow> mr_exit" where
  "mrsequential srt mapf reducef fs args =
     (if length args < 3 then Usage
      else case map_files mapf fs (drop 2 args) [] of
        Inl e \<Rightarrow> Failed e
      | Inr intermediate \<Rightarrow> Output (reduce_loop reducef (srt intermediate) 0))"

section \<open>Applications\<close>

primrec FieldsFunc_loop :: "(char \<Rightarrow> bool) \<Rightarrow> string \<Rightarrow> string \<Rightarrow> string list" where
  "FieldsFunc_loop f cur [] = (if cur \<noteq> [] then [cur] else [])"
| "FieldsFunc_loop f cur (c # cs) =
     (if f c then (if cur \<noteq> [] then cur # FieldsFunc_loop f [] cs else FieldsFunc_loop f [] cs)
      else FieldsFunc_loop f (cur @ [c]) cs)"

definition FieldsFunc :: "string \<Rightarrow> (char \<Rightarrow> bool) \<Rightarrow> string list" where
  "FieldsFunc s f = FieldsFunc_loop f [] s"

fun Join :: "string list \<Rightarrow> string \<Rightarrow> string" where
  "Join [] sep = []"
| "Join [s] sep = s"
| "Join (s # t # ss) sep = s @ sep @ Join (t # ss) sep"

definition wc_Map :: "(char \<Rightarrow> bool) \<Rightarrow> string \<Rightarrow> string \<Rightarrow> KeyValue list" where
  "wc_Map isLetter filename contents =
     (let ff = (\<lambda>r. \<not> isLetter r);
          words = FieldsFunc contents ff
      in map (\<lambda>w. \<lparr>mr_Key = w, mr_Value = ''1''\<rparr>) words)"

definition wc_Reduce :: "string \<Rightarrow> string list \<Rightarrow> string" where
  "wc_Reduce key values = Itoa (length values)"

text \<open>\<open>range m\<close> visits the keys of a map in an order that is not specified: \<open>rng\<close> puts them into one.\<close>

definition indexer_Map ::
  "(string list \<Rightarrow> string list) \<Rightarrow> (char \<Rightarrow> bool) \<Rightarrow> string \<Rightarrow> string \<Rightarrow> KeyValue list" where
  "indexer_Map rng isLetter document value =
     (let words = FieldsFunc value (\<lambda>x. \<not> isLetter x);
          m = remdups words
      in map (\<lambda>w. \<lparr>mr_Key = w, mr_Value = document\<rparr>) (rng m))"

definition indexer_Reduce :: "string \<Rightarrow> string list \<Rightarrow> string" where
  "indexer_Reduce key values = (let values' = sort values in Itoa (length values') @ '' '' @ Join values' '','')"

text \<open>\<open>maybeCrash\<close>: \<open>rr\<close> is the random number; a delay has no effect on the result.\<close>

definition crash_maybeCrash :: "nat \<Rightarrow> bool" where
  "crash_maybeCrash rr \<longleftrightarrow> rr < 330"

definition crash_Map :: "nat \<Rightarrow> string \<Rightarrow> string \<Rightarrow> KeyValue list option" where
  "crash_Map rr filename contents =
     (if crash_maybeCrash rr then None
      else Some [\<lparr>mr_Key = ''a'', mr_Value = filename\<rparr>, \<lparr>mr_Key = ''b'', mr_Value = Itoa (length filename)\<rparr>,
        \<lparr>mr_Key = ''c'', mr_Value = Itoa (length contents)\<rparr>, \<lparr>mr_Key = ''d'', mr_Value = ''xyzzy''\<rparr>])"

definition crash_Reduce :: "nat \<Rightarrow> string \<Rightarrow> string list \<Rightarrow> string option" where
  "crash_Reduce rr key values =
     (if crash_maybeCrash rr then None
      else let vv = sort (go_copy (replicate (length values) []) values) in Some (Join vv '' ''))"

definition nocrash_maybeCrash :: "nat \<Rightarrow> bool" where
  "nocrash_maybeCrash rr \<longleftrightarrow> False \<and> rr < 500"

definition nocrash_Map :: "nat \<Rightarrow> string \<Rightarrow> string \<Rightarrow> KeyValue list option" where
  "nocrash_Map rr filename contents =
     (if nocrash_maybeCrash rr then None
      else Some [\<lparr>mr_Key = ''a'', mr_Value = filename\<rparr>, \<lparr>mr_Key = ''b'', mr_Value = Itoa (length filename)\<rparr>,
        \<lparr>mr_Key = ''c'', mr_Value = Itoa (length contents)\<rparr>, \<lparr>mr_Key = ''d'', mr_Value = ''xyzzy''\<rparr>])"

definition nocrash_Reduce :: "nat \<Rightarrow> string \<Rightarrow> string list \<Rightarrow> string option" where
  "nocrash_Reduce rr key values =
     (if nocrash_maybeCrash rr then None
      else let vv = sort (go_copy (replicate (length values) []) values) in Some (Join vv '' ''))"

definition early_exit_Map :: "string \<Rightarrow> string \<Rightarrow> KeyValue list" where
  "early_exit_Map filename contents = [\<lparr>mr_Key = filename, mr_Value = ''1''\<rparr>]"

definition early_exit_Reduce :: "string \<Rightarrow> string list \<Rightarrow> string" where
  "early_exit_Reduce key values = Itoa (length values)"

section \<open>Groups of equal keys\<close>

text \<open>The values of a key, in the order of the list, and the runs of equal keys.\<close>

definition values_of :: "string \<Rightarrow> KeyValue list \<Rightarrow> string list" where
  "values_of k xs = map mr_Value (filter (\<lambda>x. mr_Key x = k) xs)"

function groups :: "KeyValue list \<Rightarrow> (string \<times> string list) list" where
  "groups [] = []"
| "groups (y # ys) =
     (mr_Key y, map mr_Value (y # takeWhile (\<lambda>x. mr_Key x = mr_Key y) ys)) #
     groups (dropWhile (\<lambda>x. mr_Key x = mr_Key y) ys)"
  by pat_completeness auto

termination
  by (relation "measure length") (auto simp: le_imp_less_Suc length_dropWhile_le)

definition out_line :: "(string \<Rightarrow> string list \<Rightarrow> string) \<Rightarrow> string \<times> string list \<Rightarrow> string" where
  "out_line reducef g = fst g @ '' '' @ reducef (fst g) (snd g) @ [CHR 0x0A]"

lemma out_line_Pair: "out_line reducef (k, vs) = k @ '' '' @ reducef k vs @ [CHR 0x0A]"
  by (simp add: out_line_def)

lemma run_end_eq: "run_end xs i j = j + length (takeWhile (\<lambda>x. mr_Key x = mr_Key (xs ! i)) (drop j xs))"
proof (induction xs i j rule: run_end.induct)
  case (1 xs i j)
  show ?case
  proof (cases "j < length xs \<and> mr_Key (xs ! j) = mr_Key (xs ! i)")
    case True
    then have "drop j xs = xs ! j # drop (Suc j) xs" by (simp add: Cons_nth_drop_Suc)
    with True 1 show ?thesis by (subst run_end.simps) simp
  next
    case False
    then have "takeWhile (\<lambda>x. mr_Key x = mr_Key (xs ! i)) (drop j xs) = []"
      by (cases "j < length xs") (auto simp: Cons_nth_drop_Suc [symmetric])
    with False show ?thesis by (subst run_end.simps) auto
  qed
qed

lemma map_nth_range:
  assumes "i \<le> j" and "j \<le> length xs"
  shows "map (\<lambda>k. f (xs ! k)) [i..<j] = map f (take (j - i) (drop i xs))"
  using assms by (simp add: list_eq_iff_nth_eq)

lemma reduce_loop_groups: "reduce_loop reducef xs i = concat (map (out_line reducef) (groups (drop i xs)))"
proof (induction reducef xs i rule: reduce_loop.induct)
  case (1 reducef xs i)
  show ?case
  proof (cases "i < length xs")
    case True
    let ?P = "\<lambda>x. mr_Key x = mr_Key (xs ! i)" and ?ys = "drop (Suc i) xs"
    let ?j = "run_end xs i (Suc i)"
    have ys: "drop i xs = xs ! i # ?ys" using True by (simp add: Cons_nth_drop_Suc)
    have j: "?j = Suc i + length (takeWhile ?P ?ys)" by (simp add: run_end_eq)
    have "drop ?j xs = drop (length (takeWhile ?P ?ys)) ?ys" unfolding j by (simp add: add.commute)
    then have rest: "drop ?j xs = dropWhile ?P ?ys" by (simp add: dropWhile_eq_drop)
    have "map (\<lambda>k. mr_Value (xs ! k)) [i..<?j] = map mr_Value (take (?j - i) (drop i xs))"
    proof -
      have "?j \<le> length xs" using True length_takeWhile_le [of ?P ?ys] unfolding j by simp
      with run_end_ge [of "Suc i" xs i] show ?thesis by (intro map_nth_range) simp_all
    qed
    also have "take (?j - i) (drop i xs) = xs ! i # takeWhile ?P ?ys"
      unfolding ys j by (simp add: takeWhile_eq_take [symmetric])
    finally have vals: "map (\<lambda>k. mr_Value (xs ! k)) [i..<?j] = map mr_Value (xs ! i # takeWhile ?P ?ys)" .
    from 1 [OF True refl refl refl] True show ?thesis
      by (subst reduce_loop.simps) (simp add: ys rest vals out_line_Pair Let_def)
  next
    case False
    then show ?thesis by (subst reduce_loop.simps) simp
  qed
qed

lemma groups_sorted:
  assumes "sorted (map mr_Key xs)"
  shows "groups xs = map (\<lambda>k. (k, values_of k xs)) (sorted_list_of_set (mr_Key ` set xs))"
  using assms
proof (induction xs rule: groups.induct)
  case (2 y ys)
  let ?P = "\<lambda>x. mr_Key x = mr_Key y"
  let ?run = "takeWhile ?P ys" and ?rest = "dropWhile ?P ys"
  have ys: "ys = ?run @ ?rest" by simp
  have sorted: "sorted (map mr_Key ?rest)" and ge: "\<forall>x \<in> set ys. mr_Key y \<le> mr_Key x"
    using 2(2) ys by (simp_all, metis map_append sorted_append)
  have ne: "mr_Key x \<noteq> mr_Key y" if "x \<in> set ?rest" for x
  proof (cases ?rest)
    case (Cons z zs)
    then have "\<not> ?P z" using hd_dropWhile [of ?P ys] by (metis list.distinct(1) list.sel(1))
    moreover have "mr_Key z \<le> mr_Key x" using that sorted Cons by auto
    moreover have "mr_Key y \<le> mr_Key z" using ge Cons ys by (metis in_set_conv_decomp set_dropWhileD)
    ultimately show ?thesis by (metis order_antisym)
  next
    case Nil
    with that show ?thesis by (metis list.set(1) empty_iff)
  qed
  have run: "?P x" if "x \<in> set ?run" for x using that by (auto dest: set_takeWhileD)
  have keys: "mr_Key ` set (y # ys) = insert (mr_Key y) (mr_Key ` set ?rest)"
  proof -
    have "mr_Key ` set ys = mr_Key ` set ?run \<union> mr_Key ` set ?rest" by (metis image_Un set_append ys)
    moreover have "mr_Key ` set ?run \<subseteq> {mr_Key y}" by (rule image_subsetI) (drule run, simp)
    ultimately show ?thesis by auto
  qed
  have "sorted_list_of_set (mr_Key ` set (y # ys)) = mr_Key y # sorted_list_of_set (mr_Key ` set ?rest)"
  proof -
    have "mr_Key y \<notin> mr_Key ` set ?rest" by (rule notI) (erule imageE, drule ne, simp)
    moreover have "\<forall>k \<in> set (sorted_list_of_set (mr_Key ` set ?rest)). mr_Key y \<le> k"
      using ge by (auto dest: set_dropWhileD)
    ultimately show ?thesis unfolding keys by (simp add: insort_is_Cons)
  qed
  moreover have "values_of (mr_Key y) (y # ys) = map mr_Value (y # ?run)"
  proof -
    have "filter ?P ?rest = []" by (rule filter_False) (use ne in blast)
    moreover have "filter ?P ?run = ?run" by (rule filter_True) (use run in blast)
    ultimately have "filter ?P ys = ?run" by (metis append_Nil2 filter_append ys)
    then show ?thesis by (simp add: values_of_def)
  qed
  moreover have "values_of k (y # ys) = values_of k ?rest" if "k \<in> mr_Key ` set ?rest" for k
  proof -
    have "k \<noteq> mr_Key y" using that by (rule imageE) (drule ne, simp)
    then have "filter (\<lambda>x. mr_Key x = k) ?run = []" by (intro filter_False) (use run in blast)
    then have "filter (\<lambda>x. mr_Key x = k) ys = filter (\<lambda>x. mr_Key x = k) ?rest" by (metis append_Nil filter_append ys)
    then show ?thesis using \<open>k \<noteq> mr_Key y\<close> by (simp add: values_of_def)
  qed
  ultimately show ?case using 2(1) [OF sorted] by simp
qed simp

section \<open>Properties\<close>

lemma map_files_acc:
  "map_files mapf fs names acc = res_bind (map_files mapf fs names []) (\<lambda>kva. Inr (acc @ kva))"
proof (induction names arbitrary: acc)
  case (Cons name names)
  show ?case
  proof (cases "fs name")
    case (Some c)
    then show ?thesis
      using Cons [of "acc @ mapf name (the c)"] Cons [of "mapf name (the c)"]
      by (cases "map_files mapf fs names []") (auto split: option.splits)
  qed simp
qed simp

lemma map_files_eq:
  assumes "\<forall>f \<in> set names. \<exists>c. fs f = Some (Some c)"
  shows "map_files mapf fs names [] = Inr (concat (map (\<lambda>f. mapf f (the (the (fs f)))) names))"
  using assms
proof (induction names)
  case (Cons f names)
  then show ?case by (subst map_files_acc) (auto simp: map_files_acc [of mapf fs names "mapf f _"])
qed simp

text \<open>The file that the program should write: one line for each key, in order.\<close>

definition mr_spec :: "(string \<Rightarrow> string list \<Rightarrow> string) \<Rightarrow> KeyValue list \<Rightarrow> string" where
  "mr_spec reducef intermediate =
     concat (map (\<lambda>k. k @ '' '' @ reducef k (values_of k intermediate) @ [CHR 0x0A])
       (sorted_list_of_set (mr_Key ` set intermediate)))"

lemma reduce_sorted:
  assumes "sorts_by ByKey_Less srt" and "\<And>k vs vs'. mset vs = mset vs' \<Longrightarrow> reducef k vs = reducef k vs'"
  shows "reduce_loop reducef (srt xs) 0 = mr_spec reducef xs"
proof -
  have perm: "mset (srt xs) = mset xs" and "sorted_wrt (\<lambda>a b. \<not> ByKey_Less b a) (srt xs)"
    using assms(1) by (simp_all add: sorts_by_def)
  then have sorted: "sorted (map mr_Key (srt xs))"
    by (simp add: sorted_wrt_map ByKey_Less_def not_less)
  have "mset (values_of k (srt xs)) = mset (values_of k xs)" for k
    by (simp add: values_of_def perm)
  then have "reducef k (values_of k (srt xs)) = reducef k (values_of k xs)" for k by (rule assms(2))
  moreover have "set (srt xs) = set xs" using perm by (rule mset_eq_setD)
  ultimately show ?thesis
    by (simp add: reduce_loop_groups groups_sorted [OF sorted] mr_spec_def out_line_def comp_def)
qed

lemma mrsequential_reads:
  assumes "3 \<le> length args" and "\<forall>f \<in> set (drop 2 args). \<exists>c. fs f = Some (Some c)"
    and "sorts_by ByKey_Less srt" and "\<And>k vs vs'. mset vs = mset vs' \<Longrightarrow> reducef k vs = reducef k vs'"
  shows "mrsequential srt mapf reducef fs args =
     Output (mr_spec reducef (concat (map (\<lambda>f. mapf f (the (the (fs f)))) (drop 2 args))))"
  using assms(1) map_files_eq [OF assms(2)] reduce_sorted [OF assms(3,4)] by (simp add: mrsequential_def)

text \<open>
  C7. \<open>mrsequential\<close> implements MapReduce: when the files can be read and \<open>Reduce\<close> does not depend on the order of the
  values, the output has exactly one line for each key that \<open>Map\<close> produced for some file, in increasing order of the
  keys, with the result of \<open>Reduce\<close> on all values of the key; what \<open>sort.Sort\<close> does with equal keys does not matter.
\<close>

theorem mrsequential_correct:
  assumes "3 \<le> length args" and "\<forall>f \<in> set (drop 2 args). \<exists>c. fs f = Some (Some c)"
    and "sorts_by ByKey_Less srt" and "\<forall>k vs vs'. mset vs = mset vs' \<longrightarrow> reducef k vs = reducef k vs'"
  shows "mrsequential srt mapf reducef fs args =
     Output (mr_spec reducef (concat (map (\<lambda>f. mapf f (the (the (fs f)))) (drop 2 args))))"
  using mrsequential_reads [OF assms(1-3)] assms(4) by blast

lemma ByKey_strict_weak: "strict_weak ByKey_Less"
  by (auto simp: strict_weak_def ByKey_Less_def)

interpretation bk: go_sort ByKey_Less "sort_by ByKey_Less"
  using sort_by_sorts [OF ByKey_strict_weak] by (simp only: sorts_by_iff)

definition ex_files :: files where
  "ex_files = [''x'' \<mapsto> Some ''b a.b'', ''y'' \<mapsto> Some ''a,b''] (''z'' \<mapsto> None)"

theorem mrsequential_correct_witness:
  "mrsequential (sort_by ByKey_Less) early_exit_Map early_exit_Reduce ex_files [''mrsequential'', ''ee.so'', ''y'', ''x'', ''y''] =
     Output (''x 1'' @ [CHR 0x0A] @ ''y 2'' @ [CHR 0x0A])"
proof -
  let ?args = "[''mrsequential'', ''ee.so'', ''y'', ''x'', ''y'']"
  have "mrsequential (sort_by ByKey_Less) early_exit_Map early_exit_Reduce ex_files ?args =
      Output (mr_spec early_exit_Reduce (concat (map (\<lambda>f. early_exit_Map f (the (the (ex_files f)))) (drop 2 ?args))))"
    by (rule mrsequential_correct)
      (auto simp: ex_files_def early_exit_Reduce_def sort_by_sorts ByKey_strict_weak dest: mset_eq_length)
  also have "\<dots> = Output (''x 1'' @ [CHR 0x0A] @ ''y 2'' @ [CHR 0x0A])" by code_simp
  finally show ?thesis .
qed

text \<open>What \<open>strings.FieldsFunc\<close> does: the words are not empty, have no separator, and keep all other characters.\<close>

lemma FieldsFunc_loop_words:
  assumes "\<forall>c \<in> set cur. \<not> f c" and "w \<in> set (FieldsFunc_loop f cur s)"
  shows "w \<noteq> [] \<and> (\<forall>c \<in> set w. \<not> f c)"
  using assms
proof (induction s arbitrary: cur)
  case (Cons a s)
  show ?case
  proof (cases "f a")
    case True
    with Cons.prems(2) have "w = cur \<and> cur \<noteq> [] \<or> w \<in> set (FieldsFunc_loop f [] s)" by (auto split: if_splits)
    then show ?thesis using Cons.prems(1) Cons.IH [of "[]"] by (metis empty_iff list.set(1))
  next
    case False
    with Cons.prems have "\<forall>c \<in> set (cur @ [a]). \<not> f c" "w \<in> set (FieldsFunc_loop f (cur @ [a]) s)" by auto
    then show ?thesis by (rule Cons.IH)
  qed
qed (simp split: if_splits)

lemma FieldsFunc_loop_concat: "concat (FieldsFunc_loop f cur s) = cur @ filter (\<lambda>c. \<not> f c) s"
  by (induction s arbitrary: cur) auto

text \<open>All the words of the files.\<close>

definition all_words :: "(char \<Rightarrow> bool) \<Rightarrow> files \<Rightarrow> string list \<Rightarrow> string list" where
  "all_words isLetter fs names = concat (map (\<lambda>f. FieldsFunc (the (the (fs f))) (\<lambda>r. \<not> isLetter r)) names)"

lemma wc_values:
  "values_of k (map (\<lambda>w. \<lparr>mr_Key = w, mr_Value = v\<rparr>) ws) = replicate (count_list ws k) v"
  by (induction ws) (auto simp: values_of_def)

text \<open>
  Word count: with the application \<open>wc\<close> the output of \<open>mrsequential\<close> lists every word that occurs in the files,
  in increasing order, with the number of its occurrences; a word is a run of letters, not empty.
\<close>

theorem wc_counts:
  assumes "3 \<le> length args" and "\<forall>f \<in> set (drop 2 args). \<exists>c. fs f = Some (Some c)" and "sorts_by ByKey_Less srt"
  shows "mrsequential srt (wc_Map isLetter) wc_Reduce fs args =
       Output (concat (map (\<lambda>w. w @ '' '' @ Itoa (count_list (all_words isLetter fs (drop 2 args)) w) @ [CHR 0x0A])
         (sorted_list_of_set (set (all_words isLetter fs (drop 2 args)))))) \<and>
     (\<forall>w \<in> set (all_words isLetter fs (drop 2 args)). w \<noteq> [] \<and> (\<forall>c \<in> set w. isLetter c))"
proof -
  let ?ws = "all_words isLetter fs (drop 2 args)"
  have "concat (map (\<lambda>f. wc_Map isLetter f (the (the (fs f)))) (drop 2 args)) = map (\<lambda>w. \<lparr>mr_Key = w, mr_Value = ''1''\<rparr>) ?ws"
    by (simp add: wc_Map_def all_words_def map_concat comp_def)
  then have "mrsequential srt (wc_Map isLetter) wc_Reduce fs args =
      Output (mr_spec wc_Reduce (map (\<lambda>w. \<lparr>mr_Key = w, mr_Value = ''1''\<rparr>) ?ws))"
    by (subst mrsequential_reads [OF assms]) (auto simp: wc_Reduce_def dest: mset_eq_length)
  moreover have "\<forall>w \<in> set ?ws. w \<noteq> [] \<and> (\<forall>c \<in> set w. isLetter c)"
    using FieldsFunc_loop_words [of "[]" "\<lambda>r. \<not> isLetter r"] by (fastforce simp: all_words_def FieldsFunc_def)
  ultimately show ?thesis by (simp add: mr_spec_def wc_values wc_Reduce_def image_image)
qed

theorem wc_counts_witness:
  "mrsequential (sort_by ByKey_Less) (wc_Map (\<lambda>c. c \<in> {CHR ''a'', CHR ''b''})) wc_Reduce ex_files
     [''mrsequential'', ''wc.so'', ''x'', ''y''] = Output (''a 2'' @ [CHR 0x0A] @ ''b 3'' @ [CHR 0x0A])"
proof -
  let ?args = "[''mrsequential'', ''wc.so'', ''x'', ''y'']" and ?l = "\<lambda>c. c \<in> {CHR ''a'', CHR ''b''}"
  have "mrsequential (sort_by ByKey_Less) (wc_Map ?l) wc_Reduce ex_files ?args =
      Output (concat (map (\<lambda>w. w @ '' '' @ Itoa (count_list (all_words ?l ex_files (drop 2 ?args)) w) @ [CHR 0x0A])
        (sorted_list_of_set (set (all_words ?l ex_files (drop 2 ?args))))))"
    by (rule conjunct1 [OF wc_counts]) (auto simp: ex_files_def sort_by_sorts ByKey_strict_weak)
  also have "\<dots> = Output (''a 2'' @ [CHR 0x0A] @ ''b 3'' @ [CHR 0x0A])" by code_simp
  finally show ?thesis .
qed

text \<open>
  The hash that chooses a reduce task is the FNV-1a hash without its sign bit: never negative and below
  \<open>2 ^ 31\<close>, so the task number \<open>ihash(key) % NReduce\<close> is a valid index.
\<close>

theorem ihash_bounds:
  assumes "0 < nReduce"
  shows "ihash key = uint (fnv32a key) mod 2 ^ 31 \<and> 0 \<le> ihash key mod nReduce \<and> ihash key mod nReduce < nReduce"
proof -
  have "fnv32a key AND 0x7fffffff = take_bit 31 (fnv32a key)" by (simp add: take_bit_eq_mask mask_eq_exp_minus_1)
  then have "uint (fnv32a key AND 0x7fffffff) = take_bit 31 (uint (fnv32a key))"
    by (simp only: unsigned_take_bit_eq)
  then have "uint (fnv32a key AND 0x7fffffff) = uint (fnv32a key) mod 2 ^ 31" by (simp only: take_bit_eq_mod)
  with assms show ?thesis by (simp add: ihash_def)
qed

theorem ihash_bounds_witness: "ihash ''a'' = uint (fnv32a ''a'') mod 2 ^ 31 \<and> ihash ''a'' mod 10 < 10"
  using ihash_bounds [of 10 "''a''"] by simp

end
