(* ===== verification/Shard_Clerk.thy ===== *)
theory Shard_Clerk
  imports Lab_Prelude
begin

text \<open>
  The clerks of the sharded key/value service: \<open>shardctrler/common.go\<close> and \<open>shardctrler/client.go\<close>, which ask the
  controller, and \<open>shardkv/common.go\<close> and \<open>shardkv/client.go\<close>, which find the group of a key's shard and ask its servers.

  A call of a clerk repeats rounds until it succeeds. What the network answers is an argument: \<open>call args t i\<close> is the
  reply of server \<open>i\<close> in round \<open>t\<close>, \<open>None\<close> when the RPC fails. A loop that never ends has the value \<open>None\<close>.

  The theory shows that a call returns exactly when some round is answered by a server that accepts, with the
  answer of the first such round, and that a key's shard always exists.
\<close>

section \<open>Shard controller\<close>

definition NShards :: nat where
  "NShards = 10"

record Config =
  cg_Num :: int
  cg_Shards :: "int list"
  cg_Groups :: "int \<rightharpoonup> string list"

definition OK :: string where
  "OK = ''OK''"

record JoinArgs =
  ja_Servers :: "int \<rightharpoonup> string list"

record LeaveArgs =
  la_GIDs :: "int list"

record MoveArgs =
  ma_Shard :: int
  ma_GID :: int

record QueryArgs =
  qa_Num :: int

text \<open>The replies of \<open>Join\<close>, \<open>Leave\<close> and \<open>Move\<close> have the same fields.\<close>

record CtrlReply =
  cr_WrongLeader :: bool
  cr_Err :: string

record QueryReply = CtrlReply +
  qr_Config :: Config

text \<open>One round: each known server is asked in turn until one accepts.\<close>

fun try_each :: "('r \<Rightarrow> bool) \<Rightarrow> (nat \<Rightarrow> 'r option) \<Rightarrow> nat list \<Rightarrow> 'r option" where
  "try_each wrongLeader ask [] = None"
| "try_each wrongLeader ask (srv # srvs) =
     (case ask srv of
        Some reply \<Rightarrow> if wrongLeader reply = False then Some reply else try_each wrongLeader ask srvs
      | None \<Rightarrow> try_each wrongLeader ask srvs)"

partial_function (option) ctrler_loop :: "('r \<Rightarrow> bool) \<Rightarrow> (nat \<Rightarrow> nat \<Rightarrow> 'r option) \<Rightarrow> nat \<Rightarrow> nat \<Rightarrow> 'r option" where
  "ctrler_loop wrongLeader ask n t =
     (case try_each wrongLeader (ask t) [0..<n] of
        Some reply \<Rightarrow> Some reply
      | None \<Rightarrow> ctrler_loop wrongLeader ask n (t + 1))"

declare ctrler_loop.simps [code]

text \<open>A clerk with \<open>n\<close> servers.\<close>

definition Query :: "(QueryArgs \<Rightarrow> nat \<Rightarrow> nat \<Rightarrow> QueryReply option) \<Rightarrow> nat \<Rightarrow> int \<Rightarrow> Config option" where
  "Query call n num =
     (let args = \<lparr>qa_Num = num\<rparr> in map_option qr_Config (ctrler_loop cr_WrongLeader (call args) n 0))"

definition Ctrl_Join :: "(JoinArgs \<Rightarrow> nat \<Rightarrow> nat \<Rightarrow> CtrlReply option) \<Rightarrow> nat \<Rightarrow> (int \<rightharpoonup> string list) \<Rightarrow> unit option" where
  "Ctrl_Join call n servers =
     (let args = \<lparr>ja_Servers = servers\<rparr> in map_option (\<lambda>_. ()) (ctrler_loop cr_WrongLeader (call args) n 0))"

definition Ctrl_Leave :: "(LeaveArgs \<Rightarrow> nat \<Rightarrow> nat \<Rightarrow> CtrlReply option) \<Rightarrow> nat \<Rightarrow> int list \<Rightarrow> unit option" where
  "Ctrl_Leave call n gids =
     (let args = \<lparr>la_GIDs = gids\<rparr> in map_option (\<lambda>_. ()) (ctrler_loop cr_WrongLeader (call args) n 0))"

definition Ctrl_Move :: "(MoveArgs \<Rightarrow> nat \<Rightarrow> nat \<Rightarrow> CtrlReply option) \<Rightarrow> nat \<Rightarrow> int \<Rightarrow> int \<Rightarrow> unit option" where
  "Ctrl_Move call n shard gid =
     (let args = \<lparr>ma_Shard = shard, ma_GID = gid\<rparr>
      in map_option (\<lambda>_. ()) (ctrler_loop cr_WrongLeader (call args) n 0))"

section \<open>Sharded key/value service\<close>

definition ErrNoKey :: string where
  "ErrNoKey = ''ErrNoKey''"

definition ErrWrongGroup :: string where
  "ErrWrongGroup = ''ErrWrongGroup''"

definition ErrWrongLeader :: string where
  "ErrWrongLeader = ''ErrWrongLeader''"

record PutAppendArgs =
  pa_Key :: string
  pa_Value :: string
  pa_Op :: string

record GetArgs =
  ga_Key :: string

record PutAppendReply =
  re_Err :: string

record GetReply = PutAppendReply +
  gr_Value :: string

definition key2shard :: "string \<Rightarrow> nat" where
  "key2shard key =
     (let shard = 0;
          shard = (if length key > 0 then of_char (key ! 0) else shard)
      in shard mod NShards)"

text \<open>One round over the servers of a group; a server of the wrong group ends it.\<close>

fun try_group :: "('r \<Rightarrow> bool) \<Rightarrow> ('r \<Rightarrow> string) \<Rightarrow> (string \<Rightarrow> 'r option) \<Rightarrow> string list \<Rightarrow> 'r option" where
  "try_group accept err ask [] = None"
| "try_group accept err ask (srv # srvs) =
     (case ask srv of
        Some reply \<Rightarrow>
          if accept reply then Some reply
          else if err reply = ErrWrongGroup then None
          else try_group accept err ask srvs
      | None \<Rightarrow> try_group accept err ask srvs)"

definition shard_round ::
  "('r \<Rightarrow> bool) \<Rightarrow> ('r \<Rightarrow> string) \<Rightarrow> (string \<Rightarrow> 'r option) \<Rightarrow> string \<Rightarrow> Config \<Rightarrow> 'r option option" where
  "shard_round accept err ask key config = do {
     gid \<leftarrow> slice_get (cg_Shards config) (key2shard key);
     Some (case cg_Groups config gid of
             Some servers \<Rightarrow> try_group accept err ask servers
           | None \<Rightarrow> None)
   }"

text \<open>
  The loop of \<open>Get\<close> and of \<open>PutAppend\<close>: \<open>query t\<close> is what \<open>ck.sm.Query(-1)\<close> returns after round \<open>t\<close>. The value is the
  reply and the configuration that the clerk has then; \<open>None\<close> is also the value of an index out of range.
\<close>

partial_function (option) shard_loop ::
  "('r \<Rightarrow> bool) \<Rightarrow> ('r \<Rightarrow> string) \<Rightarrow> (nat \<Rightarrow> string \<Rightarrow> 'r option) \<Rightarrow> (nat \<Rightarrow> Config option) \<Rightarrow> string \<Rightarrow> Config \<Rightarrow> nat \<Rightarrow>
   ('r \<times> Config) option" where
  "shard_loop accept err ask query key config t =
     (case shard_round accept err (ask t) key config of
        None \<Rightarrow> None
      | Some (Some reply) \<Rightarrow> Some (reply, config)
      | Some None \<Rightarrow>
          (case query t of None \<Rightarrow> None | Some config' \<Rightarrow> shard_loop accept err ask query key config' (t + 1)))"

declare shard_loop.simps [code]

definition Shard_Get ::
  "(GetArgs \<Rightarrow> nat \<Rightarrow> string \<Rightarrow> GetReply option) \<Rightarrow> (nat \<Rightarrow> QueryArgs \<Rightarrow> nat \<Rightarrow> nat \<Rightarrow> QueryReply option) \<Rightarrow> nat \<Rightarrow>
   string \<Rightarrow> Config \<Rightarrow> (string \<times> Config) option" where
  "Shard_Get call qcall n key config =
     (let args = \<lparr>ga_Key = key\<rparr> in
      map_option (\<lambda>(reply, config'). (gr_Value reply, config'))
        (shard_loop (\<lambda>reply. re_Err reply = OK \<or> re_Err reply = ErrNoKey) re_Err (call args)
           (\<lambda>t. Query (qcall t) n (-1)) key config 0))"

definition Shard_PutAppend ::
  "(PutAppendArgs \<Rightarrow> nat \<Rightarrow> string \<Rightarrow> PutAppendReply option) \<Rightarrow> (nat \<Rightarrow> QueryArgs \<Rightarrow> nat \<Rightarrow> nat \<Rightarrow> QueryReply option) \<Rightarrow>
   nat \<Rightarrow> string \<Rightarrow> string \<Rightarrow> string \<Rightarrow> Config \<Rightarrow> Config option" where
  "Shard_PutAppend call qcall n key val op config =
     (let args = \<lparr>pa_Key = key, pa_Value = val, pa_Op = op\<rparr> in
      map_option snd
        (shard_loop (\<lambda>reply. re_Err reply = OK) re_Err (call args) (\<lambda>t. Query (qcall t) n (-1)) key config 0))"

definition Shard_Put ::
  "(PutAppendArgs \<Rightarrow> nat \<Rightarrow> string \<Rightarrow> PutAppendReply option) \<Rightarrow> (nat \<Rightarrow> QueryArgs \<Rightarrow> nat \<Rightarrow> nat \<Rightarrow> QueryReply option) \<Rightarrow>
   nat \<Rightarrow> string \<Rightarrow> string \<Rightarrow> Config \<Rightarrow> Config option" where
  "Shard_Put call qcall n key val config = Shard_PutAppend call qcall n key val ''Put'' config"

definition Shard_Append ::
  "(PutAppendArgs \<Rightarrow> nat \<Rightarrow> string \<Rightarrow> PutAppendReply option) \<Rightarrow> (nat \<Rightarrow> QueryArgs \<Rightarrow> nat \<Rightarrow> nat \<Rightarrow> QueryReply option) \<Rightarrow>
   nat \<Rightarrow> string \<Rightarrow> string \<Rightarrow> Config \<Rightarrow> Config option" where
  "Shard_Append call qcall n key val config = Shard_PutAppend call qcall n key val ''Append'' config"

section \<open>The controller's clerk\<close>

lemma key2shard_less: "key2shard key < NShards"
  by (simp add: key2shard_def NShards_def Let_def)

lemma try_each_Some:
  assumes "try_each wrong ask srvs = Some r"
  shows "\<exists>i \<in> set srvs. ask i = Some r \<and> \<not> wrong r"
  using assms by (induction srvs) (auto split: option.splits if_splits)

lemma try_each_None: "try_each wrong ask srvs = None \<longleftrightarrow> (\<forall>i \<in> set srvs. \<forall>q. ask i = Some q \<longrightarrow> wrong q)"
  by (induction srvs) (auto split: option.splits)

text \<open>A loop that stops with the first success of \<open>f\<close>.\<close>

lemma ctrler_loop_first:
  assumes "try_each wrong (ask (t + k)) [0..<n] = Some r" and "\<forall>u < k. try_each wrong (ask (t + u)) [0..<n] = None"
  shows "ctrler_loop wrong ask n t = Some r"
  using assms
proof (induction k arbitrary: t)
  case 0
  then show ?case by (simp add: ctrler_loop.simps)
next
  case (Suc k)
  then have "\<forall>u < k. try_each wrong (ask (t + 1 + u)) [0..<n] = None" by auto
  with Suc have "ctrler_loop wrong ask n (t + 1) = Some r" by simp
  moreover have "try_each wrong (ask t) [0..<n] = None" using Suc.prems(2) by force
  ultimately show ?case by (subst ctrler_loop.simps) simp
qed

lemma ctrler_loop_Some:
  assumes "ctrler_loop wrong ask n t = Some r"
  shows "\<exists>k. try_each wrong (ask (t + k)) [0..<n] = Some r \<and> (\<forall>u < k. try_each wrong (ask (t + u)) [0..<n] = None)"
  using assms
proof (induction rule: ctrler_loop.raw_induct [rotated 1, consumes 1])
  case (1 loop wrong ask n t r)
  show ?case
  proof (cases "try_each wrong (ask t) [0..<n]")
    case (Some q)
    with 1(2) show ?thesis by (intro exI [of _ 0]) simp
  next
    case None
    with 1(2) have "loop wrong ask n (t + 1) = Some r" by simp
    from 1(1) [OF this] obtain k where k: "try_each wrong (ask (t + 1 + k)) [0..<n] = Some r"
      "\<forall>u < k. try_each wrong (ask (t + 1 + u)) [0..<n] = None" by blast
    then have "\<forall>u < Suc k. try_each wrong (ask (t + u)) [0..<n] = None"
      using None by (auto simp: less_Suc_eq_0_disj)
    with k(1) show ?thesis by (intro exI [of _ "Suc k"]) simp
  qed
qed

text \<open>A call of the controller's clerk: it returns exactly when a server accepts in some round.\<close>

lemma ctrler_loop_iff:
  "ctrler_loop wrong ask n 0 = Some r \<longleftrightarrow>
     (\<exists>t. try_each wrong (ask t) [0..<n] = Some r \<and> (\<forall>u < t. try_each wrong (ask u) [0..<n] = None))"
  using ctrler_loop_first [of wrong ask 0 _ n r] ctrler_loop_Some [of wrong ask n 0 r] by auto

section \<open>The clerk of the sharded service\<close>

lemma try_group_Some:
  assumes "try_group accept err ask srvs = Some r"
  shows "\<exists>s \<in> set srvs. ask s = Some r \<and> accept r"
  using assms by (induction srvs) (auto split: option.splits if_splits)

text \<open>The configuration that the clerk has in a round, if it gets there.\<close>

primrec config_at :: "(nat \<Rightarrow> Config option) \<Rightarrow> Config \<Rightarrow> nat \<Rightarrow> Config option" where
  "config_at query config 0 = Some config"
| "config_at query config (Suc t) = (case config_at query config t of None \<Rightarrow> None | Some _ \<Rightarrow> query t)"

lemma config_at_before:
  assumes "config_at query config (t + k) \<noteq> None"
  shows "config_at query config t \<noteq> None"
  using assms by (induction k) (auto split: option.splits)

text \<open>The reply that a round gets.\<close>

definition answer_at ::
  "('r \<Rightarrow> bool) \<Rightarrow> ('r \<Rightarrow> string) \<Rightarrow> (nat \<Rightarrow> string \<Rightarrow> 'r option) \<Rightarrow> (nat \<Rightarrow> Config option) \<Rightarrow> string \<Rightarrow> Config \<Rightarrow> nat \<Rightarrow>
   ('r \<times> Config) option" where
  "answer_at accept err ask query key config t = do {
     c \<leftarrow> config_at query config t;
     servers \<leftarrow> cg_Groups c (cg_Shards c ! key2shard key);
     reply \<leftarrow> try_group accept err (ask t) servers;
     Some (reply, c)
   }"

definition config_ok :: "Config \<Rightarrow> bool" where
  "config_ok c \<longleftrightarrow> length (cg_Shards c) = NShards"

lemma shard_round_ok:
  assumes "config_ok c"
  shows "shard_round accept err ask key c =
     Some (do { servers \<leftarrow> cg_Groups c (cg_Shards c ! key2shard key); try_group accept err ask servers })"
  using assms key2shard_less [of key] by (auto simp: shard_round_def config_ok_def split: option.splits)

lemma config_at_ok:
  assumes "config_ok config" and "\<forall>t c. query t = Some c \<longrightarrow> config_ok c" and "config_at query config t = Some c"
  shows "config_ok c"
  using assms by (cases t) (auto split: option.splits)

lemma shard_loop_first:
  assumes ok: "config_ok config" "\<forall>t c. query t = Some c \<longrightarrow> config_ok c"
    and "config_at query config t = Some c" and "answer_at accept err ask query key config (t + k) = Some res"
    and "\<forall>u < k. answer_at accept err ask query key config (t + u) = None"
  shows "shard_loop accept err ask query key c t = Some res"
  using assms(3-5)
proof (induction k arbitrary: t c)
  case 0
  have "config_ok c" by (rule config_at_ok [OF ok 0(1)])
  from shard_round_ok [OF this, of accept err "ask t" key] 0(1,2) show ?case
    by (subst shard_loop.simps) (auto simp: answer_at_def bind_eq_Some_conv)
next
  case (Suc k)
  have "config_ok c" by (rule config_at_ok [OF ok Suc.prems(1)])
  note round = shard_round_ok [OF this, of accept err "ask t" key]
  have none: "answer_at accept err ask query key config t = None" using Suc.prems(3) by force
  have "config_at query config (Suc t + k) \<noteq> None"
    using Suc.prems(2) by (auto simp: answer_at_def bind_eq_Some_conv)
  then have "config_at query config (Suc t) \<noteq> None" by (rule config_at_before)
  then obtain c' where c': "query t = Some c'" "config_at query config (Suc t) = Some c'"
    using Suc.prems(1) by auto
  have "\<forall>u < k. answer_at accept err ask query key config (Suc t + u) = None" using Suc.prems(3) by auto
  with Suc.IH [OF c'(2)] Suc.prems(2) have "shard_loop accept err ask query key c' (Suc t) = Some res" by simp
  moreover have "shard_round accept err (ask t) key c = Some None"
    using none Suc.prems(1) unfolding round by (auto simp: answer_at_def split: bind_splits)
  ultimately show ?case using c'(1) by (subst shard_loop.simps) simp
qed

lemma shard_loop_Some:
  assumes "shard_loop accept err ask query key c t = Some res"
    and "config_ok config" and "\<forall>t c. query t = Some c \<longrightarrow> config_ok c" and "config_at query config t = Some c"
  shows "\<exists>k. answer_at accept err ask query key config (t + k) = Some res \<and>
     (\<forall>u < k. answer_at accept err ask query key config (t + u) = None)"
  using assms
proof (induction rule: shard_loop.raw_induct [rotated 1, consumes 1])
  case (1 loop accept err ask query key c t res)
  have "config_ok c" by (rule config_at_ok [OF 1(3,4,5)])
  note round = shard_round_ok [OF this, of accept err "ask t" key]
  show ?case
  proof (cases "shard_round accept err (ask t) key c = Some None")
    case True
    with 1(2) obtain c' where c': "query t = Some c'" "loop accept err ask query key c' (t + 1) = Some res"
      by (auto split: option.splits)
    with 1(5) have at: "config_at query config (t + 1) = Some c'" by simp
    from 1(1) [OF c'(2) 1(3,4) at] obtain k where k: "answer_at accept err ask query key config (t + 1 + k) = Some res"
      "\<forall>u < k. answer_at accept err ask query key config (t + 1 + u) = None" by blast
    have "answer_at accept err ask query key config t = None"
      using True 1(5) unfolding round by (auto simp: answer_at_def split: bind_splits)
    with k(2) have "\<forall>u < Suc k. answer_at accept err ask query key config (t + u) = None"
      by (auto simp: less_Suc_eq_0_disj)
    with k(1) show ?thesis by (intro exI [of _ "Suc k"]) simp
  next
    case False
    then obtain r where r: "shard_round accept err (ask t) key c = Some (Some r)" unfolding round by auto
    with 1(2) have "res = (r, c)" by simp
    with r 1(5) show ?thesis unfolding round
      by (intro exI [of _ 0]) (auto simp: answer_at_def bind_eq_Some_conv)
  qed
qed

section \<open>Properties\<close>


definition ex_config :: Config where
  "ex_config = \<lparr>cg_Num = 1, cg_Shards = replicate 10 100, cg_Groups = [100 \<mapsto> [''s0'', ''s1'']]\<rparr>"

definition ex_call :: "GetArgs \<Rightarrow> nat \<Rightarrow> string \<Rightarrow> GetReply option" where
  "ex_call args t s = (if s = ''s1'' then Some \<lparr>re_Err = OK, gr_Value = ''x''\<rparr> else None)"


end
