(* ===== verification/Shardctrler_Tester.thy ===== *)
theory Shardctrler_Tester
  imports Kv_Cluster Shard_Clerk
begin

text \<open>
  The server of \<open>shardctrler/server.go\<close>, which is the skeleton that the repository has, and the configuration of its tester in
  \<open>shardctrler/config.go\<close>: starting and stopping controllers, making clerks and partitioning the network.

  Stores, random strings and \<open>typ\<close> are as in \<open>Kv_Cluster\<close>; the tester is a second implementation of the interface
  \<open>cluster\<close>.

  The theory shows that in every state that the tester can reach no operation with valid arguments panics, that a
  server that was shut down gets no request and comes back with what it had saved, and that the leader can be
  cut off from a majority.
\<close>

section \<open>Server and clerk\<close>

record ShardCtrler =
  sh_me :: nat
  sh_rf :: nat
  sh_configs :: "Config list"

text \<open>The handlers leave the server and the reply as they are.\<close>

definition Ctrler_Join :: "ShardCtrler \<Rightarrow> JoinArgs \<Rightarrow> CtrlReply \<Rightarrow> ShardCtrler \<times> CtrlReply" where
  "Ctrler_Join sc args reply = (sc, reply)"

definition Ctrler_Leave :: "ShardCtrler \<Rightarrow> LeaveArgs \<Rightarrow> CtrlReply \<Rightarrow> ShardCtrler \<times> CtrlReply" where
  "Ctrler_Leave sc args reply = (sc, reply)"

definition Ctrler_Move :: "ShardCtrler \<Rightarrow> MoveArgs \<Rightarrow> CtrlReply \<Rightarrow> ShardCtrler \<times> CtrlReply" where
  "Ctrler_Move sc args reply = (sc, reply)"

definition Ctrler_Query :: "ShardCtrler \<Rightarrow> QueryArgs \<Rightarrow> QueryReply \<Rightarrow> ShardCtrler \<times> QueryReply" where
  "Ctrler_Query sc args reply = (sc, reply)"

record 'n CtrlClerk =
  cc_servers :: "'n ClientEnd list"

definition MakeCtrlClerk :: "'n ClientEnd list \<Rightarrow> 'n CtrlClerk" where
  "MakeCtrlClerk servers = \<lparr>cc_servers = servers\<rparr>"

text \<open>The first configuration: all shards belong to the invalid group 0.\<close>

definition first_Config :: Config where
  "first_Config = \<lparr>cg_Num = 0, cg_Shards = replicate NShards 0, cg_Groups = Map.empty\<rparr>"

section \<open>State of the tester\<close>

record ('v, 'w) sc_config =
  sc_net :: "name Network"
  sc_n :: nat
  sc_servers :: "ptr list"
  sc_saved :: "ptr list"
  sc_endnames :: "string list option list"
  sc_clerks :: "nat \<rightharpoonup> string list"
  sc_nextClientId :: int
  sc_ctl_store :: "ShardCtrler list"
  sc_raft_store :: "name Raft list"
  sc_persister_store :: "Persister list"
  sc_server_store :: "('v, 'w) Server list"
  sc_clerk_store :: "name CtrlClerk list"

text \<open>
  \<open>StartServer\<close> of \<open>server.go\<close> with the new peer at address \<open>r\<close>; \<open>labgob.Register\<close> of the empty struct \<open>Op\<close> checks nothing.
\<close>

definition Ctrler_new ::
  "Persister list \<Rightarrow> 'n ClientEnd list \<Rightarrow> nat \<Rightarrow> nat \<Rightarrow> nat \<Rightarrow> ('n Raft \<times> ShardCtrler) option" where
  "Ctrler_new store servers me persister r = do {
     rf \<leftarrow> Make store servers me persister;
     Some (rf, \<lparr>sh_me = me, sh_rf = r, sh_configs = [first_Config]\<rparr>)
   }"

definition Ctrler_StartServer ::
  "name ClientEnd list \<Rightarrow> nat \<Rightarrow> nat \<Rightarrow> ('v, 'w) sc_config \<Rightarrow> (('v, 'w) sc_config \<times> nat) option" where
  "Ctrler_StartServer servers me persister cfg = do {
     (rf, sc) \<leftarrow> Ctrler_new (sc_persister_store cfg) servers me persister (length (sc_raft_store cfg));
     Some (cfg\<lparr>sc_raft_store := sc_raft_store cfg @ [rf], sc_ctl_store := sc_ctl_store cfg @ [sc]\<rparr>,
           length (sc_ctl_store cfg))
   }"

definition Ctrler_Kill :: "nat \<Rightarrow> ('v, 'w) sc_config \<Rightarrow> ('v, 'w) sc_config option" where
  "Ctrler_Kill p cfg = do {
     sc \<leftarrow> slice_get (sc_ctl_store cfg) p;
     rf \<leftarrow> slice_get (sc_raft_store cfg) (sh_rf sc);
     Some (cfg\<lparr>sc_raft_store := (sc_raft_store cfg)[sh_rf sc := Kill rf]\<rparr>)
   }"

definition Ctrler_Raft :: "ShardCtrler \<Rightarrow> nat" where
  "Ctrler_Raft sc = sh_rf sc"

section \<open>Connections\<close>

definition sc_connectUnlocked :: "nat \<Rightarrow> nat list \<Rightarrow> ('v, 'w) sc_config \<Rightarrow> ('v, 'w) sc_config option" where
  "sc_connectUnlocked i to cfg = do {
     rn1 \<leftarrow> switch_loop (\<lambda>e. Enable e True) (\<lambda>j. Some True) (\<lambda>j. endname_at (sc_endnames cfg) i (to ! j))
       [0..<length to] (sc_net cfg);
     rn2 \<leftarrow> switch_loop (\<lambda>e. Enable e True) (\<lambda>j. Some True) (\<lambda>j. endname_at (sc_endnames cfg) (to ! j) i)
       [0..<length to] rn1;
     Some (cfg\<lparr>sc_net := rn2\<rparr>)
   }"

text \<open>Here too the second loop tests \<open>cfg.endnames[j]\<close> and then uses \<open>cfg.endnames[from[j]]\<close>.\<close>

definition sc_disconnectUnlocked :: "nat \<Rightarrow> nat list \<Rightarrow> ('v, 'w) sc_config \<Rightarrow> ('v, 'w) sc_config option" where
  "sc_disconnectUnlocked i frm cfg = do {
     rn1 \<leftarrow> switch_loop (\<lambda>e. Enable e False) (\<lambda>j. has_names (sc_endnames cfg) i)
       (\<lambda>j. endname_at (sc_endnames cfg) i (frm ! j)) [0..<length frm] (sc_net cfg);
     rn2 \<leftarrow> switch_loop (\<lambda>e. Enable e False) (\<lambda>j. has_names (sc_endnames cfg) j)
       (\<lambda>j. endname_at (sc_endnames cfg) (frm ! j) i) [0..<length frm] rn1;
     Some (cfg\<lparr>sc_net := rn2\<rparr>)
   }"

definition sc_All :: "('v, 'w) sc_config \<Rightarrow> nat list" where
  "sc_All cfg = [0..<sc_n cfg]"

definition sc_ConnectAll :: "('v, 'w) sc_config \<Rightarrow> ('v, 'w) sc_config option" where
  "sc_ConnectAll cfg = for_each (\<lambda>i cfg. sc_connectUnlocked i (sc_All cfg) cfg) [0..<sc_n cfg] cfg"

definition sc_partition :: "nat list \<Rightarrow> nat list \<Rightarrow> ('v, 'w) sc_config \<Rightarrow> ('v, 'w) sc_config option" where
  "sc_partition p1 p2 cfg = do {
     cfg1 \<leftarrow> for_each (\<lambda>s cfg. do { cfg1 \<leftarrow> sc_disconnectUnlocked s p2 cfg; sc_connectUnlocked s p1 cfg1 }) p1 cfg;
     for_each (\<lambda>s cfg. do { cfg1 \<leftarrow> sc_disconnectUnlocked s p1 cfg; sc_connectUnlocked s p2 cfg1 }) p2 cfg1
   }"

section \<open>Clerks\<close>

definition sc_random_handles :: "(nat \<Rightarrow> nat) \<Rightarrow> 'a list \<Rightarrow> 'a list option" where
  "sc_random_handles rnd kvh = for_each (\<lambda>i sa. swap_at sa i (rnd i)) [0..<length kvh] kvh"

definition sc_ConnectClientUnlocked :: "nat \<Rightarrow> nat list \<Rightarrow> ('v, 'w) sc_config \<Rightarrow> ('v, 'w) sc_config option" where
  "sc_ConnectClientUnlocked ck to cfg = do {
     let endnames = map_read [] (sc_clerks cfg) ck;
     rn \<leftarrow> switch_loop (\<lambda>e. Enable e True) (\<lambda>j. Some True)
       (\<lambda>t. map_option EndName (slice_get endnames t)) to (sc_net cfg);
     Some (cfg\<lparr>sc_net := rn\<rparr>)
   }"

definition sc_DisconnectClientUnlocked :: "nat \<Rightarrow> nat list \<Rightarrow> ('v, 'w) sc_config \<Rightarrow> ('v, 'w) sc_config option" where
  "sc_DisconnectClientUnlocked ck frm cfg = do {
     let endnames = map_read [] (sc_clerks cfg) ck;
     rn \<leftarrow> switch_loop (\<lambda>e. Enable e False) (\<lambda>j. Some True)
       (\<lambda>t. map_option EndName (slice_get endnames t)) frm (sc_net cfg);
     Some (cfg\<lparr>sc_net := rn\<rparr>)
   }"

text \<open>The variants that take the lock.\<close>

definition sc_connect :: "nat \<Rightarrow> nat list \<Rightarrow> ('v, 'w) sc_config \<Rightarrow> ('v, 'w) sc_config option" where
  "sc_connect i to cfg = sc_connectUnlocked i to cfg"

definition sc_disconnect :: "nat \<Rightarrow> nat list \<Rightarrow> ('v, 'w) sc_config \<Rightarrow> ('v, 'w) sc_config option" where
  "sc_disconnect i frm cfg = sc_disconnectUnlocked i frm cfg"

definition sc_ConnectClient :: "nat \<Rightarrow> nat list \<Rightarrow> ('v, 'w) sc_config \<Rightarrow> ('v, 'w) sc_config option" where
  "sc_ConnectClient ck to cfg = sc_ConnectClientUnlocked ck to cfg"

definition sc_DisconnectClient :: "nat \<Rightarrow> nat list \<Rightarrow> ('v, 'w) sc_config \<Rightarrow> ('v, 'w) sc_config option" where
  "sc_DisconnectClient ck frm cfg = sc_DisconnectClientUnlocked ck frm cfg"

definition sc_makeClient ::
  "(nat \<Rightarrow> string) \<Rightarrow> (nat \<Rightarrow> nat) \<Rightarrow> nat list \<Rightarrow> ('v, 'w) sc_config \<Rightarrow> go_error + ('v, 'w) sc_config \<times> nat" where
  "sc_makeClient rnd shuffle to cfg =
     (let endnames = map rnd [0..<sc_n cfg] in
      res_bind (make_ends False (map (\<lambda>j. (EndName (endnames ! j), SrvName j)) [0..<sc_n cfg]) (sc_net cfg)) (\<lambda>(rn, ends).
      res_bind (panics (sc_random_handles shuffle ends)) (\<lambda>handles.
      let ck = length (sc_clerk_store cfg);
          cfg1 = cfg\<lparr>sc_net := rn, sc_clerk_store := sc_clerk_store cfg @ [MakeCtrlClerk handles],
            sc_clerks := (sc_clerks cfg)(ck \<mapsto> endnames), sc_nextClientId := sc_nextClientId cfg + 1\<rparr>
      in res_bind (panics (sc_ConnectClientUnlocked ck to cfg1)) (\<lambda>cfg2. Inr (cfg2, ck)))))"

definition sc_deleteClient :: "nat \<Rightarrow> ('v, 'w) sc_config \<Rightarrow> ('v, 'w) sc_config" where
  "sc_deleteClient ck cfg = cfg\<lparr>sc_clerks := (sc_clerks cfg)(ck := None)\<rparr>"

section \<open>Starting and stopping servers\<close>

definition sc_new_saved :: "nat \<Rightarrow> Persister \<Rightarrow> ('v, 'w) sc_config \<Rightarrow> ('v, 'w) sc_config" where
  "sc_new_saved i ps cfg = cfg\<lparr>sc_persister_store := sc_persister_store cfg @ [ps],
     sc_saved := (sc_saved cfg)[i := Some (length (sc_persister_store cfg))]\<rparr>"

definition sc_copy_saved :: "nat \<Rightarrow> ('v, 'w) sc_config \<Rightarrow> ('v, 'w) sc_config option" where
  "sc_copy_saved i cfg = do {
     p \<leftarrow> slice_get (sc_saved cfg) i;
     (case p of
        None \<Rightarrow> Some cfg
      | Some a \<Rightarrow> do { ps \<leftarrow> slice_get (sc_persister_store cfg) a; Some (sc_new_saved i (Persister_Copy ps) cfg) })
   }"

definition sc_stop :: "nat \<Rightarrow> ('v, 'w) sc_config \<Rightarrow> ('v, 'w) sc_config option" where
  "sc_stop i cfg = do {
     kv \<leftarrow> slice_get (sc_servers cfg) i;
     (case kv of
        None \<Rightarrow> Some cfg
      | Some k \<Rightarrow> do { cfg1 \<leftarrow> Ctrler_Kill k cfg; Some (cfg1\<lparr>sc_servers := (sc_servers cfg1)[i := None]\<rparr>) })
   }"

definition sc_ShutdownServer :: "nat \<Rightarrow> ('v, 'w) sc_config \<Rightarrow> ('v, 'w) sc_config option" where
  "sc_ShutdownServer i cfg = do {
     cfg1 \<leftarrow> sc_disconnectUnlocked i (sc_All cfg) cfg;
     cfg2 \<leftarrow> sc_copy_saved i (cfg1\<lparr>sc_net := DeleteServer (SrvName i) (sc_net cfg1)\<rparr>);
     sc_stop i cfg2
   }"

definition sc_fresh_saved :: "nat \<Rightarrow> ('v, 'w) sc_config \<Rightarrow> ('v, 'w) sc_config option" where
  "sc_fresh_saved i cfg = do {
     p \<leftarrow> slice_get (sc_saved cfg) i;
     (case p of
        None \<Rightarrow> Some (sc_new_saved i MakePersister cfg)
      | Some a \<Rightarrow> do { ps \<leftarrow> slice_get (sc_persister_store cfg) a; Some (sc_new_saved i (Persister_Copy ps) cfg) })
   }"

definition sc_launch ::
  "('v, 'w) Method list \<Rightarrow> ('v, 'w) Method list \<Rightarrow> name ClientEnd list \<Rightarrow> nat \<Rightarrow> ('v, 'w) sc_config \<Rightarrow>
   ('v, 'w) sc_config option" where
  "sc_launch sctyp rftyp ends i cfg = do {
     p \<leftarrow> slice_get (sc_saved cfg) i;
     a \<leftarrow> p;
     (cfg1, k) \<leftarrow> Ctrler_StartServer ends i a cfg;
     servers \<leftarrow> slice_set (sc_servers cfg1) i (Some k);
     let kvsvc = MakeService ''ShardCtrler'' sctyp;
     let rfsvc = MakeService ''Raft'' rftyp;
     let srv = AddService (AddService MakeServer kvsvc) rfsvc;
     Some (cfg1\<lparr>sc_servers := servers, sc_server_store := sc_server_store cfg1 @ [srv],
       sc_net := AddServer (SrvName i) (Some (length (sc_server_store cfg1))) (sc_net cfg1)\<rparr>)
   }"

definition sc_StartServer ::
  "('v, 'w) Method list \<Rightarrow> ('v, 'w) Method list \<Rightarrow> (nat \<Rightarrow> string) \<Rightarrow> nat \<Rightarrow> ('v, 'w) sc_config \<Rightarrow>
   go_error + ('v, 'w) sc_config" where
  "sc_StartServer sctyp rftyp rnd i cfg =
     (let names = map rnd [0..<sc_n cfg] in
      res_bind (panics (slice_set (sc_endnames cfg) i (Some names))) (\<lambda>endnames.
      res_bind (make_ends False (map (\<lambda>j. (EndName (names ! j), SrvName j)) [0..<sc_n cfg]) (sc_net cfg)) (\<lambda>(rn, ends).
      res_bind (panics (sc_fresh_saved i (cfg\<lparr>sc_endnames := endnames, sc_net := rn\<rparr>))) (\<lambda>cfg1.
      panics (sc_launch sctyp rftyp ends i cfg1)))))"

definition sc_make_config ::
  "('v, 'w) Method list \<Rightarrow> ('v, 'w) Method list \<Rightarrow> (nat \<Rightarrow> nat \<Rightarrow> string) \<Rightarrow> nat \<Rightarrow> bool \<Rightarrow>
   go_error + ('v, 'w) sc_config" where
  "sc_make_config sctyp rftyp rnd n unreliable =
     (let cfg = \<lparr>sc_net = MakeNetwork, sc_n = n, sc_servers = replicate n None, sc_saved = replicate n None,
          sc_endnames = replicate n None, sc_clerks = Map.empty, sc_nextClientId = int n + 1000,
          sc_ctl_store = [], sc_raft_store = [], sc_persister_store = [], sc_server_store = [], sc_clerk_store = []\<rparr>
      in res_bind (for_each_res (\<lambda>i. sc_StartServer sctyp rftyp (rnd i) i) [0..<n] cfg) (\<lambda>cfg1.
         res_bind (panics (sc_ConnectAll cfg1)) (\<lambda>cfg2.
         Inr (cfg2\<lparr>sc_net := Reliable (\<not> unreliable) (sc_net cfg2)\<rparr>))))"

section \<open>The other operations\<close>

definition sc_LogSize :: "('v, 'w) sc_config \<Rightarrow> nat option" where
  "sc_LogSize cfg = for_each (\<lambda>i logsize. do {
     p \<leftarrow> slice_get (sc_saved cfg) i;
     a \<leftarrow> p;
     ps \<leftarrow> slice_get (sc_persister_store cfg) a;
     let n = RaftStateSize ps;
     Some (if n > logsize then n else logsize)
   }) [0..<sc_n cfg] 0"

definition sc_cleanup :: "bool \<Rightarrow> nat \<Rightarrow> ('v, 'w) sc_config \<Rightarrow> go_error + ('v, 'w) sc_config" where
  "sc_cleanup failed seconds cfg =
     res_bind (panics (for_each (\<lambda>i cfg. do {
         p \<leftarrow> slice_get (sc_servers cfg) i;
         (case p of None \<Rightarrow> Some cfg | Some k \<Rightarrow> Ctrler_Kill k cfg)
       }) [0..<length (sc_servers cfg)] cfg)) (\<lambda>cfg1.
     res_bind (Cleanup (sc_net cfg1)) (\<lambda>rn.
     res_bind (checkTimeout failed seconds) (\<lambda>_. Inr (cfg1\<lparr>sc_net := rn\<rparr>))))"

text \<open>\<open>gs r\<close> is what \<open>GetState\<close> returns for the peer \<open>r\<close>; unlike the one of \<open>kvraft\<close>, this loop skips stopped servers.\<close>

fun sc_Leader_loop :: "(nat \<Rightarrow> int \<times> bool) \<Rightarrow> ('v, 'w) sc_config \<Rightarrow> nat list \<Rightarrow> (bool \<times> nat) option" where
  "sc_Leader_loop gs cfg [] = Some (False, 0)"
| "sc_Leader_loop gs cfg (i # is) = do {
     p \<leftarrow> slice_get (sc_servers cfg) i;
     (case p of
        None \<Rightarrow> sc_Leader_loop gs cfg is
      | Some k \<Rightarrow> do {
          sc \<leftarrow> slice_get (sc_ctl_store cfg) k;
          (if snd (gs (sh_rf sc)) then Some (True, i) else sc_Leader_loop gs cfg is)
        })
   }"

definition sc_Leader :: "(nat \<Rightarrow> int \<times> bool) \<Rightarrow> ('v, 'w) sc_config \<Rightarrow> (bool \<times> nat) option" where
  "sc_Leader gs cfg = sc_Leader_loop gs cfg [0..<sc_n cfg]"

definition sc_make_partition :: "(nat \<Rightarrow> int \<times> bool) \<Rightarrow> ('v, 'w) sc_config \<Rightarrow> (nat list \<times> nat list) option" where
  "sc_make_partition gs cfg = do { (_, l) \<leftarrow> sc_Leader gs cfg; partition_around l (sc_n cfg) }"

section \<open>Runs of the tester\<close>

datatype sc_op =
    ScConnect nat "nat list"
  | ScDisconnect nat "nat list"
  | ScConnectAll
  | ScPartition "nat list" "nat list"
  | ScMakeClient "nat \<Rightarrow> string" "nat \<Rightarrow> nat" "nat list"
  | ScDeleteClient nat
  | ScConnectClient nat "nat list"
  | ScDisconnectClient nat "nat list"
  | ScShutdownServer nat
  | ScStartServer nat "nat \<Rightarrow> string"

fun sc_step ::
  "('v, 'w) Method list \<Rightarrow> ('v, 'w) Method list \<Rightarrow> sc_op \<Rightarrow> ('v, 'w) sc_config \<Rightarrow> go_error + ('v, 'w) sc_config" where
  "sc_step sctyp rftyp (ScConnect i to) cfg = panics (sc_connectUnlocked i to cfg)"
| "sc_step sctyp rftyp (ScDisconnect i frm) cfg = panics (sc_disconnectUnlocked i frm cfg)"
| "sc_step sctyp rftyp ScConnectAll cfg = panics (sc_ConnectAll cfg)"
| "sc_step sctyp rftyp (ScPartition p1 p2) cfg = panics (sc_partition p1 p2 cfg)"
| "sc_step sctyp rftyp (ScMakeClient rnd shuffle to) cfg =
     res_bind (sc_makeClient rnd shuffle to cfg) (\<lambda>(cfg', ck). Inr cfg')"
| "sc_step sctyp rftyp (ScDeleteClient ck) cfg = Inr (sc_deleteClient ck cfg)"
| "sc_step sctyp rftyp (ScConnectClient ck to) cfg = panics (sc_ConnectClientUnlocked ck to cfg)"
| "sc_step sctyp rftyp (ScDisconnectClient ck frm) cfg = panics (sc_DisconnectClientUnlocked ck frm cfg)"
| "sc_step sctyp rftyp (ScShutdownServer i) cfg = panics (sc_ShutdownServer i cfg)"
| "sc_step sctyp rftyp (ScStartServer i rnd) cfg = sc_StartServer sctyp rftyp rnd i cfg"

inductive sc_reachable :: "('v, 'w) Method list \<Rightarrow> ('v, 'w) Method list \<Rightarrow> ('v, 'w) sc_config \<Rightarrow> bool"
  for sctyp rftyp where
  sc_reach_make: "sc_make_config sctyp rftyp rnd n unreliable = Inr cfg \<Longrightarrow> sc_reachable sctyp rftyp cfg"
| sc_reach_step: "sc_reachable sctyp rftyp cfg \<Longrightarrow> sc_step sctyp rftyp op cfg = Inr cfg' \<Longrightarrow> sc_reachable sctyp rftyp cfg'"

text \<open>Valid arguments: indices of servers, clerks that exist, names that the network does not know.\<close>

definition fresh_names :: "nat \<Rightarrow> (nat \<Rightarrow> string) \<Rightarrow> name Network \<Rightarrow> bool" where
  "fresh_names n rnd rn \<longleftrightarrow> distinct (map rnd [0..<n]) \<and> (\<forall>j < n. nt_ends rn (EndName (rnd j)) = None)"

fun sc_op_ok :: "('v, 'w) sc_config \<Rightarrow> sc_op \<Rightarrow> bool" where
  "sc_op_ok cfg (ScConnect i to) \<longleftrightarrow> i < sc_n cfg \<and> (\<forall>t \<in> set to. t < sc_n cfg)"
| "sc_op_ok cfg (ScDisconnect i frm) \<longleftrightarrow> i < sc_n cfg \<and> (\<forall>t \<in> set frm. t < sc_n cfg) \<and> length frm \<le> sc_n cfg"
| "sc_op_ok cfg ScConnectAll \<longleftrightarrow> True"
| "sc_op_ok cfg (ScPartition p1 p2) \<longleftrightarrow> distinct (p1 @ p2) \<and> (\<forall>t \<in> set (p1 @ p2). t < sc_n cfg)"
| "sc_op_ok cfg (ScMakeClient rnd shuffle to) \<longleftrightarrow>
     fresh_names (sc_n cfg) rnd (sc_net cfg) \<and> (\<forall>i < sc_n cfg. shuffle i \<le> i) \<and> (\<forall>t \<in> set to. t < sc_n cfg)"
| "sc_op_ok cfg (ScDeleteClient ck) \<longleftrightarrow> True"
| "sc_op_ok cfg (ScConnectClient ck to) \<longleftrightarrow> sc_clerks cfg ck \<noteq> None \<and> (\<forall>t \<in> set to. t < sc_n cfg)"
| "sc_op_ok cfg (ScDisconnectClient ck frm) \<longleftrightarrow> sc_clerks cfg ck \<noteq> None \<and> (\<forall>t \<in> set frm. t < sc_n cfg)"
| "sc_op_ok cfg (ScShutdownServer i) \<longleftrightarrow> i < sc_n cfg"
| "sc_op_ok cfg (ScStartServer i rnd) \<longleftrightarrow> i < sc_n cfg \<and> fresh_names (sc_n cfg) rnd (sc_net cfg)"

section \<open>Invariant\<close>

text \<open>The slices have one element per server and all pointers are valid.\<close>

definition sc_shape :: "('v, 'w) sc_config \<Rightarrow> bool" where
  "sc_shape cfg \<longleftrightarrow> length (sc_servers cfg) = sc_n cfg \<and> length (sc_saved cfg) = sc_n cfg \<and>
     (\<forall>k. Some k \<in> set (sc_servers cfg) \<longrightarrow> k < length (sc_ctl_store cfg)) \<and>
     (\<forall>sc \<in> set (sc_ctl_store cfg). sh_rf sc < length (sc_raft_store cfg)) \<and>
     saved_ok (sc_saved cfg) (sc_persister_store cfg)"

text \<open>The network knows the end points of servers and clerks, and exactly the running servers.\<close>

definition clerk_names :: "nat \<Rightarrow> name Network \<Rightarrow> string list \<Rightarrow> bool" where
  "clerk_names n rn names \<longleftrightarrow> length names = n \<and>
     (\<forall>j < n. EndName (names ! j) \<in> dom (nt_ends rn) \<and> nt_connections rn (EndName (names ! j)) = Some (Some (SrvName j)))"

definition sc_known :: "('v, 'w) sc_config \<Rightarrow> bool" where
  "sc_known cfg \<longleftrightarrow> names_inv (sc_n cfg) (sc_endnames cfg) (sc_net cfg) \<and>
     (\<forall>ck names. sc_clerks cfg ck = Some names \<longrightarrow> clerk_names (sc_n cfg) (sc_net cfg) names) \<and>
     (\<forall>i < sc_n cfg. map_read None (nt_servers (sc_net cfg)) (SrvName i) \<noteq> None \<longleftrightarrow> sc_servers cfg ! i \<noteq> None)"

definition sc_inv :: "('v, 'w) sc_config \<Rightarrow> bool" where
  "sc_inv cfg \<longleftrightarrow> sc_shape cfg \<and> sc_known cfg \<and> (\<forall>i < sc_n cfg. sc_endnames cfg ! i \<noteq> None)"

definition sc_ready :: "('v, 'w) sc_config \<Rightarrow> bool" where
  "sc_ready cfg \<longleftrightarrow> net_ready (sc_n cfg) (sc_endnames cfg) (sc_net cfg)"

definition sc_link :: "('v, 'w) sc_config \<Rightarrow> nat \<Rightarrow> nat \<Rightarrow> bool" where
  "sc_link cfg = net_link (sc_endnames cfg) (sc_net cfg)"

definition sc_rest :: "('v, 'w) sc_config \<Rightarrow> ('v, 'w) sc_config" where
  "sc_rest cfg = cfg\<lparr>sc_net := net_rest (sc_net cfg)\<rparr>"

definition sc_content :: "('v, 'w) sc_config \<Rightarrow> nat \<Rightarrow> (bytes \<times> bytes) option" where
  "sc_content cfg = saved_content (sc_saved cfg) (sc_persister_store cfg)"

lemma sc_inv_ready: "sc_inv cfg \<Longrightarrow> sc_ready cfg"
  by (simp add: sc_inv_def sc_known_def sc_ready_def net_ready_def)

lemma sc_rest_net: "net_rest rn = net_rest (sc_net cfg) \<Longrightarrow> sc_rest (cfg\<lparr>sc_net := rn\<rparr>) = sc_rest cfg"
  by (simp add: sc_rest_def)

lemma sc_connectUnlocked_law:
  assumes "sc_ready cfg" and "i < sc_n cfg" and "\<forall>t \<in> set to. t < sc_n cfg"
  shows "\<exists>cfg'. sc_connectUnlocked i to cfg = Some cfg' \<and> sc_ready cfg' \<and> sc_n cfg' = sc_n cfg \<and> sc_rest cfg' = sc_rest cfg \<and>
     (\<forall>a < sc_n cfg. \<forall>b < sc_n cfg. sc_link cfg' a b \<longleftrightarrow> between i (set to) a b \<or> sc_link cfg a b)"
  by (rule connect_passes [OF assms(1) [unfolded sc_ready_def] assms(2,3)])
    (simp add: sc_connectUnlocked_def sc_ready_def sc_link_def sc_rest_net)

lemma sc_disconnectUnlocked_law:
  assumes "sc_ready cfg" and "i < sc_n cfg" and "\<forall>t \<in> set frm. t < sc_n cfg" and "length frm \<le> sc_n cfg"
  shows "\<exists>cfg'. sc_disconnectUnlocked i frm cfg = Some cfg' \<and> sc_ready cfg' \<and> sc_n cfg' = sc_n cfg \<and> sc_rest cfg' = sc_rest cfg \<and>
     (\<forall>a < sc_n cfg. \<forall>b < sc_n cfg. sc_link cfg' a b \<longleftrightarrow> \<not> between i (set frm) a b \<and> sc_link cfg a b)"
  by (rule disconnect_passes [OF assms(1) [unfolded sc_ready_def] assms(2-4)])
    (simp add: sc_disconnectUnlocked_def sc_ready_def sc_link_def sc_rest_net)

interpretation sc: cluster sc_n sc_ready sc_link sc_rest sc_connectUnlocked sc_disconnectUnlocked
  by unfold_locales (use sc_connectUnlocked_law sc_disconnectUnlocked_law in blast)+

subsection \<open>Operations that only switch end points\<close>

lemma sc_restD:
  assumes "sc_rest cfg' = sc_rest cfg"
  shows "cfg' = cfg\<lparr>sc_net := sc_net cfg'\<rparr>" and "net_rest (sc_net cfg') = net_rest (sc_net cfg)"
  using assms by (cases cfg; cases cfg'; simp add: sc_rest_def)+

lemma sc_inv_frame:
  assumes "sc_rest cfg' = sc_rest cfg"
  shows "sc_inv cfg' \<longleftrightarrow> sc_inv cfg"
proof -
  note eq = net_rest_eqD [OF sc_restD(2) [OF assms]]
  have "names_inv n endnames (sc_net cfg') = names_inv n endnames (sc_net cfg)" for n endnames
    by (rule names_inv_frame [OF sc_restD(2) [OF assms]])
  then have "sc_inv (cfg\<lparr>sc_net := sc_net cfg'\<rparr>) \<longleftrightarrow> sc_inv cfg"
    by (simp add: sc_inv_def sc_shape_def sc_known_def clerk_names_def eq)
  with sc_restD(1) [OF assms] show ?thesis by simp
qed

lemma sc_switch_rest:
  "sc_connectUnlocked i js cfg = Some cfg' \<Longrightarrow> sc_rest cfg' = sc_rest cfg"
  "sc_disconnectUnlocked i js cfg = Some cfg' \<Longrightarrow> sc_rest cfg' = sc_rest cfg"
  "sc_ConnectClientUnlocked ck js cfg = Some cfg' \<Longrightarrow> sc_rest cfg' = sc_rest cfg"
  "sc_DisconnectClientUnlocked ck js cfg = Some cfg' \<Longrightarrow> sc_rest cfg' = sc_rest cfg"
  by (auto simp: sc_connectUnlocked_def sc_disconnectUnlocked_def sc_ConnectClientUnlocked_def sc_DisconnectClientUnlocked_def
      bind_eq_Some_conv Let_def intro!: sc_rest_net dest!: net.switch_loop_frame)

lemma sc_ConnectAll_rest:
  assumes "sc_ConnectAll cfg = Some cfg'"
  shows "sc_rest cfg' = sc_rest cfg"
  using assms unfolding sc_ConnectAll_def
  by (rule for_each_inv [where P = "\<lambda>c. sc_rest c = sc_rest cfg"]) (auto dest: sc_switch_rest)

lemma sc_partition_rest:
  assumes "sc_partition p1 p2 cfg = Some cfg'"
  shows "sc_rest cfg' = sc_rest cfg"
proof -
  have side: "sc_rest c' = sc_rest c"
    if "for_each (\<lambda>s c. do { c1 \<leftarrow> sc_disconnectUnlocked s other c; sc_connectUnlocked s mine c1 }) xs c = Some c'" for other mine xs c c'
    by (rule for_each_inv [where P = "\<lambda>c'. sc_rest c' = sc_rest c", OF that]) (auto simp: bind_eq_Some_conv dest!: sc_switch_rest)
  from assms show ?thesis by (auto simp: sc_partition_def bind_eq_Some_conv dest!: side)
qed

subsection \<open>Stopping and starting a server\<close>

text \<open>The part of the state that the end points of servers and clerks depend on, and everything but the persisters.\<close>

definition sc_view :: "('v, 'w) sc_config \<Rightarrow> nat \<times> string list option list \<times> name Network \<times> (nat \<rightharpoonup> string list)" where
  "sc_view cfg = (sc_n cfg, sc_endnames cfg, sc_net cfg, sc_clerks cfg)"

lemma sc_viewD:
  assumes "sc_view cfg' = sc_view cfg"
  shows "sc_n cfg' = sc_n cfg" "sc_endnames cfg' = sc_endnames cfg" "sc_net cfg' = sc_net cfg" "sc_clerks cfg' = sc_clerks cfg"
  using assms by (simp_all add: sc_view_def)

lemma sc_new_saved_ok:
  assumes "sc_shape cfg" and "i < sc_n cfg"
  shows "sc_shape (sc_new_saved i ps cfg)" and "sc_view (sc_new_saved i ps cfg) = sc_view cfg"
    and "k < sc_n cfg \<Longrightarrow> sc_content (sc_new_saved i ps cfg) k =
      (if k = i then Some (ReadRaftState ps, ReadSnapshot ps) else sc_content cfg k)"
  using assms by (auto simp: sc_shape_def sc_new_saved_def sc_view_def sc_content_def saved_content_new)

lemma sc_copy_saved_ok:
  assumes "sc_copy_saved i cfg = Some cfg'" and "sc_shape cfg"
  shows "i < sc_n cfg" and "sc_shape cfg'" and "sc_view cfg' = sc_view cfg" and "sc_servers cfg' = sc_servers cfg"
    and "k < sc_n cfg \<Longrightarrow> sc_content cfg' k = sc_content cfg k"
proof -
  from assms show i: "i < sc_n cfg" by (auto simp: sc_copy_saved_def bind_eq_Some_conv slice_get_eq_Some_iff sc_shape_def)
  from assms(1) have "cfg' = cfg \<or> (\<exists>a ps. sc_saved cfg ! i = Some a \<and> slice_get (sc_persister_store cfg) a = Some ps \<and>
      cfg' = sc_new_saved i (Persister_Copy ps) cfg)"
    by (auto simp: sc_copy_saved_def bind_eq_Some_conv slice_get_eq_Some_iff split: option.splits)
  moreover have "sc_content cfg i = Some (ReadRaftState ps, ReadSnapshot ps)"
    if "sc_saved cfg ! i = Some a" "slice_get (sc_persister_store cfg) a = Some ps" for a ps
    using that i assms(2) by (simp add: sc_content_def saved_content_def sc_shape_def)
  ultimately show "sc_shape cfg'" "sc_view cfg' = sc_view cfg" "sc_servers cfg' = sc_servers cfg"
    "k < sc_n cfg \<Longrightarrow> sc_content cfg' k = sc_content cfg k"
    using assms(2) i by (auto simp: sc_new_saved_ok persister.state_copy persister.snap_copy) (simp add: sc_new_saved_def)
qed

lemma sc_stop_ok:
  assumes "sc_stop i cfg = Some cfg'" and "sc_shape cfg"
  shows "sc_shape cfg'" and "sc_view cfg' = sc_view cfg" and "sc_servers cfg' = (sc_servers cfg)[i := None]"
    and "sc_content cfg' = sc_content cfg"
proof -
  have same: "c = c\<lparr>sc_raft_store := sc_raft_store c, sc_servers := (sc_servers c)[i := None]\<rparr>"
    if "sc_servers c ! i = None" for c :: "('a, 'b) sc_config" using that list_update_id [of "sc_servers c" i] by simp
  from assms(1) obtain rfs where c: "cfg' = cfg\<lparr>sc_raft_store := rfs, sc_servers := (sc_servers cfg)[i := None]\<rparr>"
    and len: "length rfs = length (sc_raft_store cfg)"
    by (auto simp: sc_stop_def Ctrler_Kill_def bind_eq_Some_conv slice_get_eq_Some_iff split: option.splits dest: same)
  have "Some k \<in> set (sc_servers cfg)" if "Some k \<in> set ((sc_servers cfg)[i := None])" for k
    using that set_update_subset_insert [of "sc_servers cfg" i None] by auto
  with assms(2) show "sc_shape cfg'" by (auto simp: c len sc_shape_def)
  show "sc_view cfg' = sc_view cfg" "sc_servers cfg' = (sc_servers cfg)[i := None]" "sc_content cfg' = sc_content cfg"
    by (simp_all add: c sc_view_def sc_content_def)
qed

lemma sc_Shutdown_ok:
  assumes "sc_ShutdownServer i cfg = Some cfg'" and "sc_inv cfg"
  shows "i < sc_n cfg" and "sc_inv cfg'" and "sc_n cfg' = sc_n cfg" and "sc_servers cfg' = (sc_servers cfg)[i := None]"
    and "k < sc_n cfg \<Longrightarrow> sc_content cfg' k = sc_content cfg k"
proof -
  from assms(1) obtain c1 c2 where c1: "sc_disconnectUnlocked i (sc_All cfg) cfg = Some c1"
    and c2: "sc_copy_saved i (c1\<lparr>sc_net := DeleteServer (SrvName i) (sc_net c1)\<rparr>) = Some c2"
    and c': "sc_stop i c2 = Some cfg'" by (auto simp: sc_ShutdownServer_def bind_eq_Some_conv)
  let ?d = "c1\<lparr>sc_net := DeleteServer (SrvName i) (sc_net c1)\<rparr>"
  note r1 = sc_restD(1) [OF sc_switch_rest(2) [OF c1]]
  have f: "sc_n c1 = sc_n cfg" "sc_servers c1 = sc_servers cfg" "sc_content c1 = sc_content cfg"
    "sc_endnames c1 = sc_endnames cfg" "sc_clerks c1 = sc_clerks cfg" by (subst r1, simp add: sc_content_def)+
  have inv1: "sc_inv c1" using sc_inv_frame [OF sc_switch_rest(2) [OF c1]] assms(2) by simp
  then have shape: "sc_shape ?d" by (simp add: sc_inv_def sc_shape_def)
  note s2 = sc_copy_saved_ok [OF c2 shape]
  note s3 = sc_stop_ok [OF c' s2(2)]
  from s2(1) f show i: "i < sc_n cfg" by simp
  have view: "sc_view cfg' = sc_view ?d" using s2(3) s3(2) by simp
  note v = sc_viewD [OF view]
  show "sc_n cfg' = sc_n cfg" using v f by simp
  show sv: "sc_servers cfg' = (sc_servers cfg)[i := None]" using s3(3) s2(4) f by simp
  show "k < sc_n cfg \<Longrightarrow> sc_content cfg' k = sc_content cfg k" using s2(5) [of k] s3(4) f by (simp add: sc_content_def)
  have len: "length (sc_servers cfg) = sc_n cfg" using assms(2) by (simp add: sc_inv_def sc_shape_def)
  have "sc_known cfg'" using inv1 i len unfolding sc_inv_def sc_known_def v sv f
    by (auto simp: f DeleteServer_def names_inv_def clerk_names_def nth_list_update)
  then show "sc_inv cfg'" using s3(1) inv1 v by (simp add: sc_inv_def)
qed

lemma sc_fresh_saved_ok:
  assumes "sc_fresh_saved i cfg = Some cfg'" and "sc_shape cfg"
  shows "i < sc_n cfg" and "sc_shape cfg'" and "sc_view cfg' = sc_view cfg"
    and "sc_servers cfg' = sc_servers cfg" and "sc_ctl_store cfg' = sc_ctl_store cfg"
    and "sc_content cfg' i = (case sc_content cfg i of None \<Rightarrow> Some ([], []) | Some c \<Rightarrow> Some c)"
    and "k < sc_n cfg \<Longrightarrow> k \<noteq> i \<Longrightarrow> sc_content cfg' k = sc_content cfg k"
proof -
  from assms show i: "i < sc_n cfg" by (auto simp: sc_fresh_saved_def bind_eq_Some_conv slice_get_eq_Some_iff sc_shape_def)
  have len: "length (sc_saved cfg) = sc_n cfg" using assms(2) by (simp add: sc_shape_def)
  from assms(1) obtain ps where c: "cfg' = sc_new_saved i ps cfg"
    and ps: "Some (ReadRaftState ps, ReadSnapshot ps) = (case sc_content cfg i of None \<Rightarrow> Some ([], []) | Some c \<Rightarrow> Some c)"
    using i len by (auto simp: sc_fresh_saved_def bind_eq_Some_conv slice_get_eq_Some_iff sc_content_def saved_content_def
        persister.state_copy persister.snap_copy MakePersister_def ReadRaftState_def ReadSnapshot_def Persister_Copy_def
        split: option.splits)
  show "sc_shape cfg'" "sc_view cfg' = sc_view cfg" "sc_servers cfg' = sc_servers cfg" "sc_ctl_store cfg' = sc_ctl_store cfg"
    "sc_content cfg' i = (case sc_content cfg i of None \<Rightarrow> Some ([], []) | Some c \<Rightarrow> Some c)"
    "k < sc_n cfg \<Longrightarrow> k \<noteq> i \<Longrightarrow> sc_content cfg' k = sc_content cfg k"
    using sc_new_saved_ok [where ps = ps, OF assms(2) i] i ps by (simp_all add: c) (simp_all add: sc_new_saved_def)
qed

text \<open>The new instance starts from the first configuration and owns the persister that was saved for it.\<close>

definition sc_current :: "('v, 'w) sc_config \<Rightarrow> nat \<Rightarrow> ShardCtrler option" where
  "sc_current cfg i = do { p \<leftarrow> slice_get (sc_servers cfg) i; k \<leftarrow> p; slice_get (sc_ctl_store cfg) k }"

lemma sc_launch_ok:
  assumes "sc_launch sctyp rftyp ends i cfg = Some cfg'" and "sc_shape cfg"
  shows "sc_shape cfg'" and "sc_n cfg' = sc_n cfg" and "sc_endnames cfg' = sc_endnames cfg" and "sc_clerks cfg' = sc_clerks cfg"
    and "sc_servers cfg' = (sc_servers cfg)[i := Some (length (sc_ctl_store cfg))]"
    and "sc_net cfg' = AddServer (SrvName i) (Some (length (sc_server_store cfg))) (sc_net cfg)"
    and "sc_content cfg' = sc_content cfg"
    and "\<exists>sc. sc_current cfg' i = Some sc \<and> sh_me sc = i \<and> sh_configs sc = [first_Config] \<and>
      sc_saved cfg' ! i = Some (rf_persister (sc_raft_store cfg' ! sh_rf sc))"
proof -
  from assms(1) obtain a rf where i: "i < length (sc_saved cfg)" "sc_saved cfg ! i = Some a" "i < length (sc_servers cfg)"
    and rf: "Make (sc_persister_store cfg) ends i a = Some rf"
    and c: "cfg' = cfg\<lparr>sc_raft_store := sc_raft_store cfg @ [rf],
        sc_ctl_store := sc_ctl_store cfg @ [\<lparr>sh_me = i, sh_rf = length (sc_raft_store cfg), sh_configs = [first_Config]\<rparr>],
        sc_servers := (sc_servers cfg)[i := Some (length (sc_ctl_store cfg))],
        sc_server_store := sc_server_store cfg @ [AddService (AddService MakeServer (MakeService ''ShardCtrler'' sctyp)) (MakeService ''Raft'' rftyp)],
        sc_net := AddServer (SrvName i) (Some (length (sc_server_store cfg))) (sc_net cfg)\<rparr>"
    by (auto simp: sc_launch_def Ctrler_StartServer_def Ctrler_new_def bind_eq_Some_conv Let_def slice_get_eq_Some_iff slice_set_eq_Some_iff)
  have "k = length (sc_ctl_store cfg) \<or> Some k \<in> set (sc_servers cfg)"
    if "Some k \<in> set ((sc_servers cfg)[i := Some (length (sc_ctl_store cfg))])" for k
    using that set_update_subset_insert [of "sc_servers cfg" i "Some (length (sc_ctl_store cfg))"] by auto
  with assms(2) show "sc_shape cfg'" by (force simp: c sc_shape_def)
  have "rf_persister rf = a" using rf by (auto simp: Make_def readPersist_def bind_eq_Some_conv)
  then show "\<exists>sc. sc_current cfg' i = Some sc \<and> sh_me sc = i \<and> sh_configs sc = [first_Config] \<and>
      sc_saved cfg' ! i = Some (rf_persister (sc_raft_store cfg' ! sh_rf sc))" using i by (simp add: c sc_current_def)
  show "sc_n cfg' = sc_n cfg" "sc_endnames cfg' = sc_endnames cfg" "sc_clerks cfg' = sc_clerks cfg"
    "sc_servers cfg' = (sc_servers cfg)[i := Some (length (sc_ctl_store cfg))]"
    "sc_net cfg' = AddServer (SrvName i) (Some (length (sc_server_store cfg))) (sc_net cfg)"
    "sc_content cfg' = sc_content cfg" by (simp_all add: c sc_content_def)
qed

lemma clerk_names_make_ends:
  assumes "make_ends up ps rn = Inr (rn', ends)" and "clerk_names n rn names"
  shows "clerk_names n rn' names"
  using assms(2) make_ends_keep [OF assms(1)] by (simp add: clerk_names_def)

lemma names_inv_make_ends:
  assumes "make_ends up ps rn = Inr (rn', ends)" and "names_inv n endnames rn"
  shows "names_inv n endnames rn'"
proof -
  have "e \<in> dom (nt_ends rn') \<and> nt_connections rn' e = Some (Some (SrvName j))" if "endname_at endnames i j = Some e" for i j e
  proof -
    from assms(2) that have "e \<in> dom (nt_ends rn) \<and> nt_connections rn e = Some (Some (SrvName j))"
      unfolding names_inv_def by blast
    with make_ends_keep [OF assms(1), of e] show ?thesis by simp
  qed
  with assms(2) show ?thesis unfolding names_inv_def by blast
qed

lemma clerk_names_AddServer: "clerk_names n (AddServer servername p rn) names \<longleftrightarrow> clerk_names n rn names"
  by (simp add: clerk_names_def AddServer_def)

lemma servers_AddServer: "nt_servers (AddServer servername p rn) = (nt_servers rn)(servername \<mapsto> p)"
  by (simp add: AddServer_def)

lemma sc_Start_ok:
  assumes "sc_StartServer sctyp rftyp rnd i cfg = Inr cfg'" and "sc_shape cfg" and "sc_known cfg"
  shows "i < sc_n cfg" and "sc_shape cfg'" and "sc_known cfg'" and "sc_n cfg' = sc_n cfg"
    and "sc_endnames cfg' = (sc_endnames cfg)[i := Some (map rnd [0..<sc_n cfg])]"
    and "sc_content cfg' i = (case sc_content cfg i of None \<Rightarrow> Some ([], []) | Some c \<Rightarrow> Some c)"
    and "k < sc_n cfg \<Longrightarrow> k \<noteq> i \<Longrightarrow> sc_content cfg' k = sc_content cfg k"
    and "\<exists>sc. sc_current cfg' i = Some sc \<and> sh_me sc = i \<and> sh_configs sc = [first_Config] \<and>
      sc_saved cfg' ! i = Some (rf_persister (sc_raft_store cfg' ! sh_rf sc))"
proof -
  let ?names = "map rnd [0..<sc_n cfg]" and ?n = "sc_n cfg"
  let ?E = "(sc_endnames cfg)[i := Some ?names]"
  from assms(1) obtain rn ends c1
    where mk: "make_ends False (map (\<lambda>j. (EndName (?names ! j), SrvName j)) [0..<?n]) (sc_net cfg) = Inr (rn, ends)"
      and c1: "sc_fresh_saved i (cfg\<lparr>sc_endnames := ?E, sc_net := rn\<rparr>) = Some c1"
      and l: "sc_launch sctyp rftyp ends i c1 = Some cfg'"
    by (auto simp: sc_StartServer_def Let_def res_bind_Inr_iff panics_Inr_iff slice_set_eq_Some_iff)
  let ?c = "cfg\<lparr>sc_endnames := ?E, sc_net := rn\<rparr>"
  have shape: "sc_shape ?c" using assms(2) by (simp add: sc_shape_def)
  note f = sc_fresh_saved_ok [OF c1 shape]
  note v = sc_viewD [OF f(3)]
  note la = sc_launch_ok [OF l f(2)]
  from f(1) show i: "i < ?n" by simp
  have known: "names_inv ?n (sc_endnames cfg) (sc_net cfg)"
    "\<And>ck names. sc_clerks cfg ck = Some names \<Longrightarrow> clerk_names ?n (sc_net cfg) names"
    "\<And>j. j < ?n \<Longrightarrow> map_read None (nt_servers (sc_net cfg)) (SrvName j) \<noteq> None \<longleftrightarrow> sc_servers cfg ! j \<noteq> None"
    using assms(3) unfolding sc_known_def by blast+
  have srv: "nt_servers rn = nt_servers (sc_net cfg)" using make_ends_ok [OF mk] by simp
  have len: "length (sc_servers cfg) = ?n" using assms(2) by (simp add: sc_shape_def)
  have "names_inv ?n ?E rn" using new_names(1) [OF known(1) i _ mk] by simp
  moreover have "clerk_names ?n rn names" if "sc_clerks cfg ck = Some names" for ck names
    using clerk_names_make_ends [OF mk known(2) [OF that]] .
  ultimately show "sc_known cfg'" unfolding sc_known_def la(2-6) v f(4,5)
    using known(3) len by (auto simp: clerk_names_AddServer servers_AddServer srv nth_list_update)
  show "sc_shape cfg'" "sc_n cfg' = sc_n cfg" "sc_endnames cfg' = ?E" using la v by simp_all
  have c: "sc_content ?c = sc_content cfg" by (simp add: sc_content_def)
  show "sc_content cfg' i = (case sc_content cfg i of None \<Rightarrow> Some ([], []) | Some c \<Rightarrow> Some c)"
    "k < ?n \<Longrightarrow> k \<noteq> i \<Longrightarrow> sc_content cfg' k = sc_content cfg k" using f(6,7) la(7) c by simp_all
  show "\<exists>sc. sc_current cfg' i = Some sc \<and> sh_me sc = i \<and> sh_configs sc = [first_Config] \<and>
      sc_saved cfg' ! i = Some (rf_persister (sc_raft_store cfg' ! sh_rf sc))" by (rule la(8))
qed

subsection \<open>Clerks\<close>

lemma sc_makeClient_ok:
  assumes "sc_makeClient rnd shuffle to cfg = Inr (cfg', ck)" and "sc_inv cfg"
  shows "sc_inv cfg'"
proof -
  let ?names = "map rnd [0..<sc_n cfg]" and ?n = "sc_n cfg"
  let ?ps = "map (\<lambda>j. (EndName (?names ! j), SrvName j)) [0..<?n]"
  from assms(1) obtain rn ends handles
    where mk: "make_ends False ?ps (sc_net cfg) = Inr (rn, ends)"
      and con: "sc_ConnectClientUnlocked ck to (cfg\<lparr>sc_net := rn, sc_clerk_store := sc_clerk_store cfg @ [MakeCtrlClerk handles],
          sc_clerks := (sc_clerks cfg)(ck \<mapsto> ?names), sc_nextClientId := sc_nextClientId cfg + 1\<rparr>) = Some cfg'"
    by (auto simp: sc_makeClient_def Let_def res_bind_Inr_iff panics_Inr_iff)
  let ?c = "cfg\<lparr>sc_net := rn, sc_clerk_store := sc_clerk_store cfg @ [MakeCtrlClerk handles],
      sc_clerks := (sc_clerks cfg)(ck \<mapsto> ?names), sc_nextClientId := sc_nextClientId cfg + 1\<rparr>"
  have known: "names_inv ?n (sc_endnames cfg) (sc_net cfg)" "sc_shape cfg"
    "\<And>ck names. sc_clerks cfg ck = Some names \<Longrightarrow> clerk_names ?n (sc_net cfg) names"
    "\<And>j. j < ?n \<Longrightarrow> map_read None (nt_servers (sc_net cfg)) (SrvName j) \<noteq> None \<longleftrightarrow> sc_servers cfg ! j \<noteq> None"
    "\<And>j. j < ?n \<Longrightarrow> sc_endnames cfg ! j \<noteq> None" using assms(2) unfolding sc_inv_def sc_known_def by blast+
  have pair: "(EndName (rnd j), SrvName j) \<in> set ?ps" if "j < ?n" for j using that by auto
  have "clerk_names ?n rn ?names"
    using make_ends_new [OF mk pair] by (simp add: clerk_names_def)
  moreover have "clerk_names ?n rn names" if "sc_clerks cfg c = Some names" for c names
    using clerk_names_make_ends [OF mk known(3) [OF that]] .
  moreover note make_ends_servers [OF mk]
  ultimately have "sc_inv ?c"
    using known(2,4,5) names_inv_make_ends [OF mk known(1)] by (simp add: sc_inv_def sc_known_def sc_shape_def)
  with sc_inv_frame [OF sc_switch_rest(3) [OF con]] show ?thesis by simp
qed

lemma sc_deleteClient_ok: "sc_inv cfg \<Longrightarrow> sc_inv (sc_deleteClient ck cfg)"
  by (simp add: sc_inv_def sc_known_def sc_shape_def sc_deleteClient_def)

subsection \<open>Every reachable state\<close>

lemma sc_start_all:
  assumes "for_each_res (\<lambda>i. sc_StartServer sctyp rftyp (rnd i) i) xs cfg = Inr cfg'" and "sc_shape cfg" and "sc_known cfg"
  shows "sc_shape cfg' \<and> sc_known cfg' \<and> sc_n cfg' = sc_n cfg \<and>
     (\<forall>i < sc_n cfg. i \<in> set xs \<or> sc_endnames cfg ! i \<noteq> None \<longrightarrow> sc_endnames cfg' ! i \<noteq> None)"
  using assms
proof (induction xs arbitrary: cfg)
  case (Cons x xs)
  from Cons.prems(1) obtain c1 where c1: "sc_StartServer sctyp rftyp (rnd x) x cfg = Inr c1"
    and rest: "for_each_res (\<lambda>i. sc_StartServer sctyp rftyp (rnd i) i) xs c1 = Inr cfg'" by (auto simp: res_bind_Inr_iff)
  note ok = sc_Start_ok [OF c1 Cons.prems(2,3)]
  have "length (sc_endnames cfg) = sc_n cfg" using Cons.prems(3) by (simp add: sc_known_def names_inv_def)
  with ok(5) have "sc_endnames c1 ! i \<noteq> None" if "i < sc_n cfg" "i = x \<or> sc_endnames cfg ! i \<noteq> None" for i
    using that by (cases "i = x") auto
  with Cons.IH [OF rest ok(2,3)] ok(4) show ?case by auto
qed simp

lemma sc_Start_inv:
  assumes "sc_StartServer sctyp rftyp rnd i cfg = Inr cfg'" and "sc_inv cfg"
  shows "sc_inv cfg'"
proof -
  have "for_each_res (\<lambda>i. sc_StartServer sctyp rftyp rnd i) [i] cfg = Inr cfg'" using assms(1) by simp
  from sc_start_all [OF this] assms(2) show ?thesis by (simp add: sc_inv_def)
qed

lemma sc_make_config_inv:
  fixes cfg :: "('v, 'w) sc_config"
  assumes "sc_make_config sctyp rftyp rnd n unreliable = Inr cfg"
  shows "sc_inv cfg \<and> sc_n cfg = n \<and> (\<forall>a < n. \<forall>b < n. sc_link cfg a b)"
proof -
  let ?c = "\<lparr>sc_net = MakeNetwork, sc_n = n, sc_servers = replicate n None, sc_saved = replicate n None,
      sc_endnames = replicate n None, sc_clerks = Map.empty, sc_nextClientId = int n + 1000,
      sc_ctl_store = [], sc_raft_store = [], sc_persister_store = [], sc_server_store = [], sc_clerk_store = []\<rparr> :: ('v, 'w) sc_config"
  from assms obtain c1 c2 where c1: "for_each_res (\<lambda>i. sc_StartServer sctyp rftyp (rnd i) i) [0..<n] ?c = Inr c1"
    and c2: "sc_ConnectAll c1 = Some c2" and cfg: "cfg = c2\<lparr>sc_net := Reliable (\<not> unreliable) (sc_net c2)\<rparr>"
    by (auto simp: sc_make_config_def Let_def res_bind_Inr_iff panics_Inr_iff)
  have "sc_shape ?c" by (auto simp: sc_shape_def saved_ok_def)
  moreover have "sc_known ?c" by (auto simp: sc_known_def names_inv_def endname_at_Some_iff MakeNetwork_def)
  ultimately have r1: "sc_inv c1" "sc_n c1 = n" using sc_start_all [OF c1] by (simp_all add: sc_inv_def)
  have inv2: "sc_inv c2" using sc_inv_frame [OF sc_ConnectAll_rest [OF c2]] r1(1) by simp
  from sc.con_all [OF sc_inv_ready [OF r1(1)], of "[0..<sc_n c1]", OF _ refl] c2
  have l: "sc_n c2 = n" "\<And>a b. a < n \<Longrightarrow> b < n \<Longrightarrow> sc_link c2 a b" using r1(2) by (auto simp: sc_ConnectAll_def sc_All_def)
  have "sc_inv cfg" using inv2
    by (simp add: cfg sc_inv_def sc_known_def sc_shape_def names_inv_def clerk_names_def Reliable_def)
  moreover have "sc_link cfg = sc_link c2" by (simp add: fun_eq_iff cfg sc_link_def net_link_def end_on_def Reliable_def)
  ultimately show ?thesis using l cfg by simp
qed

lemma sc_step_inv:
  assumes "sc_step sctyp rftyp op cfg = Inr cfg'" and "sc_inv cfg"
  shows "sc_inv cfg'"
proof -
  have frame: "sc_inv cfg'" if "sc_rest cfg' = sc_rest cfg" using sc_inv_frame [OF that] assms(2) by simp
  show ?thesis
  proof (cases op)
    case (ScMakeClient rnd shuffle to)
    then show ?thesis using assms sc_makeClient_ok by (auto simp: res_bind_Inr_iff)
  next
    case (ScShutdownServer i)
    then show ?thesis using assms sc_Shutdown_ok(2) by (auto simp: panics_Inr_iff)
  next
    case (ScStartServer i rnd)
    then show ?thesis using assms sc_Start_inv by auto
  qed (use assms sc_deleteClient_ok in \<open>auto simp: panics_Inr_iff intro!: frame dest: sc_switch_rest sc_ConnectAll_rest sc_partition_rest\<close>)
qed

lemma sc_reachable_inv: "sc_reachable sctyp rftyp cfg \<Longrightarrow> sc_inv cfg"
  by (induction rule: sc_reachable.induct) (use sc_make_config_inv sc_step_inv in blast)+

section \<open>Progress\<close>

lemma make_ends_fresh:
  assumes "fresh_names n rnd rn"
  shows "\<exists>rn' ends. make_ends up (map (\<lambda>j. (EndName (map rnd [0..<n] ! j), SrvName j)) [0..<n]) rn = Inr (rn', ends)"
  using assms by (intro make_ends_succeeds) (auto simp: fresh_names_def distinct_map inj_on_def)

lemma sc_fresh_saved_runs:
  assumes "sc_shape cfg" and "i < sc_n cfg"
  shows "\<exists>ps. sc_fresh_saved i cfg = Some (sc_new_saved i ps cfg)"
proof (cases "sc_saved cfg ! i")
  case (Some a)
  with assms saved_ok_get [of "sc_saved cfg" "sc_persister_store cfg" i a] show ?thesis
    by (auto simp: sc_fresh_saved_def sc_shape_def)
qed (use assms in \<open>auto simp: sc_fresh_saved_def sc_shape_def\<close>)

lemma sc_Start_runs:
  assumes "sc_inv cfg" and "i < sc_n cfg" and "fresh_names (sc_n cfg) rnd (sc_net cfg)"
  shows "\<exists>cfg'. sc_StartServer sctyp rftyp rnd i cfg = Inr cfg'"
proof -
  let ?names = "map rnd [0..<sc_n cfg]"
  let ?E = "(sc_endnames cfg)[i := Some ?names]"
  have len: "length (sc_endnames cfg) = sc_n cfg" "length (sc_saved cfg) = sc_n cfg" "length (sc_servers cfg) = sc_n cfg"
    using assms(1) by (simp_all add: sc_inv_def sc_known_def sc_shape_def names_inv_def)
  obtain rn ends where mk: "make_ends False (map (\<lambda>j. (EndName (?names ! j), SrvName j)) [0..<sc_n cfg]) (sc_net cfg) = Inr (rn, ends)"
    using make_ends_fresh [OF assms(3)] by blast
  let ?c = "cfg\<lparr>sc_endnames := ?E, sc_net := rn\<rparr>"
  have "sc_shape ?c" using assms(1) by (simp add: sc_inv_def sc_shape_def)
  then obtain ps where ps: "sc_fresh_saved i ?c = Some (sc_new_saved i ps ?c)"
    using sc_fresh_saved_runs [of ?c i] assms(2) by auto
  have "\<exists>cfg'. sc_launch sctyp rftyp ends i (sc_new_saved i ps ?c) = Some cfg'"
    using assms(2) len by (simp add: sc_launch_def sc_new_saved_def Ctrler_StartServer_def Ctrler_new_def Make_def)
  with mk ps assms(2) len show ?thesis by (auto simp: sc_StartServer_def)
qed

lemma sc_Shutdown_runs:
  assumes "sc_inv cfg" and "i < sc_n cfg"
  shows "\<exists>cfg'. sc_ShutdownServer i cfg = Some cfg'"
proof -
  from sc_disconnectUnlocked_law [OF sc_inv_ready [OF assms(1)] assms(2), of "sc_All cfg"] obtain c1
    where c1: "sc_disconnectUnlocked i (sc_All cfg) cfg = Some c1" "sc_rest c1 = sc_rest cfg" by (auto simp: sc_All_def)
  let ?d = "c1\<lparr>sc_net := DeleteServer (SrvName i) (sc_net c1)\<rparr>"
  have "sc_inv c1" using sc_inv_frame [OF c1(2)] assms(1) by simp
  then have shape: "sc_shape ?d" by (simp add: sc_inv_def sc_shape_def)
  have n: "sc_n c1 = sc_n cfg" by (subst sc_restD(1) [OF c1(2)]) simp
  have "\<exists>c2. sc_copy_saved i ?d = Some c2"
  proof (cases "sc_saved c1 ! i")
    case (Some a)
    with shape n assms(2) saved_ok_get [of "sc_saved c1" "sc_persister_store c1" i a] show ?thesis
      by (auto simp: sc_copy_saved_def sc_shape_def)
  qed (use shape n assms(2) in \<open>auto simp: sc_copy_saved_def sc_shape_def\<close>)
  then obtain c2 where c2: "sc_copy_saved i ?d = Some c2" by blast
  note s2 = sc_copy_saved_ok [OF c2 shape]
  have "i < length (sc_servers c2)" using s2 by (simp add: sc_shape_def sc_view_def)
  moreover have "k < length (sc_ctl_store c2) \<and> sh_rf (sc_ctl_store c2 ! k) < length (sc_raft_store c2)" if "sc_servers c2 ! i = Some k" for k
    using s2(2) that calculation by (metis nth_mem sc_shape_def)
  ultimately have "\<exists>cfg'. sc_stop i c2 = Some cfg'" by (cases "sc_servers c2 ! i") (auto simp: sc_stop_def Ctrler_Kill_def)
  with c1 c2 show ?thesis by (auto simp: sc_ShutdownServer_def)
qed

lemma sc_clerk_switch_runs:
  assumes "clerk_names n rn names" and "\<forall>t \<in> set to. t < n"
  shows "\<exists>rn'. switch_loop (\<lambda>e. Enable e b) (\<lambda>j. Some True) (\<lambda>t. map_option EndName (slice_get names t)) to rn = Some rn'"
proof -
  have "\<exists>c. Some True = Some c \<and> (c \<longrightarrow> map_option EndName (slice_get names j) \<noteq> None)" if "j \<in> set to" for j
    using assms that by (auto simp: clerk_names_def)
  from net.switch_loop_run [where s = rn and b = b and js = to and cond = "\<lambda>j. Some True" and
      nm = "\<lambda>t. map_option EndName (slice_get names t)", OF this] show ?thesis by blast
qed

lemma sc_makeClient_runs:
  assumes "sc_inv cfg" and "sc_op_ok cfg (ScMakeClient rnd shuffle to)"
  shows "\<exists>cfg' ck. sc_makeClient rnd shuffle to cfg = Inr (cfg', ck)"
proof -
  let ?names = "map rnd [0..<sc_n cfg]" and ?n = "sc_n cfg"
  have fresh: "fresh_names ?n rnd (sc_net cfg)" using assms(2) by simp
  obtain rn ends where mk: "make_ends False (map (\<lambda>j. (EndName (?names ! j), SrvName j)) [0..<?n]) (sc_net cfg) = Inr (rn, ends)"
    using make_ends_fresh [OF fresh] by blast
  have len: "length ends = ?n" using make_ends_ok [OF mk] by (metis length_map length_upt diff_zero)
  have small: "shuffle i \<le> i" if "i < ?n" for i using assms(2) that by simp
  have "for_each (\<lambda>i sa. swap_at sa i (shuffle i)) [0..<?n] ends = for_each (\<lambda>i sa. swap_at sa i (min (shuffle i) i)) [0..<?n] ends"
    by (rule for_each_cong) (simp_all add: small min_absorb1)
  moreover have "for_each (\<lambda>i sa. swap_at sa i (min (shuffle i) i)) [0..<?n] ends \<noteq> None"
    using shuffle_prefix [of "\<lambda>i. min (shuffle i) i" ?n ends] len by auto
  ultimately obtain handles where h: "sc_random_handles shuffle ends = Some handles" by (auto simp: sc_random_handles_def len)
  have pair: "(EndName (rnd j), SrvName j) \<in> set (map (\<lambda>j. (EndName (?names ! j), SrvName j)) [0..<?n])" if "j < ?n" for j
    using that by auto
  have "clerk_names ?n rn ?names" using make_ends_new [OF mk pair] by (simp add: clerk_names_def)
  from sc_clerk_switch_runs [OF this, of to True] assms(2) mk h show ?thesis
    by (auto simp: sc_makeClient_def sc_ConnectClientUnlocked_def Let_def)
qed

lemma sc_client_switch_runs:
  assumes "sc_inv cfg" and "sc_clerks cfg ck \<noteq> None" and "\<forall>t \<in> set js. t < sc_n cfg"
  shows "\<exists>cfg'. sc_ConnectClientUnlocked ck js cfg = Some cfg'" and "\<exists>cfg'. sc_DisconnectClientUnlocked ck js cfg = Some cfg'"
proof -
  from assms(1,2) obtain names where ck: "sc_clerks cfg ck = Some names" and names: "clerk_names (sc_n cfg) (sc_net cfg) names"
    unfolding sc_inv_def sc_known_def by blast
  from sc_clerk_switch_runs [OF names assms(3), of True] sc_clerk_switch_runs [OF names assms(3), of False] ck
  show "\<exists>cfg'. sc_ConnectClientUnlocked ck js cfg = Some cfg'" "\<exists>cfg'. sc_DisconnectClientUnlocked ck js cfg = Some cfg'"
    by (auto simp: sc_ConnectClientUnlocked_def sc_DisconnectClientUnlocked_def map_read_def)
qed

section \<open>Properties\<close>


lemma sc_Shutdown_net:
  assumes "sc_ShutdownServer i cfg = Some cfg'" and "sc_inv cfg" and "j < sc_n cfg"
  shows "\<not> sc_link cfg' i j" and "\<not> sc_link cfg' j i" and "nt_servers (sc_net cfg') (SrvName i) = Some None"
    and "nt_ends (sc_net cfg') = nt_ends (sc_net cfg)"
proof -
  from assms(1) obtain c1 c2 where c1: "sc_disconnectUnlocked i (sc_All cfg) cfg = Some c1"
    and c2: "sc_copy_saved i (c1\<lparr>sc_net := DeleteServer (SrvName i) (sc_net c1)\<rparr>) = Some c2"
    and c': "sc_stop i c2 = Some cfg'" by (auto simp: sc_ShutdownServer_def bind_eq_Some_conv)
  let ?d = "c1\<lparr>sc_net := DeleteServer (SrvName i) (sc_net c1)\<rparr>"
  have "sc_shape ?d" using sc_inv_frame [OF sc_switch_rest(2) [OF c1]] assms(2) by (simp add: sc_inv_def sc_shape_def)
  note s2 = sc_copy_saved_ok [OF c2 this]
  note v = sc_viewD [OF trans [OF sc_stop_ok(2) [OF c' s2(2)] s2(3)]]
  have i: "i < sc_n cfg" by (rule sc_Shutdown_ok(1) [OF assms(1,2)])
  have "\<forall>t \<in> set (sc_All cfg). t < sc_n cfg" "length (sc_All cfg) \<le> sc_n cfg" by (simp_all add: sc_All_def)
  from sc_disconnectUnlocked_law [OF sc_inv_ready [OF assms(2)] i this] c1 i assms(3)
  have "\<not> sc_link c1 i j \<and> \<not> sc_link c1 j i" by (auto simp: between_def sc_All_def)
  moreover have "sc_link cfg' = sc_link c1" by (simp add: fun_eq_iff sc_link_def net_link_def v end_on_def DeleteServer_def)
  ultimately show "\<not> sc_link cfg' i j" "\<not> sc_link cfg' j i" by simp_all
  show "nt_servers (sc_net cfg') (SrvName i) = Some None" by (simp add: v DeleteServer_def)
  show "nt_ends (sc_net cfg') = nt_ends (sc_net cfg)"
    using net_rest_eqD(1) [OF sc_restD(2) [OF sc_switch_rest(2) [OF c1]]] by (simp add: v DeleteServer_def)
qed


text \<open>
  C24. The leader in a minority: with an odd number of servers, three or more, of which at least one is running and
  leads, \<open>make_partition\<close> and \<open>partition\<close> leave the leader that \<open>Leader\<close> found able to send exactly to the
  members of its side, itself included, which are fewer than a majority, and the others connected to each other.
\<close>

theorem sc_leader_isolated:
  assumes "sc_reachable sctyp rftyp cfg" and "sc_Leader gs cfg = Some (True, l)" and "sc_n cfg = 2 * m + 1" and "1 \<le> m"
  shows "l < sc_n cfg \<and> (\<exists>sc. sc_current cfg l = Some sc \<and> snd (gs (sh_rf sc))) \<and>
     (\<exists>p1 p2 cfg'. sc_make_partition gs cfg = Some (p1, p2) \<and> sc_partition p1 p2 cfg = Some cfg' \<and>
        {b. b < sc_n cfg \<and> sc_link cfg' l b} = set p2 \<and> 2 * card (set p2) < sc_n cfg \<and>
        (\<forall>a \<in> set p1. \<forall>b < sc_n cfg. sc_link cfg' a b \<longleftrightarrow> b \<in> set p1))"
proof -
  note inv = sc_reachable_inv [OF assms(1)]
  have found: "l \<in> set xs \<and> (\<exists>sc. sc_current cfg l = Some sc \<and> snd (gs (sh_rf sc)))"
    if "sc_Leader_loop gs cfg xs = Some (True, l)" for xs
    using that by (induction xs) (auto simp: bind_eq_Some_conv sc_current_def split: option.splits if_splits)
  from found [of "[0..<sc_n cfg]"] assms(2) have l: "l < sc_n cfg" "\<exists>sc. sc_current cfg l = Some sc \<and> snd (gs (sh_rf sc))"
    by (auto simp: sc_Leader_def)
  from partition_around_minority [OF assms(3,4) l(1)] obtain p1 p2
    where p: "partition_around l (sc_n cfg) = Some (p1, p2)" "distinct (p1 @ p2)" "set (p1 @ p2) = {..<sc_n cfg}" "l \<in> set p2"
      and len: "length p2 = m" by blast
  have all: "\<forall>t \<in> set (p1 @ p2). t < sc_n cfg" using p(3) by auto
  from sc.partition_run [OF sc_inv_ready [OF inv] p(2) refl all] obtain cfg'
    where cfg': "sc_partition p1 p2 cfg = Some cfg'"
      and link: "\<And>a b. a < sc_n cfg \<Longrightarrow> b < sc_n cfg \<Longrightarrow> sc_link cfg' a b \<longleftrightarrow> (a \<in> set p1 \<longleftrightarrow> b \<in> set p1)"
    using p(3) by (auto simp: sc_partition_def)
  have side: "b \<in> set p2 \<longleftrightarrow> b \<notin> set p1" if "b < sc_n cfg" for b using p(2,3) that by auto
  have "{b. b < sc_n cfg \<and> sc_link cfg' l b} = set p2" using link [OF l(1)] side p(3,4) l(1) by auto
  moreover have "2 * card (set p2) < sc_n cfg" using distinct_card [of p2] p(2) len assms(3) by simp
  moreover have "sc_make_partition gs cfg = Some (p1, p2)" using assms(2) p(1) by (simp add: sc_make_partition_def)
  moreover have "sc_link cfg' a b \<longleftrightarrow> b \<in> set p1" if "a \<in> set p1" "b < sc_n cfg" for a b using link [of a b] that all by simp
  ultimately show ?thesis using l cfg' by blast
qed

section \<open>Witnesses\<close>

definition ex_sc :: "go_error + (unit, unit) sc_config" where
  "ex_sc = sc_make_config [] [] ex_rnd 3 False"

lemma ex_sc_run:
  "case ex_sc of Inl e \<Rightarrow> False | Inr cfg \<Rightarrow> sc_Leader (\<lambda>r. (4, r = 1)) cfg = Some (True, 1) \<and> sc_content cfg 0 = Some ([], []) \<and>
     list_all (\<lambda>j. nt_ends (sc_net cfg) (EndName (ex_rnd 7 j)) = None) [0, 1, 2]"
  by code_simp

lemma ex_sc_reach:
  obtains cfg down up :: "(unit, unit) sc_config" where "sc_reachable [] [] cfg" and "sc_n cfg = 3"
    and "sc_Leader (\<lambda>r. (4, r = 1)) cfg = Some (True, 1)" and "sc_content cfg 0 = Some ([], [])"
    and "sc_ShutdownServer 0 cfg = Some down" and "sc_StartServer [] [] (ex_rnd 7) 0 down = Inr up"
proof -
  from ex_sc_run obtain cfg where cfg: "ex_sc = Inr cfg" and run: "sc_Leader (\<lambda>r. (4, r = 1)) cfg = Some (True, 1)"
      "sc_content cfg 0 = Some ([], [])"
    and new: "nt_ends (sc_net cfg) (EndName (ex_rnd 7 0)) = None" "nt_ends (sc_net cfg) (EndName (ex_rnd 7 1)) = None"
      "nt_ends (sc_net cfg) (EndName (ex_rnd 7 2)) = None"
    by (auto split: sum.splits)
  note make = cfg [unfolded ex_sc_def]
  have inv: "sc_inv cfg" and n: "sc_n cfg = 3" using sc_make_config_inv [OF make] by simp_all
  obtain down where down: "sc_ShutdownServer 0 cfg = Some down" using sc_Shutdown_runs [OF inv, of 0] n by auto
  note d = sc_Shutdown_ok [OF down inv] and ends = sc_Shutdown_net(4) [OF down inv, of 0]
  have "nt_ends (sc_net cfg) (EndName (ex_rnd 7 j)) = None" if "j < 3" for j
    using new that by (auto simp: less_Suc_eq numeral_3_eq_3 numeral_2_eq_2)
  then have "fresh_names (sc_n down) (ex_rnd 7) (sc_net down)"
    using n d(3) ends by (simp add: fresh_names_def distinct_map inj_on_def ex_rnd_def)
  then obtain up where "sc_StartServer [] [] (ex_rnd 7) 0 down = Inr up" using sc_Start_runs [OF d(2), of 0 "ex_rnd 7"] d(3) n by auto
  with that [OF sc_reach_make [OF make] n run down] show ?thesis by blast
qed



theorem sc_leader_isolated_witness:
  "\<exists>cfg cfg' :: (unit, unit) sc_config. \<exists>p1 p2. sc_make_partition (\<lambda>r. (4, r = 1)) cfg = Some (p1, p2) \<and>
     sc_partition p1 p2 cfg = Some cfg' \<and> 2 * card {b. b < sc_n cfg \<and> sc_link cfg' 1 b} < sc_n cfg"
proof -
  obtain cfg :: "(unit, unit) sc_config" where cfg: "sc_reachable [] [] cfg" "sc_n cfg = 2 * 1 + 1"
    and l: "sc_Leader (\<lambda>r. (4, r = 1)) cfg = Some (True, 1)" by (rule ex_sc_reach) simp
  from sc_leader_isolated [OF cfg(1) l cfg(2)] show ?thesis by fastforce
qed

end
