(* ===== verification/Shardkv_Tester.thy ===== *)
theory Shardkv_Tester
  imports Shardctrler_Tester Decimal
begin

text \<open>
  The server of \<open>shardkv/server.go\<close>, which is the skeleton that the repository has, and the configuration of its tester in
  \<open>shardkv/config.go\<close>: three groups of servers, a replicated shard controller, and clerks that reach both.

  Here servers have names too, so names are strings. \<open>randstring\<close> reads a stream \<open>rnd\<close> of strings; \<open>sk_drawn\<close> counts
  what was read. Objects that are shared by pointer live in stores as in the other testers.

  The theory shows that the names of servers are distinct, that the tester works exactly for groups of three
  servers, that the servers a group announces when it joins are those that run, and what shutting down a server
  cuts off.
\<close>

section \<open>Servers and clerks\<close>

text \<open>The function \<open>make_end\<close> of a server or a clerk is \<open>sk_make_end\<close> below.\<close>

record ShardKV =
  kvs_me :: nat
  kvs_rf :: nat
  kvs_gid :: int
  kvs_ctrlers :: "string ClientEnd list"
  kvs_maxraftstate :: int

text \<open>The handlers leave the server and the reply as they are.\<close>

definition ShardKV_Get :: "ShardKV \<Rightarrow> GetArgs \<Rightarrow> GetReply \<Rightarrow> ShardKV \<times> GetReply" where
  "ShardKV_Get kv args reply = (kv, reply)"

definition ShardKV_PutAppend :: "ShardKV \<Rightarrow> PutAppendArgs \<Rightarrow> PutAppendReply \<Rightarrow> ShardKV \<times> PutAppendReply" where
  "ShardKV_PutAppend kv args reply = (kv, reply)"

record ShardClerk =
  shk_sm :: "string CtrlClerk"
  shk_config :: Config

definition MakeShardClerk :: "string ClientEnd list \<Rightarrow> ShardClerk" where
  "MakeShardClerk ctrlers =
     \<lparr>shk_sm = MakeCtrlClerk ctrlers, shk_config = \<lparr>cg_Num = 0, cg_Shards = replicate NShards 0, cg_Groups = Map.empty\<rparr>\<rparr>"

section \<open>State of the tester\<close>

text \<open>A nil slice of names is the empty list; its length is 0 and indexing it panics.\<close>

record group =
  gg_gid :: int
  gg_servers :: "ptr list"
  gg_saved :: "ptr list"
  gg_endnames :: "string list list"
  gg_mendnames :: "string list list"

record ctrler =
  ct_n :: nat
  ct_servers :: "ptr list"
  ct_names :: "string list"
  ct_ck :: "string CtrlClerk option"

record ('v, 'w) sk_config =
  sk_net :: "string Network"
  sk_ctl :: "ctrler option"
  sk_ngroups :: nat
  sk_n :: nat
  sk_groups :: "group option list"
  sk_clerks :: "nat \<rightharpoonup> string list"
  sk_nextClientId :: int
  sk_maxraftstate :: int
  sk_drawn :: nat
  sk_kv_store :: "ShardKV list"
  sk_ctl_store :: "ShardCtrler list"
  sk_raft_store :: "string Raft list"
  sk_persister_store :: "Persister list"
  sk_server_store :: "('v, 'w) Server list"
  sk_clerk_store :: "ShardClerk list"

definition sk_group :: "('v, 'w) sk_config \<Rightarrow> nat \<Rightarrow> group option" where
  "sk_group cfg gi = do { p \<leftarrow> slice_get (sk_groups cfg) gi; p }"

definition sk_put :: "nat \<Rightarrow> group \<Rightarrow> ('v, 'w) sk_config \<Rightarrow> ('v, 'w) sk_config" where
  "sk_put gi gg cfg = cfg\<lparr>sk_groups := (sk_groups cfg)[gi := Some gg]\<rparr>"

text \<open>\<open>StartServer\<close> of \<open>server.go\<close>.\<close>

definition ShardKV_StartServer ::
  "string ClientEnd list \<Rightarrow> nat \<Rightarrow> nat \<Rightarrow> int \<Rightarrow> int \<Rightarrow> string ClientEnd list \<Rightarrow> ('v, 'w) sk_config \<Rightarrow>
   (('v, 'w) sk_config \<times> nat) option" where
  "ShardKV_StartServer servers me persister maxraftstate gid ctrlers cfg = do {
     rf \<leftarrow> Make (sk_persister_store cfg) servers me persister;
     let kv = \<lparr>kvs_me = me, kvs_rf = length (sk_raft_store cfg), kvs_gid = gid, kvs_ctrlers = ctrlers,
       kvs_maxraftstate = maxraftstate\<rparr>;
     Some (cfg\<lparr>sk_raft_store := sk_raft_store cfg @ [rf], sk_kv_store := sk_kv_store cfg @ [kv]\<rparr>,
           length (sk_kv_store cfg))
   }"

definition sk_kill_raft :: "nat \<Rightarrow> ('v, 'w) sk_config \<Rightarrow> ('v, 'w) sk_config option" where
  "sk_kill_raft r cfg = do {
     rf \<leftarrow> slice_get (sk_raft_store cfg) r;
     Some (cfg\<lparr>sk_raft_store := (sk_raft_store cfg)[r := Kill rf]\<rparr>)
   }"

definition ShardKV_Kill :: "nat \<Rightarrow> ('v, 'w) sk_config \<Rightarrow> ('v, 'w) sk_config option" where
  "ShardKV_Kill p cfg = do { kv \<leftarrow> slice_get (sk_kv_store cfg) p; sk_kill_raft (kvs_rf kv) cfg }"

section \<open>Names and end points\<close>

definition ctrlername :: "ctrler \<Rightarrow> nat \<Rightarrow> string option" where
  "ctrlername ctl i = slice_get (ct_names ctl) i"

definition servername :: "int \<Rightarrow> int \<Rightarrow> string" where
  "servername gid i = ''server-'' @ Itoa_int gid @ ''-'' @ Itoa_int i"

definition sk_make_end ::
  "(nat \<Rightarrow> string) \<Rightarrow> string \<Rightarrow> ('v, 'w) sk_config \<Rightarrow> go_error + ('v, 'w) sk_config \<times> string ClientEnd" where
  "sk_make_end rnd srv cfg =
     (let name = rnd (sk_drawn cfg) in
      res_bind (MakeEnd name (sk_net cfg)) (\<lambda>(rn, e).
        Inr (cfg\<lparr>sk_net := Enable name True (Connect name srv rn), sk_drawn := sk_drawn cfg + 1\<rparr>, e)))"

text \<open>The loop that makes an end point for each controller and stores its name in a slice of the given length.\<close>

definition sk_ctl_end ::
  "(nat \<Rightarrow> string) \<Rightarrow> ctrler \<Rightarrow> nat \<Rightarrow> ('v, 'w) sk_config \<times> string list \<times> string ClientEnd list \<Rightarrow>
   go_error + ('v, 'w) sk_config \<times> string list \<times> string ClientEnd list" where
  "sk_ctl_end rnd ctl j = (\<lambda>(cfg, names, ends).
     res_bind (panics (slice_set names j (rnd (sk_drawn cfg)))) (\<lambda>names'.
     res_bind (panics (ctrlername ctl j)) (\<lambda>srv.
     res_bind (sk_make_end rnd srv cfg) (\<lambda>(cfg', e). Inr (cfg', names', ends @ [e])))))"

definition sk_ctl_ends ::
  "(nat \<Rightarrow> string) \<Rightarrow> ctrler \<Rightarrow> nat \<Rightarrow> ('v, 'w) sk_config \<Rightarrow> go_error + ('v, 'w) sk_config \<times> string list \<times> string ClientEnd list" where
  "sk_ctl_ends rnd ctl len cfg = for_each_res (sk_ctl_end rnd ctl) [0..<ct_n ctl] (cfg, replicate len [], [])"

section \<open>Clerks\<close>

definition sk_makeClient ::
  "(nat \<Rightarrow> string) \<Rightarrow> ctrler \<Rightarrow> ('v, 'w) sk_config \<Rightarrow> go_error + ('v, 'w) sk_config \<times> nat" where
  "sk_makeClient rnd ctl cfg =
     res_bind (sk_ctl_ends rnd ctl (sk_n cfg) cfg) (\<lambda>(cfg1, endnames, ends).
       let ck = length (sk_clerk_store cfg1)
       in Inr (cfg1\<lparr>sk_clerk_store := sk_clerk_store cfg1 @ [MakeShardClerk ends],
            sk_clerks := (sk_clerks cfg1)(ck \<mapsto> endnames), sk_nextClientId := sk_nextClientId cfg1 + 1\<rparr>, ck))"

definition sk_deleteClient :: "nat \<Rightarrow> ('v, 'w) sk_config \<Rightarrow> ('v, 'w) sk_config" where
  "sk_deleteClient ck cfg = cfg\<lparr>sk_clerks := (sk_clerks cfg)(ck := None)\<rparr>"

section \<open>Starting and stopping servers\<close>

definition sk_copy_saved :: "nat \<Rightarrow> group \<Rightarrow> ('v, 'w) sk_config \<Rightarrow> (group \<times> ('v, 'w) sk_config) option" where
  "sk_copy_saved i gg cfg = do {
     p \<leftarrow> slice_get (gg_saved gg) i;
     (case p of
        None \<Rightarrow> Some (gg, cfg)
      | Some a \<Rightarrow> do {
          ps \<leftarrow> slice_get (sk_persister_store cfg) a;
          Some (gg\<lparr>gg_saved := (gg_saved gg)[i := Some (length (sk_persister_store cfg))]\<rparr>,
                cfg\<lparr>sk_persister_store := sk_persister_store cfg @ [Persister_Copy ps]\<rparr>)
        })
   }"

definition sk_stop :: "nat \<Rightarrow> group \<Rightarrow> ('v, 'w) sk_config \<Rightarrow> (group \<times> ('v, 'w) sk_config) option" where
  "sk_stop i gg cfg = do {
     kv \<leftarrow> slice_get (gg_servers gg) i;
     (case kv of
        None \<Rightarrow> Some (gg, cfg)
      | Some k \<Rightarrow> do { cfg1 \<leftarrow> ShardKV_Kill k cfg; Some (gg\<lparr>gg_servers := (gg_servers gg)[i := None]\<rparr>, cfg1) })
   }"

definition sk_ShutdownServer :: "nat \<Rightarrow> nat \<Rightarrow> ('v, 'w) sk_config \<Rightarrow> ('v, 'w) sk_config option" where
  "sk_ShutdownServer gi i cfg = do {
     gg \<leftarrow> sk_group cfg gi;
     rn1 \<leftarrow> switch_loop (\<lambda>e. Enable e False) (\<lambda>j. Some True)
       (\<lambda>j. do { names \<leftarrow> slice_get (gg_endnames gg) i; slice_get names j }) [0..<length (gg_servers gg)] (sk_net cfg);
     mnames \<leftarrow> slice_get (gg_mendnames gg) i;
     rn2 \<leftarrow> switch_loop (\<lambda>e. Enable e False) (\<lambda>j. Some True) (slice_get mnames) [0..<length mnames] rn1;
     let cfg1 = cfg\<lparr>sk_net := DeleteServer (servername (gg_gid gg) (int i)) rn2\<rparr>;
     (gg1, cfg2) \<leftarrow> sk_copy_saved i gg cfg1;
     (gg2, cfg3) \<leftarrow> sk_stop i gg1 cfg2;
     Some (sk_put gi gg2 cfg3)
   }"

definition sk_ShutdownGroup :: "nat \<Rightarrow> ('v, 'w) sk_config \<Rightarrow> ('v, 'w) sk_config option" where
  "sk_ShutdownGroup gi cfg = for_each (sk_ShutdownServer gi) [0..<sk_n cfg] cfg"

definition sk_fresh_saved :: "nat \<Rightarrow> group \<Rightarrow> ('v, 'w) sk_config \<Rightarrow> (group \<times> ('v, 'w) sk_config) option" where
  "sk_fresh_saved i gg cfg = do {
     p \<leftarrow> slice_get (gg_saved gg) i;
     ps \<leftarrow> (case p of
         Some a \<Rightarrow> do { ps \<leftarrow> slice_get (sk_persister_store cfg) a; Some (Persister_Copy ps) }
       | None \<Rightarrow> Some MakePersister);
     Some (gg\<lparr>gg_saved := (gg_saved gg)[i := Some (length (sk_persister_store cfg))]\<rparr>,
           cfg\<lparr>sk_persister_store := sk_persister_store cfg @ [ps]\<rparr>)
   }"

text \<open>What follows the creation of the end points \<open>ends\<close> and \<open>mends\<close>.\<close>

definition sk_launch ::
  "('v, 'w) Method list \<Rightarrow> ('v, 'w) Method list \<Rightarrow> string ClientEnd list \<Rightarrow> string ClientEnd list \<Rightarrow> nat \<Rightarrow> nat \<Rightarrow> group \<Rightarrow>
   ('v, 'w) sk_config \<Rightarrow> ('v, 'w) sk_config option" where
  "sk_launch kvtyp rftyp ends mends gi i gg cfg = do {
     (gg1, cfg1) \<leftarrow> sk_fresh_saved i gg cfg;
     p \<leftarrow> slice_get (gg_saved gg1) i;
     a \<leftarrow> p;
     (cfg2, k) \<leftarrow> ShardKV_StartServer ends i a (sk_maxraftstate cfg1) (gg_gid gg1) mends cfg1;
     servers \<leftarrow> slice_set (gg_servers gg1) i (Some k);
     let kvsvc = MakeService ''ShardKV'' kvtyp;
     let rfsvc = MakeService ''Raft'' rftyp;
     let srv = AddService (AddService MakeServer kvsvc) rfsvc;
     Some (sk_put gi (gg1\<lparr>gg_servers := servers\<rparr>) (cfg2\<lparr>sk_server_store := sk_server_store cfg2 @ [srv],
       sk_net := AddServer (servername (gg_gid gg1) (int i)) (Some (length (sk_server_store cfg2))) (sk_net cfg2)\<rparr>))
   }"

text \<open>The names of the end points within the group are drawn before the first of them is made.\<close>

definition sk_StartServer ::
  "('v, 'w) Method list \<Rightarrow> ('v, 'w) Method list \<Rightarrow> (nat \<Rightarrow> string) \<Rightarrow> nat \<Rightarrow> nat \<Rightarrow> ('v, 'w) sk_config \<Rightarrow>
   go_error + ('v, 'w) sk_config" where
  "sk_StartServer kvtyp rftyp rnd gi i cfg =
     res_bind (panics (sk_group cfg gi)) (\<lambda>gg.
     let names = map rnd [sk_drawn cfg..<sk_drawn cfg + sk_n cfg];
         cfg1 = cfg\<lparr>sk_drawn := sk_drawn cfg + sk_n cfg\<rparr> in
     res_bind (panics (slice_set (gg_endnames gg) i names)) (\<lambda>endnames.
     res_bind (make_ends True (map (\<lambda>j. (names ! j, servername (gg_gid gg) (int j))) [0..<sk_n cfg1]) (sk_net cfg1)) (\<lambda>(rn, ends).
     res_bind (panics (sk_ctl cfg1)) (\<lambda>ctl.
     res_bind (panics (slice_set (gg_mendnames gg) i (replicate (ct_n ctl) []))) (\<lambda>_.
     res_bind (sk_ctl_ends rnd ctl (ct_n ctl) (cfg1\<lparr>sk_net := rn\<rparr>)) (\<lambda>(cfg2, mnames, mends).
     panics (sk_launch kvtyp rftyp ends mends gi i
       (gg\<lparr>gg_endnames := endnames, gg_mendnames := (gg_mendnames gg)[i := mnames]\<rparr>) cfg2)))))))"

definition sk_StartGroup ::
  "('v, 'w) Method list \<Rightarrow> ('v, 'w) Method list \<Rightarrow> (nat \<Rightarrow> string) \<Rightarrow> nat \<Rightarrow> ('v, 'w) sk_config \<Rightarrow>
   go_error + ('v, 'w) sk_config" where
  "sk_StartGroup kvtyp rftyp rnd gi cfg = for_each_res (sk_StartServer kvtyp rftyp rnd gi) [0..<sk_n cfg] cfg"

section \<open>The shard controller\<close>

definition sk_StartCtrlerServer ::
  "('v, 'w) Method list \<Rightarrow> ('v, 'w) Method list \<Rightarrow> (nat \<Rightarrow> string) \<Rightarrow> nat \<Rightarrow> ctrler \<times> ('v, 'w) sk_config \<Rightarrow>
   go_error + ctrler \<times> ('v, 'w) sk_config" where
  "sk_StartCtrlerServer sctyp rftyp rnd i = (\<lambda>(ctl, cfg).
     res_bind (sk_ctl_ends rnd ctl (ct_n ctl) cfg) (\<lambda>(cfg1, _, ends).
     let p = length (sk_persister_store cfg1);
         cfg2 = cfg1\<lparr>sk_persister_store := sk_persister_store cfg1 @ [MakePersister]\<rparr> in
     panics (do {
       (rf, sc) \<leftarrow> Ctrler_new (sk_persister_store cfg2) ends i p (length (sk_raft_store cfg2));
       servers \<leftarrow> slice_set (ct_servers ctl) i (Some (length (sk_ctl_store cfg2)));
       let msvc = MakeService ''ShardCtrler'' sctyp;
       let rfsvc = MakeService ''Raft'' rftyp;
       let srv = AddService (AddService MakeServer msvc) rfsvc;
       name \<leftarrow> ctrlername ctl i;
       Some (ctl\<lparr>ct_servers := servers\<rparr>,
         cfg2\<lparr>sk_raft_store := sk_raft_store cfg2 @ [rf], sk_ctl_store := sk_ctl_store cfg2 @ [sc],
           sk_server_store := sk_server_store cfg2 @ [srv],
           sk_net := AddServer name (Some (length (sk_server_store cfg2))) (sk_net cfg2)\<rparr>)
     })))"

definition ctrlerclerk ::
  "(nat \<Rightarrow> string) \<Rightarrow> ctrler \<Rightarrow> ('v, 'w) sk_config \<Rightarrow> go_error + ('v, 'w) sk_config \<times> string CtrlClerk" where
  "ctrlerclerk rnd ctl cfg =
     res_bind (sk_ctl_ends rnd ctl (ct_n ctl) cfg) (\<lambda>(cfg1, _, ends). Inr (cfg1, MakeCtrlClerk ends))"

definition StartCtrlerService ::
  "('v, 'w) Method list \<Rightarrow> ('v, 'w) Method list \<Rightarrow> (nat \<Rightarrow> string) \<Rightarrow> ('v, 'w) sk_config \<Rightarrow>
   go_error + ctrler \<times> ('v, 'w) sk_config" where
  "StartCtrlerService sctyp rftyp rnd cfg =
     (let ctl = \<lparr>ct_n = 3, ct_servers = replicate 3 None,
          ct_names = map (\<lambda>k. ''ctlr-'' @ rnd k) [sk_drawn cfg..<sk_drawn cfg + 3], ct_ck = None\<rparr> in
      res_bind (for_each_res (sk_StartCtrlerServer sctyp rftyp rnd) [0..<ct_n ctl] (ctl, cfg\<lparr>sk_drawn := sk_drawn cfg + 3\<rparr>)) (\<lambda>(ctl1, cfg1).
      res_bind (ctrlerclerk rnd ctl1 cfg1) (\<lambda>(cfg2, ck). Inr (ctl1\<lparr>ct_ck := Some ck\<rparr>, cfg2))))"

text \<open>The argument of \<open>Join\<close>; a call of the clerk that never returns has the value \<open>Inr None\<close>.\<close>

definition join_args :: "nat list \<Rightarrow> ('v, 'w) sk_config \<Rightarrow> (int \<rightharpoonup> string list) option" where
  "join_args gis cfg = for_each (\<lambda>g m. do {
     gg \<leftarrow> sk_group cfg g;
     let servernames = map (\<lambda>i. servername (gg_gid gg) (int i)) [0..<sk_n cfg];
     Some (m(gg_gid gg \<mapsto> servernames))
   }) gis Map.empty"

definition sk_joinm ::
  "(JoinArgs \<Rightarrow> nat \<Rightarrow> nat \<Rightarrow> CtrlReply option) \<Rightarrow> nat list \<Rightarrow> ctrler \<Rightarrow> ('v, 'w) sk_config \<Rightarrow> go_error + unit option" where
  "sk_joinm call gis ctl cfg =
     res_bind (panics (join_args gis cfg)) (\<lambda>m.
     res_bind (panics (ct_ck ctl)) (\<lambda>ck. Inr (Ctrl_Join call (length (cc_servers ck)) m)))"

definition sk_join ::
  "(JoinArgs \<Rightarrow> nat \<Rightarrow> nat \<Rightarrow> CtrlReply option) \<Rightarrow> nat \<Rightarrow> ('v, 'w) sk_config \<Rightarrow> go_error + unit option" where
  "sk_join call gi cfg = res_bind (panics (sk_ctl cfg)) (\<lambda>ctl. sk_joinm call [gi] ctl cfg)"

definition ctljoin ::
  "(JoinArgs \<Rightarrow> nat \<Rightarrow> nat \<Rightarrow> CtrlReply option) \<Rightarrow> nat \<Rightarrow> ctrler \<Rightarrow> ('v, 'w) sk_config \<Rightarrow> go_error + unit option" where
  "ctljoin call gi ctl cfg = sk_joinm call [gi] ctl cfg"

definition leave_args :: "nat list \<Rightarrow> ('v, 'w) sk_config \<Rightarrow> int list option" where
  "leave_args gis cfg = for_each (\<lambda>g gids. do { gg \<leftarrow> sk_group cfg g; Some (gids @ [gg_gid gg]) }) gis []"

definition sk_leavem ::
  "(LeaveArgs \<Rightarrow> nat \<Rightarrow> nat \<Rightarrow> CtrlReply option) \<Rightarrow> nat list \<Rightarrow> ('v, 'w) sk_config \<Rightarrow> go_error + unit option" where
  "sk_leavem call gis cfg =
     res_bind (panics (leave_args gis cfg)) (\<lambda>gids.
     res_bind (panics (sk_ctl cfg)) (\<lambda>ctl.
     res_bind (panics (ct_ck ctl)) (\<lambda>ck. Inr (Ctrl_Leave call (length (cc_servers ck)) gids))))"

definition sk_leave ::
  "(LeaveArgs \<Rightarrow> nat \<Rightarrow> nat \<Rightarrow> CtrlReply option) \<Rightarrow> nat \<Rightarrow> ('v, 'w) sk_config \<Rightarrow> go_error + unit option" where
  "sk_leave call gi cfg = sk_leavem call [gi] cfg"

section \<open>The other operations\<close>

definition checklog :: "('v, 'w) sk_config \<Rightarrow> nat \<Rightarrow> nat \<Rightarrow> go_error + unit" where
  "checklog cfg gi i =
     res_bind (panics (do {
       gg \<leftarrow> sk_group cfg gi;
       p \<leftarrow> slice_get (gg_saved gg) i;
       a \<leftarrow> p;
       slice_get (sk_persister_store cfg) a
     })) (\<lambda>ps.
       let raft = RaftStateSize ps;
           snap = length (ReadSnapshot ps)
       in if sk_maxraftstate cfg \<ge> 0 \<and> int raft > 8 * sk_maxraftstate cfg then Inl TestFatal
          else if sk_maxraftstate cfg < 0 \<and> snap > 0 then Inl TestFatal
          else Inr ())"

definition checklogs :: "('v, 'w) sk_config \<Rightarrow> go_error + unit" where
  "checklogs cfg =
     for_each_res (\<lambda>gi _. for_each_res (\<lambda>i _. checklog cfg gi i) [0..<sk_n cfg] ()) [0..<sk_ngroups cfg] ()"

definition sk_kill_ctrler :: "nat \<Rightarrow> ('v, 'w) sk_config \<Rightarrow> ('v, 'w) sk_config option" where
  "sk_kill_ctrler i cfg = do {
     ctl \<leftarrow> sk_ctl cfg;
     p \<leftarrow> slice_get (ct_servers ctl) i;
     k \<leftarrow> p;
     sc \<leftarrow> slice_get (sk_ctl_store cfg) k;
     sk_kill_raft (sh_rf sc) cfg
   }"

definition sk_cleanup :: "bool \<Rightarrow> nat \<Rightarrow> ('v, 'w) sk_config \<Rightarrow> go_error + ('v, 'w) sk_config" where
  "sk_cleanup failed seconds cfg =
     res_bind (panics (for_each sk_ShutdownGroup [0..<sk_ngroups cfg] cfg)) (\<lambda>cfg1.
     res_bind (panics (sk_ctl cfg1)) (\<lambda>ctl.
     res_bind (panics (for_each sk_kill_ctrler [0..<ct_n ctl] cfg1)) (\<lambda>cfg2.
     res_bind (Cleanup (sk_net cfg2)) (\<lambda>rn.
     res_bind (checkTimeout failed seconds) (\<lambda>_. Inr (cfg2\<lparr>sk_net := rn\<rparr>))))))"

definition sk_new_group :: "nat \<Rightarrow> nat \<Rightarrow> nat \<Rightarrow> group" where
  "sk_new_group n ctln gi = \<lparr>gg_gid = 100 + int gi, gg_servers = replicate n None, gg_saved = replicate n None,
     gg_endnames = replicate n [], gg_mendnames = replicate ctln []\<rparr>"

definition sk_make_group ::
  "('v, 'w) Method list \<Rightarrow> ('v, 'w) Method list \<Rightarrow> (nat \<Rightarrow> string) \<Rightarrow> nat \<Rightarrow> ('v, 'w) sk_config \<Rightarrow>
   go_error + ('v, 'w) sk_config" where
  "sk_make_group kvtyp rftyp rnd gi cfg =
     res_bind (panics (sk_ctl cfg)) (\<lambda>ctl.
     for_each_res (sk_StartServer kvtyp rftyp rnd gi) [0..<sk_n cfg] (sk_put gi (sk_new_group (sk_n cfg) (ct_n ctl) gi) cfg))"

definition sk_make_config ::
  "('v, 'w) Method list \<Rightarrow> ('v, 'w) Method list \<Rightarrow> ('v, 'w) Method list \<Rightarrow> (nat \<Rightarrow> string) \<Rightarrow> nat \<Rightarrow> bool \<Rightarrow> int \<Rightarrow>
   go_error + ('v, 'w) sk_config" where
  "sk_make_config sctyp kvtyp rftyp rnd n unreliable maxraftstate =
     (let cfg = \<lparr>sk_net = MakeNetwork, sk_ctl = None, sk_ngroups = 0, sk_n = 0, sk_groups = [], sk_clerks = Map.empty,
          sk_nextClientId = 0, sk_maxraftstate = maxraftstate, sk_drawn = 0, sk_kv_store = [], sk_ctl_store = [],
          sk_raft_store = [], sk_persister_store = [], sk_server_store = [], sk_clerk_store = []\<rparr> in
      res_bind (StartCtrlerService sctyp rftyp rnd cfg) (\<lambda>(ctl, cfg1).
      res_bind (for_each_res (sk_make_group kvtyp rftyp rnd) [0..<3]
        (cfg1\<lparr>sk_ctl := Some ctl, sk_ngroups := 3, sk_groups := replicate 3 None, sk_n := n\<rparr>)) (\<lambda>cfg2.
      Inr (cfg2\<lparr>sk_clerks := Map.empty, sk_nextClientId := int n + 1000,
        sk_net := Reliable (\<not> unreliable) (sk_net cfg2)\<rparr>))))"

section \<open>Names\<close>

lemma servername_inj [simp]: "servername gid i = servername gid' i' \<longleftrightarrow> gid = gid' \<and> i = i'"
  using Itoa_int_prefix [of gid "Itoa_int i" gid' "Itoa_int i'"] by (auto simp: servername_def)

lemma servername_ctlr [simp]: "servername gid i \<noteq> ''ctlr-'' @ s"
  by (simp add: servername_def)

section \<open>End points of controllers\<close>

text \<open>The loop over controllers is \<open>make_ends\<close> with the next random names.\<close>

lemma sk_ctl_end_loop:
  assumes "j + k \<le> length names" and "j + k \<le> length (ct_names ctl)"
  shows "for_each_res (sk_ctl_end rnd ctl) [j..<j + k] (cfg, names, ends) =
     res_bind (make_ends True (zip (map rnd [sk_drawn cfg..<sk_drawn cfg + k]) (drop j (ct_names ctl))) (sk_net cfg)) (\<lambda>(rn, es).
       Inr (cfg\<lparr>sk_net := rn, sk_drawn := sk_drawn cfg + k\<rparr>,
         take j names @ map rnd [sk_drawn cfg..<sk_drawn cfg + k] @ drop (j + k) names, ends @ es))"
  using assms
proof (induction k arbitrary: j cfg names ends)
  case (Suc k)
  let ?d = "sk_drawn cfg" and ?cn = "ct_names ctl"
  let ?new = "[Suc ?d..<Suc ?d + k]"
  have ct: "drop j ?cn = ?cn ! j # drop (Suc j) ?cn" using Suc.prems by (simp add: Cons_nth_drop_Suc)
  have up: "[j..<j + Suc k] = j # [Suc j..<Suc j + k]" "[?d..<?d + Suc k] = ?d # ?new" by (simp_all add: upt_conv_Cons del: upt_Suc)
  have names: "take (Suc j) (names[j := v]) = take j names @ [v]" for v
    using Suc.prems by (simp add: take_Suc_conv_app_nth)
  show ?case
  proof (cases "MakeEnd (rnd ?d) (sk_net cfg)")
    case (Inl e)
    then show ?thesis unfolding up ct using Suc.prems
      by (simp add: sk_ctl_end_def sk_make_end_def ctrlername_def del: upt_Suc)
  next
    case (Inr p)
    obtain rn e where p: "p = (rn, e)" by force
    let ?rn = "Enable (rnd ?d) True (Connect (rnd ?d) (?cn ! j) rn)"
    let ?c = "cfg\<lparr>sk_net := ?rn, sk_drawn := Suc ?d\<rparr>"
    have IH: "for_each_res (sk_ctl_end rnd ctl) [Suc j..<Suc j + k] (?c, names[j := rnd ?d], ends @ [e]) =
      res_bind (make_ends True (zip (map rnd ?new) (drop (Suc j) ?cn)) ?rn) (\<lambda>(rn', es).
        Inr (cfg\<lparr>sk_net := rn', sk_drawn := ?d + Suc k\<rparr>, take j names @ rnd ?d # map rnd ?new @ drop (j + Suc k) names, ends @ e # es))"
      using Suc.IH [of "Suc j" "names[j := rnd ?d]" ?c "ends @ [e]"] Suc.prems by (simp add: names del: upt_Suc)
    have "sk_ctl_end rnd ctl j (cfg, names, ends) = Inr (?c, names[j := rnd ?d], ends @ [e])"
      using Suc.prems Inr p by (simp add: sk_ctl_end_def sk_make_end_def ctrlername_def Let_def)
    then show ?thesis unfolding up ct for_each_res.simps using Inr p IH
      by (cases "make_ends True (zip (map rnd ?new) (drop (Suc j) ?cn)) ?rn") (auto simp del: upt_Suc)
  qed
qed (simp add: res_bind_def)

text \<open>No string of the stream repeats and the network only knows names that were drawn.\<close>

definition sk_fresh :: "(nat \<Rightarrow> string) \<Rightarrow> ('v, 'w) sk_config \<Rightarrow> bool" where
  "sk_fresh rnd cfg \<longleftrightarrow> inj rnd \<and> dom (nt_ends (sk_net cfg)) \<subseteq> rnd ` {..<sk_drawn cfg}"

lemma sk_ctl_ends_eq:
  assumes "ct_n ctl = length (ct_names ctl)" and "ct_n ctl \<le> len"
  shows "sk_ctl_ends rnd ctl len cfg =
     res_bind (make_ends True (zip (map rnd [sk_drawn cfg..<sk_drawn cfg + ct_n ctl]) (ct_names ctl)) (sk_net cfg)) (\<lambda>(rn, es).
       Inr (cfg\<lparr>sk_net := rn, sk_drawn := sk_drawn cfg + ct_n ctl\<rparr>,
         map rnd [sk_drawn cfg..<sk_drawn cfg + ct_n ctl] @ replicate (len - ct_n ctl) [], es))"
  using sk_ctl_end_loop [of 0 "ct_n ctl" "replicate len []" ctl rnd cfg "[]"] assms by (simp add: sk_ctl_ends_def)

lemma make_ends_drawn:
  assumes "sk_fresh rnd cfg" and "length srvs = k"
  obtains rn es where "make_ends up (zip (map rnd [sk_drawn cfg..<sk_drawn cfg + k]) srvs) (sk_net cfg) = Inr (rn, es)"
    and "dom (nt_ends rn) \<subseteq> rnd ` {..<sk_drawn cfg + k}"
proof -
  let ?new = "map rnd [sk_drawn cfg..<sk_drawn cfg + k]"
  have inj: "inj rnd" and old: "dom (nt_ends (sk_net cfg)) \<subseteq> rnd ` {..<sk_drawn cfg}" using assms(1) by (simp_all add: sk_fresh_def)
  have fst: "map fst (zip ?new srvs) = ?new" using assms(2) by simp
  then have set: "fst ` set (zip ?new srvs) = rnd ` {sk_drawn cfg..<sk_drawn cfg + k}" by (metis list.set_map set_upt)
  have "distinct (map fst (zip ?new srvs))" unfolding fst using inj by (simp add: distinct_map inj_on_def inj_def)
  moreover have "\<forall>e \<in> fst ` set (zip ?new srvs). nt_ends (sk_net cfg) e = None"
  proof
    fix e assume "e \<in> fst ` set (zip ?new srvs)"
    then obtain a where a: "e = rnd a" "sk_drawn cfg \<le> a" unfolding set by auto
    have "e \<notin> rnd ` {..<sk_drawn cfg}" using a by (auto dest: injD [OF inj])
    with old show "nt_ends (sk_net cfg) e = None" by auto
  qed
  ultimately obtain rn es where mk: "make_ends up (zip ?new srvs) (sk_net cfg) = Inr (rn, es)" using make_ends_succeeds by blast
  have "dom (nt_ends rn) = dom (nt_ends (sk_net cfg)) \<union> fst ` set (zip ?new srvs)" using make_ends_ok [OF mk] by (elim conjE)
  then have "dom (nt_ends rn) \<subseteq> rnd ` {..<sk_drawn cfg + k}" unfolding set using old by fastforce
  with mk that show ?thesis by blast
qed

lemma sk_ctl_ends_runs:
  assumes "sk_fresh rnd cfg" and "ct_n ctl = length (ct_names ctl)" and "ct_n ctl \<le> len"
  obtains cfg' names ends where "sk_ctl_ends rnd ctl len cfg = Inr (cfg', names, ends)" and "sk_fresh rnd cfg'"
proof -
  obtain rn es where mk: "make_ends True (zip (map rnd [sk_drawn cfg..<sk_drawn cfg + ct_n ctl]) (ct_names ctl)) (sk_net cfg) = Inr (rn, es)"
    and dom: "dom (nt_ends rn) \<subseteq> rnd ` {..<sk_drawn cfg + ct_n ctl}"
    by (rule make_ends_drawn [OF assms(1), of "ct_names ctl" "ct_n ctl"]) (use assms(2) in auto)
  have "sk_ctl_ends rnd ctl len cfg = Inr (cfg\<lparr>sk_net := rn, sk_drawn := sk_drawn cfg + ct_n ctl\<rparr>,
      map rnd [sk_drawn cfg..<sk_drawn cfg + ct_n ctl] @ replicate (len - ct_n ctl) [], es)"
    by (subst sk_ctl_ends_eq [OF assms(2,3)]) (simp add: mk)
  with that show ?thesis using dom assms(1) by (simp add: sk_fresh_def)
qed

text \<open>A slice that is shorter than the number of controllers makes the loop panic.\<close>

lemma sk_ctl_ends_panics:
  assumes "sk_fresh rnd cfg" and "ct_n ctl = length (ct_names ctl)" and "len < ct_n ctl"
  shows "sk_ctl_ends rnd ctl len cfg = Inl GoPanic"
proof -
  let ?names = "take len (ct_names ctl)" and ?new = "map rnd [sk_drawn cfg..<sk_drawn cfg + len]"
  have zip: "zip ?new (ct_names ctl) = zip ?new ?names"
    by (metis diff_add_inverse length_map length_upt take_zip take_all_iff length_zip min.cobounded1 take_map order_refl)
  obtain rn es where "make_ends True (zip ?new ?names) (sk_net cfg) = Inr (rn, es)"
    by (rule make_ends_drawn [OF assms(1), of ?names len]) (use assms(2,3) in auto)
  then have run: "for_each_res (sk_ctl_end rnd ctl) [0..<len] (cfg, replicate len [], []) =
      Inr (cfg\<lparr>sk_net := rn, sk_drawn := sk_drawn cfg + len\<rparr>, ?new, es)"
    using sk_ctl_end_loop [of 0 len "replicate len []" ctl rnd cfg "[]"] assms(2,3) zip by simp
  have "[0..<ct_n ctl] = [0..<len] @ len # [Suc len..<ct_n ctl]"
    using assms(3) by (metis upt_add_eq_append upt_conv_Cons le_add_diff_inverse less_imp_le_nat zero_le)
  then show ?thesis using run by (simp add: sk_ctl_ends_def for_each_res_append sk_ctl_end_def slice_set_def)
qed

section \<open>Invariant\<close>

definition leads :: "string Network \<Rightarrow> string \<Rightarrow> string \<Rightarrow> bool" where
  "leads rn e s \<longleftrightarrow> e \<in> dom (nt_ends rn) \<and> nt_connections rn e = Some (Some s)"

definition sk_ctl_ok :: "ctrler \<Rightarrow> bool" where
  "sk_ctl_ok ctl \<longleftrightarrow> ct_n ctl = 3 \<and> length (ct_names ctl) = 3 \<and> (\<forall>name \<in> set (ct_names ctl). \<exists>s. name = ''ctlr-'' @ s)"

text \<open>
  A group: one element per server in each slice, valid pointers, and for the servers in \<open>X\<close> end points to the servers of
  the group and to the controllers.
\<close>

definition sk_names_ok :: "nat set \<Rightarrow> nat \<Rightarrow> string Network \<Rightarrow> ctrler \<Rightarrow> group \<Rightarrow> bool" where
  "sk_names_ok X n rn ctl gg \<longleftrightarrow>
     (\<forall>i \<in> X. i < n \<and> i < 3 \<and> length (gg_endnames gg ! i) = n \<and> length (gg_mendnames gg ! i) = 3 \<and>
        (\<forall>j < n. leads rn (gg_endnames gg ! i ! j) (servername (gg_gid gg) (int j))) \<and>
        (\<forall>j < 3. leads rn (gg_mendnames gg ! i ! j) (ct_names ctl ! j)))"

definition sk_group_ok :: "nat set \<Rightarrow> ('v, 'w) sk_config \<Rightarrow> ctrler \<Rightarrow> nat \<Rightarrow> group \<Rightarrow> bool" where
  "sk_group_ok X cfg ctl gi gg \<longleftrightarrow> gg_gid gg = 100 + int gi \<and> length (gg_servers gg) = sk_n cfg \<and> length (gg_saved gg) = sk_n cfg \<and>
     length (gg_endnames gg) = sk_n cfg \<and> length (gg_mendnames gg) = 3 \<and>
     (\<forall>k. Some k \<in> set (gg_servers gg) \<longrightarrow> k < length (sk_kv_store cfg)) \<and>
     saved_ok (gg_saved gg) (sk_persister_store cfg) \<and> sk_names_ok X (sk_n cfg) (sk_net cfg) ctl gg"

text \<open>Server \<open>i\<close> of group \<open>gi\<close> is registered with the network exactly when it runs.\<close>

definition sk_running :: "('v, 'w) sk_config \<Rightarrow> nat \<Rightarrow> nat \<Rightarrow> bool" where
  "sk_running cfg gi i \<longleftrightarrow> (\<exists>gg. sk_group cfg gi = Some gg \<and> gg_servers gg ! i \<noteq> None)"

definition sk_inv :: "(nat \<Rightarrow> nat set) \<Rightarrow> ('v, 'w) sk_config \<Rightarrow> bool" where
  "sk_inv X cfg \<longleftrightarrow> (\<exists>ctl. sk_ctl cfg = Some ctl \<and> sk_ctl_ok ctl \<and>
       (\<forall>gi < 3. case sk_groups cfg ! gi of None \<Rightarrow> X gi = {} | Some gg \<Rightarrow> sk_group_ok (X gi) cfg ctl gi gg)) \<and>
     length (sk_groups cfg) = 3 \<and> sk_ngroups cfg = 3 \<and> (\<forall>kv \<in> set (sk_kv_store cfg). kvs_rf kv < length (sk_raft_store cfg)) \<and>
     (\<forall>gi < 3. \<forall>i < sk_n cfg.
        map_read None (nt_servers (sk_net cfg)) (servername (100 + int gi) (int i)) \<noteq> None \<longleftrightarrow> sk_running cfg gi i)"

text \<open>An extension of the state keeps what the invariant says about a group.\<close>

definition sk_grows :: "('v, 'w) sk_config \<Rightarrow> ('v, 'w) sk_config \<Rightarrow> bool" where
  "sk_grows cfg cfg' \<longleftrightarrow> sk_n cfg' = sk_n cfg \<and> sk_ctl cfg' = sk_ctl cfg \<and> sk_ngroups cfg' = sk_ngroups cfg \<and>
     length (sk_kv_store cfg) \<le> length (sk_kv_store cfg') \<and>
     length (sk_persister_store cfg) \<le> length (sk_persister_store cfg') \<and>
     (\<forall>e s. leads (sk_net cfg) e s \<longrightarrow> leads (sk_net cfg') e s)"

lemma sk_group_ok_grows: "sk_grows cfg cfg' \<Longrightarrow> sk_group_ok X cfg ctl gi gg \<Longrightarrow> sk_group_ok X cfg' ctl gi gg"
  unfolding sk_group_ok_def sk_names_ok_def saved_ok_def sk_grows_def by (auto intro: order_less_le_trans)

lemma leads_simps [simp]:
  "leads (Enable e b rn) = leads rn" "leads (AddServer s p rn) = leads rn" "leads (DeleteServer s rn) = leads rn"
  "leads (Reliable b rn) = leads rn"
  by (simp_all add: fun_eq_iff leads_def Enable_def AddServer_def DeleteServer_def Reliable_def)

lemma leads_rest: "net_rest rn' = net_rest rn \<Longrightarrow> leads rn' = leads rn"
  by (intro ext) (simp add: leads_def net_rest_eqD(1,2) [of rn' rn])

lemma leads_make_ends:
  assumes "make_ends up ps rn = Inr (rn', es)"
  shows "leads rn e s \<Longrightarrow> leads rn' e s" and "(e, s) \<in> set ps \<Longrightarrow> leads rn' e s"
  using make_ends_keep [OF assms, of e] make_ends_new [OF assms, of e s] by (simp_all add: leads_def)

text \<open>One group changes.\<close>

lemma sk_inv_put:
  assumes inv: "sk_inv X cfg" and grows: "sk_grows cfg cfg'" and gi: "gi < 3"
    and groups: "sk_groups cfg' = (sk_groups cfg)[gi := Some gg']"
    and gg': "\<And>ctl. sk_ctl cfg = Some ctl \<Longrightarrow> sk_ctl_ok ctl \<Longrightarrow> sk_group_ok Y cfg' ctl gi gg'"
    and rafts: "\<forall>kv \<in> set (sk_kv_store cfg'). kvs_rf kv < length (sk_raft_store cfg')"
    and run: "\<And>g i. g < 3 \<Longrightarrow> i < sk_n cfg \<Longrightarrow>
      map_read None (nt_servers (sk_net cfg')) (servername (100 + int g) (int i)) \<noteq> None \<longleftrightarrow> sk_running cfg' g i"
  shows "sk_inv (X(gi := Y)) cfg'"
proof -
  from inv obtain ctl where ctl: "sk_ctl cfg = Some ctl" "sk_ctl_ok ctl"
    and old: "\<And>g. g < 3 \<Longrightarrow> case sk_groups cfg ! g of None \<Rightarrow> X g = {} | Some gg \<Rightarrow> sk_group_ok (X g) cfg ctl g gg"
    and len: "length (sk_groups cfg) = 3" "sk_ngroups cfg = 3" unfolding sk_inv_def by blast
  have eq: "sk_ctl cfg' = sk_ctl cfg" "sk_n cfg' = sk_n cfg" "sk_ngroups cfg' = sk_ngroups cfg" using grows by (simp_all add: sk_grows_def)
  have "case sk_groups cfg' ! g of None \<Rightarrow> (X(gi := Y)) g = {} | Some gg \<Rightarrow> sk_group_ok ((X(gi := Y)) g) cfg' ctl g gg" if "g < 3" for g
    using old [OF that] gg' [OF ctl] groups len gi that
    by (cases "g = gi") (auto split: option.splits intro: sk_group_ok_grows [OF grows])
  with ctl len rafts run show ?thesis unfolding sk_inv_def eq by (auto simp: groups)
qed

lemma sk_groupD:
  assumes "sk_group cfg gi = Some gg"
  shows "gi < length (sk_groups cfg)" and "sk_groups cfg ! gi = Some gg"
  using assms by (auto simp: sk_group_def bind_eq_Some_conv slice_get_eq_Some_iff)

lemma sk_inv_group:
  assumes "sk_inv X cfg" and "sk_group cfg gi = Some gg"
  obtains ctl where "gi < 3" and "sk_ctl cfg = Some ctl" and "sk_ctl_ok ctl" and "sk_group_ok (X gi) cfg ctl gi gg"
proof -
  from assms(1) obtain ctl where ctl: "sk_ctl cfg = Some ctl" "sk_ctl_ok ctl" "length (sk_groups cfg) = 3"
    and old: "\<And>g. g < 3 \<Longrightarrow> case sk_groups cfg ! g of None \<Rightarrow> X g = {} | Some gg \<Rightarrow> sk_group_ok (X g) cfg ctl g gg"
    unfolding sk_inv_def by blast
  with sk_groupD [OF assms(2)] that show ?thesis using old [of gi] by simp
qed

text \<open>The registrations after the state of server \<open>i\<close> of group \<open>gi\<close> has changed.\<close>

lemma sk_running_put:
  assumes inv: "sk_inv X cfg" and gg: "sk_group cfg gi = Some gg" and i: "i < sk_n cfg"
    and groups: "sk_groups cfg' = (sk_groups cfg)[gi := Some gg']" and servers: "gg_servers gg' = (gg_servers gg)[i := v]"
    and net: "nt_servers (sk_net cfg') = (nt_servers (sk_net cfg))(servername (100 + int gi) (int i) \<mapsto> p)"
    and eq: "p \<noteq> None \<longleftrightarrow> v \<noteq> None" and g: "g < 3" "j < sk_n cfg"
  shows "map_read None (nt_servers (sk_net cfg')) (servername (100 + int g) (int j)) \<noteq> None \<longleftrightarrow> sk_running cfg' g j"
proof -
  obtain ctl where gi: "gi < 3" and ok: "sk_group_ok (X gi) cfg ctl gi gg" by (rule sk_inv_group [OF inv gg])
  have len: "length (sk_groups cfg) = 3" "length (gg_servers gg) = sk_n cfg"
    using inv ok by (simp_all add: sk_inv_def sk_group_ok_def)
  have old: "map_read None (nt_servers (sk_net cfg)) (servername (100 + int g) (int j)) \<noteq> None \<longleftrightarrow> sk_running cfg g j"
    using inv g unfolding sk_inv_def by blast
  have "sk_group cfg' g = (if g = gi then Some gg' else sk_group cfg g)"
    using len(1) g(1) gi by (simp add: sk_group_def groups)
  then have "sk_running cfg' g j \<longleftrightarrow> (if g = gi \<and> j = i then v \<noteq> None else sk_running cfg g j)"
    using len(2) g(2) i gg by (auto simp: sk_running_def servers)
  with old eq show ?thesis unfolding net by auto
qed

section \<open>Starting a server\<close>

text \<open>What \<open>sk_launch\<close> does to the state, with the persister \<open>ps\<close> and the instance \<open>kv\<close> that it makes.\<close>

lemma sk_launch_form:
  assumes "sk_launch kvtyp rftyp ends mends gi i gg cfg = Some cfg'"
  obtains ps rf kv srv where "i < length (gg_saved gg)" and "i < length (gg_servers gg)"
    and "Some (ReadRaftState ps, ReadSnapshot ps) =
      (case saved_content (gg_saved gg) (sk_persister_store cfg) i of None \<Rightarrow> Some ([], []) | Some c \<Rightarrow> Some c)"
    and "kvs_rf kv = length (sk_raft_store cfg)" and "rf_persister rf = length (sk_persister_store cfg)"
    and "cfg' = sk_put gi (gg\<lparr>gg_saved := (gg_saved gg)[i := Some (length (sk_persister_store cfg))],
          gg_servers := (gg_servers gg)[i := Some (length (sk_kv_store cfg))]\<rparr>)
        (cfg\<lparr>sk_persister_store := sk_persister_store cfg @ [ps], sk_raft_store := sk_raft_store cfg @ [rf],
          sk_kv_store := sk_kv_store cfg @ [kv], sk_server_store := sk_server_store cfg @ [srv],
          sk_net := AddServer (servername (gg_gid gg) (int i)) (Some (length (sk_server_store cfg))) (sk_net cfg)\<rparr>)"
proof -
  from assms obtain gg1 cfg1 where fs: "sk_fresh_saved i gg cfg = Some (gg1, cfg1)"
    by (auto simp: sk_launch_def bind_eq_Some_conv)
  from fs obtain p ps where p: "slice_get (gg_saved gg) i = Some p"
    and new: "(case p of Some a \<Rightarrow> do { ps \<leftarrow> slice_get (sk_persister_store cfg) a; Some (Persister_Copy ps) } | None \<Rightarrow> Some MakePersister) = Some ps"
    and gg1: "gg1 = gg\<lparr>gg_saved := (gg_saved gg)[i := Some (length (sk_persister_store cfg))]\<rparr>"
    and cfg1: "cfg1 = cfg\<lparr>sk_persister_store := sk_persister_store cfg @ [ps]\<rparr>"
    by (auto simp: sk_fresh_saved_def bind_eq_Some_conv)
  have i: "i < length (gg_saved gg)" using p by (simp add: slice_get_eq_Some_iff)
  have ps: "Some (ReadRaftState ps, ReadSnapshot ps) =
      (case saved_content (gg_saved gg) (sk_persister_store cfg) i of None \<Rightarrow> Some ([], []) | Some c \<Rightarrow> Some c)"
    using p new by (cases p) (auto simp: saved_content_def bind_eq_Some_conv MakePersister_def ReadRaftState_def ReadSnapshot_def Persister_Copy_def)
  from assms fs i have "i < length (gg_servers gg)" and "\<exists>rf kv srv. kvs_rf kv = length (sk_raft_store cfg) \<and>
      rf_persister rf = length (sk_persister_store cfg) \<and>
      cfg' = sk_put gi (gg\<lparr>gg_saved := (gg_saved gg)[i := Some (length (sk_persister_store cfg))],
          gg_servers := (gg_servers gg)[i := Some (length (sk_kv_store cfg))]\<rparr>)
        (cfg\<lparr>sk_persister_store := sk_persister_store cfg @ [ps], sk_raft_store := sk_raft_store cfg @ [rf],
          sk_kv_store := sk_kv_store cfg @ [kv], sk_server_store := sk_server_store cfg @ [srv],
          sk_net := AddServer (servername (gg_gid gg) (int i)) (Some (length (sk_server_store cfg))) (sk_net cfg)\<rparr>)"
    by (auto simp: sk_launch_def gg1 cfg1 ShardKV_StartServer_def Make_def readPersist_def bind_eq_Some_conv Let_def
        slice_get_eq_Some_iff slice_set_eq_Some_iff intro!: exI)
  with i ps that show ?thesis by blast
qed

definition sk_content :: "('v, 'w) sk_config \<Rightarrow> nat \<Rightarrow> nat \<Rightarrow> (bytes \<times> bytes) option" where
  "sk_content cfg gi i = do { gg \<leftarrow> sk_group cfg gi; saved_content (gg_saved gg) (sk_persister_store cfg) i }"

lemma sk_group_put:
  "sk_group (sk_put gi gg cfg) g = (if g = gi \<and> gi < length (sk_groups cfg) then Some gg else sk_group cfg g)"
  by (auto simp: sk_group_def sk_put_def slice_get_def nth_list_update)

text \<open>The steps of \<open>StartServer\<close> up to the launch.\<close>

lemma sk_Start_form:
  assumes "sk_StartServer kvtyp rftyp rnd gi i cfg = Inr cfg'" and "sk_inv X cfg"
  obtains gg ctl rn rn' ends mends where "sk_group cfg gi = Some gg" and "gi < 3" and "i < sk_n cfg" and "i < 3"
    and "sk_ctl cfg = Some ctl" and "sk_ctl_ok ctl" and "sk_group_ok (X gi) cfg ctl gi gg"
    and "make_ends True (map (\<lambda>j. (map rnd [sk_drawn cfg..<sk_drawn cfg + sk_n cfg] ! j, servername (gg_gid gg) (int j)))
      [0..<sk_n cfg]) (sk_net cfg) = Inr (rn, ends)"
    and "make_ends True (zip (map rnd [sk_drawn cfg + sk_n cfg..<sk_drawn cfg + sk_n cfg + 3]) (ct_names ctl)) rn = Inr (rn', mends)"
    and "sk_launch kvtyp rftyp ends mends gi i
      (gg\<lparr>gg_endnames := (gg_endnames gg)[i := map rnd [sk_drawn cfg..<sk_drawn cfg + sk_n cfg]],
          gg_mendnames := (gg_mendnames gg)[i := map rnd [sk_drawn cfg + sk_n cfg..<sk_drawn cfg + sk_n cfg + 3]]\<rparr>)
      (cfg\<lparr>sk_net := rn', sk_drawn := sk_drawn cfg + sk_n cfg + 3\<rparr>) = Some cfg'"
proof -
  from assms(1) obtain gg where gg: "sk_group cfg gi = Some gg" by (auto simp: sk_StartServer_def res_bind_Inr_iff panics_Inr_iff)
  obtain ctl where gi: "gi < 3" and ctl: "sk_ctl cfg = Some ctl" "sk_ctl_ok ctl" and ok: "sk_group_ok (X gi) cfg ctl gi gg"
    by (rule sk_inv_group [OF assms(2) gg])
  let ?d = "sk_drawn cfg" and ?n = "sk_n cfg"
  let ?names = "map rnd [?d..<?d + ?n]"
  from assms(1) gg ctl obtain rn ends cfg2 mnames mends
    where i: "i < length (gg_endnames gg)" "i < length (gg_mendnames gg)"
      and mk: "make_ends True (map (\<lambda>j. (?names ! j, servername (gg_gid gg) (int j))) [0..<?n]) (sk_net cfg) = Inr (rn, ends)"
      and ce: "sk_ctl_ends rnd ctl (ct_n ctl) (cfg\<lparr>sk_drawn := ?d + ?n, sk_net := rn\<rparr>) = Inr (cfg2, mnames, mends)"
      and l: "sk_launch kvtyp rftyp ends mends gi i
        (gg\<lparr>gg_endnames := (gg_endnames gg)[i := ?names], gg_mendnames := (gg_mendnames gg)[i := mnames]\<rparr>) cfg2 = Some cfg'"
    by (auto simp: sk_StartServer_def res_bind_Inr_iff panics_Inr_iff slice_set_eq_Some_iff Let_def)
  have three: "ct_n ctl = 3" "length (ct_names ctl) = 3" using ctl(2) by (simp_all add: sk_ctl_ok_def)
  from ce obtain rn' where mk': "make_ends True (zip (map rnd [?d + ?n..<?d + ?n + 3]) (ct_names ctl)) rn = Inr (rn', mends)"
    and c2: "cfg2 = cfg\<lparr>sk_net := rn', sk_drawn := ?d + ?n + 3\<rparr>" "mnames = map rnd [?d + ?n..<?d + ?n + 3]"
    by (auto simp: sk_ctl_ends_eq three res_bind_Inr_iff simp del: upt_Suc)
  have "i < ?n" "i < 3" using i ok by (simp_all add: sk_group_ok_def)
  with that [OF gg gi _ _ ctl ok mk mk'] l show ?thesis by (simp add: c2 del: upt_Suc)
qed

lemma sk_Start_ok:
  assumes "sk_StartServer kvtyp rftyp rnd gi i cfg = Inr cfg'" and "sk_inv X cfg"
  shows "gi < 3" and "i < sk_n cfg" and "i < 3" and "sk_n cfg' = sk_n cfg" and "sk_running cfg' gi i"
    and "sk_inv (X(gi := insert i (X gi))) cfg'"
    and "sk_content cfg' gi i = (case sk_content cfg gi i of None \<Rightarrow> Some ([], []) | Some c \<Rightarrow> Some c)"
proof -
  let ?d = "sk_drawn cfg" and ?n = "sk_n cfg"
  let ?names = "map rnd [?d..<?d + ?n]" and ?mnames = "map rnd [?d + ?n..<?d + ?n + 3]"
  obtain gg ctl rn rn' ends mends where gg: "sk_group cfg gi = Some gg" and gi: "gi < 3" and i: "i < ?n" "i < 3"
    and ctl: "sk_ctl cfg = Some ctl" "sk_ctl_ok ctl" and ok: "sk_group_ok (X gi) cfg ctl gi gg"
    and mk: "make_ends True (map (\<lambda>j. (?names ! j, servername (gg_gid gg) (int j))) [0..<?n]) (sk_net cfg) = Inr (rn, ends)"
    and mk': "make_ends True (zip ?mnames (ct_names ctl)) rn = Inr (rn', mends)"
    and l: "sk_launch kvtyp rftyp ends mends gi i
      (gg\<lparr>gg_endnames := (gg_endnames gg)[i := ?names], gg_mendnames := (gg_mendnames gg)[i := ?mnames]\<rparr>)
      (cfg\<lparr>sk_net := rn', sk_drawn := ?d + ?n + 3\<rparr>) = Some cfg'" by (rule sk_Start_form [OF assms])
  show "gi < 3" "i < ?n" "i < 3" by fact+
  let ?g = "gg\<lparr>gg_endnames := (gg_endnames gg)[i := ?names], gg_mendnames := (gg_mendnames gg)[i := ?mnames]\<rparr>"
  obtain ps rf kv srv where ps: "Some (ReadRaftState ps, ReadSnapshot ps) =
      (case saved_content (gg_saved gg) (sk_persister_store cfg) i of None \<Rightarrow> Some ([], []) | Some c \<Rightarrow> Some c)"
    and kv: "kvs_rf kv = length (sk_raft_store cfg)"
    and c': "cfg' = sk_put gi (?g\<lparr>gg_saved := (gg_saved gg)[i := Some (length (sk_persister_store cfg))],
          gg_servers := (gg_servers gg)[i := Some (length (sk_kv_store cfg))]\<rparr>)
        (cfg\<lparr>sk_drawn := ?d + ?n + 3,
          sk_persister_store := sk_persister_store cfg @ [ps], sk_raft_store := sk_raft_store cfg @ [rf],
          sk_kv_store := sk_kv_store cfg @ [kv], sk_server_store := sk_server_store cfg @ [srv],
          sk_net := AddServer (servername (gg_gid gg) (int i)) (Some (length (sk_server_store cfg))) rn'\<rparr>)"
    by (rule sk_launch_form [OF l]) simp
  let ?gg' = "?g\<lparr>gg_saved := (gg_saved gg)[i := Some (length (sk_persister_store cfg))],
      gg_servers := (gg_servers gg)[i := Some (length (sk_kv_store cfg))]\<rparr>"
  have sel: "sk_n cfg' = ?n" "sk_groups cfg' = (sk_groups cfg)[gi := Some ?gg']" "sk_kv_store cfg' = sk_kv_store cfg @ [kv]"
    "sk_persister_store cfg' = sk_persister_store cfg @ [ps]" "sk_raft_store cfg' = sk_raft_store cfg @ [rf]"
    "sk_net cfg' = AddServer (servername (gg_gid gg) (int i)) (Some (length (sk_server_store cfg))) rn'" by (simp_all add: c' sk_put_def)
  show "sk_n cfg' = ?n" by (rule sel)
  have keep: "leads rn' e s" if "leads (sk_net cfg) e s" for e s
    using leads_make_ends(1) [OF mk'] leads_make_ends(1) [OF mk] that by blast
  have grows: "sk_grows cfg cfg'" using keep by (auto simp: sk_grows_def sel c' sk_put_def)
  have len: "length (gg_servers gg) = ?n" "length (gg_endnames gg) = ?n" "length (gg_mendnames gg) = 3" "gg_gid gg = 100 + int gi"
    "length (ct_names ctl) = 3" "length (gg_saved gg) = ?n" "saved_ok (gg_saved gg) (sk_persister_store cfg)"
    using ok ctl(2) by (simp_all add: sk_group_ok_def sk_ctl_ok_def)
  have new: "leads rn' (?names ! j) (servername (gg_gid gg) (int j))" if "j < ?n" for j
    by (rule leads_make_ends(1) [OF mk'], rule leads_make_ends(2) [OF mk]) (use that in auto)
  have new': "leads rn' (?mnames ! j) (ct_names ctl ! j)" if "j < 3" for j
    by (rule leads_make_ends(2) [OF mk']) (use that len(5) in \<open>auto simp: set_zip intro!: exI [of _ j] simp del: upt_Suc\<close>)
  have servers: "k < Suc (length (sk_kv_store cfg))" if "Some k \<in> set (gg_servers ?gg')" for k
    using that ok set_update_subset_insert [of "gg_servers gg" i "Some (length (sk_kv_store cfg))"]
    by (auto simp: sk_group_ok_def less_Suc_eq)
  have gg': "sk_group_ok (insert i (X gi)) cfg' ctl gi ?gg'"
    using ok len i keep new new' servers
    by (auto simp: sk_group_ok_def sk_names_ok_def sel nth_list_update simp del: upt_Suc)
  have run: "map_read None (nt_servers (sk_net cfg')) (servername (100 + int g) (int j)) \<noteq> None \<longleftrightarrow> sk_running cfg' g j"
    if "g < 3" "j < ?n" for g j
    by (rule sk_running_put [OF assms(2) gg i(1) sel(2) _ _ _ that, where v = "Some (length (sk_kv_store cfg))" and
        p = "Some (length (sk_server_store cfg))"]) (simp_all add: sel(6) len(4) AddServer_def make_ends_servers [OF mk'] make_ends_servers [OF mk])
  have rafts: "\<forall>kv \<in> set (sk_kv_store cfg'). kvs_rf kv < length (sk_raft_store cfg')"
    using assms(2) kv by (auto simp: sel sk_inv_def)
  show "sk_inv (X(gi := insert i (X gi))) cfg'"
    by (rule sk_inv_put [OF assms(2) grows gi sel(2) _ rafts run]) (use gg' ctl in auto)
  have group: "sk_group cfg' gi = Some ?gg'" using assms(2) gi by (simp add: sk_group_def sel sk_inv_def)
  then show "sk_running cfg' gi i" using i len(1) by (simp add: sk_running_def)
  show "sk_content cfg' gi i = (case sk_content cfg gi i of None \<Rightarrow> Some ([], []) | Some c \<Rightarrow> Some c)"
    using ps gg i len(6,7) by (simp add: sk_content_def group sel saved_content_new)
qed

text \<open>It succeeds when the names are new and the group has room for the server.\<close>

lemma sk_Start_runs:
  assumes "sk_inv X cfg" and "sk_fresh rnd cfg" and "sk_group cfg gi = Some gg" and "i < sk_n cfg" and "i < 3"
  shows "\<exists>cfg'. sk_StartServer kvtyp rftyp rnd gi i cfg = Inr cfg' \<and> sk_fresh rnd cfg'"
proof -
  let ?d = "sk_drawn cfg" and ?n = "sk_n cfg"
  let ?names = "map rnd [?d..<?d + ?n]"
  obtain ctl where gi: "gi < 3" and ctl: "sk_ctl cfg = Some ctl" "sk_ctl_ok ctl" and ok: "sk_group_ok (X gi) cfg ctl gi gg"
    by (rule sk_inv_group [OF assms(1,3)])
  have zip: "map (\<lambda>j. (?names ! j, servername (gg_gid gg) (int j))) [0..<?n] = zip ?names (map (\<lambda>j. servername (gg_gid gg) (int j)) [0..<?n])"
    by (rule nth_equalityI) simp_all
  obtain rn ends where mk: "make_ends True (map (\<lambda>j. (?names ! j, servername (gg_gid gg) (int j))) [0..<?n]) (sk_net cfg) = Inr (rn, ends)"
    and dom: "dom (nt_ends rn) \<subseteq> rnd ` {..<?d + ?n}"
    unfolding zip by (rule make_ends_drawn [OF assms(2), of _ ?n]) auto
  let ?c1 = "cfg\<lparr>sk_drawn := ?d + ?n, sk_net := rn\<rparr>"
  have fresh1: "sk_fresh rnd ?c1" using assms(2) dom by (simp add: sk_fresh_def)
  have three: "ct_n ctl = length (ct_names ctl)" using ctl(2) by (simp add: sk_ctl_ok_def)
  obtain c2 mnames mends where ce: "sk_ctl_ends rnd ctl (ct_n ctl) ?c1 = Inr (c2, mnames, mends)" and fresh2: "sk_fresh rnd c2"
    by (rule sk_ctl_ends_runs [OF fresh1 three order_refl])
  then have c2: "sk_persister_store c2 = sk_persister_store cfg" "sk_raft_store c2 = sk_raft_store cfg" "sk_kv_store c2 = sk_kv_store cfg"
    by (auto simp: sk_ctl_ends_eq three res_bind_Inr_iff)
  have len: "length (gg_servers gg) = ?n" "length (gg_saved gg) = ?n" "length (gg_endnames gg) = ?n" "length (gg_mendnames gg) = 3"
    "saved_ok (gg_saved gg) (sk_persister_store cfg)" using ok by (simp_all add: sk_group_ok_def)
  let ?g = "gg\<lparr>gg_endnames := (gg_endnames gg)[i := ?names], gg_mendnames := (gg_mendnames gg)[i := mnames]\<rparr>"
  obtain ps where "sk_fresh_saved i ?g c2 = Some (?g\<lparr>gg_saved := (gg_saved gg)[i := Some (length (sk_persister_store cfg))]\<rparr>,
      c2\<lparr>sk_persister_store := sk_persister_store cfg @ [ps]\<rparr>)"
    using assms(4) len saved_ok_get [OF len(5), of i] by (cases "gg_saved gg ! i") (auto simp: sk_fresh_saved_def c2)
  then obtain cfg' where l: "sk_launch kvtyp rftyp ends mends gi i ?g c2 = Some cfg'"
    using assms(4) len by (auto simp: sk_launch_def ShardKV_StartServer_def Make_def c2 Let_def)
  have "sk_StartServer kvtyp rftyp rnd gi i cfg = Inr cfg'"
    using assms(3,4,5) ctl(1) len mk ce l by (simp add: sk_StartServer_def)
  moreover have "sk_fresh rnd cfg'" by (rule sk_launch_form [OF l]) (use fresh2 in \<open>simp add: sk_fresh_def sk_put_def AddServer_def\<close>)
  ultimately show ?thesis by blast
qed

section \<open>Stopping a server\<close>

lemma sk_copy_saved_form:
  assumes "sk_copy_saved i gg cfg = Some (gg', cfg')" and "saved_ok (gg_saved gg) (sk_persister_store cfg)"
  obtains saved store where "gg' = gg\<lparr>gg_saved := saved\<rparr>" and "cfg' = cfg\<lparr>sk_persister_store := store\<rparr>"
    and "i < length (gg_saved gg)" and "length saved = length (gg_saved gg)" and "saved_ok saved store"
    and "length (sk_persister_store cfg) \<le> length store"
    and "\<And>k. k < length (gg_saved gg) \<Longrightarrow> saved_content saved store k = saved_content (gg_saved gg) (sk_persister_store cfg) k"
proof -
  from assms(1) obtain p where p: "slice_get (gg_saved gg) i = Some p" by (auto simp: sk_copy_saved_def bind_eq_Some_conv)
  then have i: "i < length (gg_saved gg)" "gg_saved gg ! i = p" by (auto simp: slice_get_eq_Some_iff)
  show ?thesis
  proof (cases p)
    case None
    with assms p i that [of "gg_saved gg" "sk_persister_store cfg"] show ?thesis by (simp add: sk_copy_saved_def)
  next
    case (Some a)
    with assms(1) p obtain ps where ps: "slice_get (sk_persister_store cfg) a = Some ps"
      and c: "gg' = gg\<lparr>gg_saved := (gg_saved gg)[i := Some (length (sk_persister_store cfg))]\<rparr>"
        "cfg' = cfg\<lparr>sk_persister_store := sk_persister_store cfg @ [Persister_Copy ps]\<rparr>"
      by (auto simp: sk_copy_saved_def bind_eq_Some_conv)
    have "saved_content (gg_saved gg) (sk_persister_store cfg) i = Some (ReadRaftState ps, ReadSnapshot ps)"
      using i Some ps by (simp add: saved_content_def)
    then show ?thesis using i assms(2)
      by (intro that [OF c]) (auto simp: saved_content_new persister.state_copy persister.snap_copy)
  qed
qed

lemma sk_stop_form:
  assumes "sk_stop i gg cfg = Some (gg', cfg')"
  obtains rfs where "gg' = gg\<lparr>gg_servers := (gg_servers gg)[i := None]\<rparr>" and "cfg' = cfg\<lparr>sk_raft_store := rfs\<rparr>"
    and "length rfs = length (sk_raft_store cfg)" and "i < length (gg_servers gg)"
proof -
  from assms obtain p where p: "i < length (gg_servers gg)" "gg_servers gg ! i = p"
    by (auto simp: sk_stop_def bind_eq_Some_conv slice_get_eq_Some_iff)
  show ?thesis
  proof (cases p)
    case None
    then have "(gg_servers gg)[i := None] = gg_servers gg" using p list_update_id [of "gg_servers gg" i] by simp
    with assms p None that [of "sk_raft_store cfg"] show ?thesis by (simp add: sk_stop_def)
  next
    case (Some k)
    with assms p obtain cfg1 where k: "ShardKV_Kill k cfg = Some cfg1" and c: "gg' = gg\<lparr>gg_servers := (gg_servers gg)[i := None]\<rparr>" "cfg' = cfg1"
      by (auto simp: sk_stop_def bind_eq_Some_conv)
    from k obtain rfs where "cfg1 = cfg\<lparr>sk_raft_store := rfs\<rparr>" "length rfs = length (sk_raft_store cfg)"
      by (auto simp: ShardKV_Kill_def sk_kill_raft_def bind_eq_Some_conv)
    with c p that show ?thesis by blast
  qed
qed

lemma sk_Shutdown_form:
  assumes "sk_ShutdownServer gi i cfg = Some cfg'" and "sk_inv X cfg"
  obtains gg rn saved store rfs where "sk_group cfg gi = Some gg" and "net_rest rn = net_rest (sk_net cfg)" and "i < sk_n cfg" and "i < 3"
    and "\<And>e. end_on rn e \<longleftrightarrow> e \<notin> set (take (sk_n cfg) (gg_endnames gg ! i)) \<union> set (gg_mendnames gg ! i) \<and> end_on (sk_net cfg) e"
    and "cfg' = sk_put gi (gg\<lparr>gg_saved := saved, gg_servers := (gg_servers gg)[i := None]\<rparr>)
      (cfg\<lparr>sk_net := DeleteServer (servername (gg_gid gg) (int i)) rn, sk_persister_store := store, sk_raft_store := rfs\<rparr>)"
    and "length saved = sk_n cfg" and "saved_ok saved store" and "length (sk_persister_store cfg) \<le> length store"
    and "length rfs = length (sk_raft_store cfg)"
    and "\<And>k. k < sk_n cfg \<Longrightarrow> saved_content saved store k = saved_content (gg_saved gg) (sk_persister_store cfg) k"
proof -
  let ?n = "sk_n cfg"
  from assms(1) obtain gg where gg: "sk_group cfg gi = Some gg" by (auto simp: sk_ShutdownServer_def bind_eq_Some_conv)
  obtain ctl where gi: "gi < 3" and ok: "sk_group_ok (X gi) cfg ctl gi gg" by (rule sk_inv_group [OF assms(2) gg])
  have len: "length (gg_servers gg) = ?n" "length (gg_saved gg) = ?n" "length (gg_endnames gg) = ?n" "length (gg_mendnames gg) = 3"
    "saved_ok (gg_saved gg) (sk_persister_store cfg)" using ok by (simp_all add: sk_group_ok_def)
  let ?nm = "\<lambda>j. do { names \<leftarrow> slice_get (gg_endnames gg) i; slice_get names j }"
  from assms(1) gg obtain rn1 rn2 mnames gg1 c2 gg2 c3
    where rn1: "switch_loop (\<lambda>e. Enable e False) (\<lambda>j. Some True) ?nm [0..<?n] (sk_net cfg) = Some rn1"
      and m: "slice_get (gg_mendnames gg) i = Some mnames"
      and rn2: "switch_loop (\<lambda>e. Enable e False) (\<lambda>j. Some True) (slice_get mnames) [0..<length mnames] rn1 = Some rn2"
      and cs: "sk_copy_saved i gg (cfg\<lparr>sk_net := DeleteServer (servername (gg_gid gg) (int i)) rn2\<rparr>) = Some (gg1, c2)"
      and st: "sk_stop i gg1 c2 = Some (gg2, c3)" and c': "cfg' = sk_put gi gg2 c3"
    by (auto simp: sk_ShutdownServer_def bind_eq_Some_conv len)
  obtain saved store where c2: "gg1 = gg\<lparr>gg_saved := saved\<rparr>"
      "c2 = cfg\<lparr>sk_net := DeleteServer (servername (gg_gid gg) (int i)) rn2, sk_persister_store := store\<rparr>"
    and i: "i < length (gg_saved gg)" and saved: "length saved = ?n" "saved_ok saved store" "length (sk_persister_store cfg) \<le> length store"
      "\<And>k. k < ?n \<Longrightarrow> saved_content saved store k = saved_content (gg_saved gg) (sk_persister_store cfg) k"
    by (rule sk_copy_saved_form [OF cs]) (use len in auto)
  obtain rfs where c3: "gg2 = gg1\<lparr>gg_servers := (gg_servers gg)[i := None]\<rparr>" "c3 = c2\<lparr>sk_raft_store := rfs\<rparr>"
    and rfs: "length rfs = length (sk_raft_store cfg)" by (rule sk_stop_form [OF st]) (auto simp: c2)
  have mi: "i < 3" "mnames = gg_mendnames gg ! i" using m len(4) by (auto simp: slice_get_eq_Some_iff)
  have ni: "i < ?n" using i len(2) by simp
  note e1 = net.switch_loop_frame [OF rn1] net.switch_loop_ok(1) [OF rn1]
  note e2 = net.switch_loop_frame [OF rn2] net.switch_loop_ok(1) [OF rn2]
  have set1: "(\<exists>j \<in> set [0..<?n]. ?nm j = Some e) \<longleftrightarrow> e \<in> set (take ?n (gg_endnames gg ! i))" for e
    using ni len(3) by (auto simp: slice_get_eq_Some_iff in_set_conv_nth)
  have set2: "(\<exists>j \<in> set [0..<length mnames]. slice_get mnames j = Some e) \<longleftrightarrow> e \<in> set mnames" for e
    by (auto simp: slice_get_eq_Some_iff in_set_conv_nth)
  show ?thesis
  proof (rule that [OF gg])
    show "net_rest rn2 = net_rest (sk_net cfg)" using e1(1) e2(1) by simp
    show "end_on rn2 e \<longleftrightarrow> e \<notin> set (take ?n (gg_endnames gg ! i)) \<union> set (gg_mendnames gg ! i) \<and> end_on (sk_net cfg) e" for e
      unfolding e2(2) e1(2) set1 set2 using mi(2) by simp
    show "cfg' = sk_put gi (gg\<lparr>gg_saved := saved, gg_servers := (gg_servers gg)[i := None]\<rparr>)
      (cfg\<lparr>sk_net := DeleteServer (servername (gg_gid gg) (int i)) rn2, sk_persister_store := store, sk_raft_store := rfs\<rparr>)"
      by (simp add: c' c3 c2)
  qed (fact ni mi(1) saved rfs)+
qed

lemma sk_Shutdown_ok:
  assumes "sk_ShutdownServer gi i cfg = Some cfg'" and "sk_inv X cfg"
  shows "sk_inv X cfg'" and "sk_n cfg' = sk_n cfg" and "sk_fresh rnd cfg \<Longrightarrow> sk_fresh rnd cfg'"
    and "\<not> sk_running cfg' gi i" and "k < sk_n cfg \<Longrightarrow> sk_content cfg' gi k = sk_content cfg gi k"
    and "map_read None (nt_servers (sk_net cfg')) (servername (100 + int gi) (int i)) = None"
    and "\<exists>gg. sk_group cfg gi = Some gg \<and> (\<forall>e. end_on (sk_net cfg') e \<longleftrightarrow>
      e \<notin> set (take (sk_n cfg) (gg_endnames gg ! i)) \<union> set (gg_mendnames gg ! i) \<and> end_on (sk_net cfg) e)"
proof -
  obtain gg rn saved store rfs where gg: "sk_group cfg gi = Some gg" and rest: "net_rest rn = net_rest (sk_net cfg)" and i: "i < sk_n cfg" "i < 3"
    and on: "\<And>e. end_on rn e \<longleftrightarrow> e \<notin> set (take (sk_n cfg) (gg_endnames gg ! i)) \<union> set (gg_mendnames gg ! i) \<and> end_on (sk_net cfg) e"
    and c': "cfg' = sk_put gi (gg\<lparr>gg_saved := saved, gg_servers := (gg_servers gg)[i := None]\<rparr>)
      (cfg\<lparr>sk_net := DeleteServer (servername (gg_gid gg) (int i)) rn, sk_persister_store := store, sk_raft_store := rfs\<rparr>)"
    and saved: "length saved = sk_n cfg" "saved_ok saved store" "length (sk_persister_store cfg) \<le> length store"
    and rfs: "length rfs = length (sk_raft_store cfg)"
    and content: "\<And>k. k < sk_n cfg \<Longrightarrow> saved_content saved store k = saved_content (gg_saved gg) (sk_persister_store cfg) k"
    by (rule sk_Shutdown_form [OF assms]) blast
  let ?gg' = "gg\<lparr>gg_saved := saved, gg_servers := (gg_servers gg)[i := None]\<rparr>"
  obtain ctl where gi: "gi < 3" and ctl: "sk_ctl cfg = Some ctl" and ok: "sk_group_ok (X gi) cfg ctl gi gg"
    by (rule sk_inv_group [OF assms(2) gg])
  have sel: "sk_n cfg' = sk_n cfg" "sk_groups cfg' = (sk_groups cfg)[gi := Some ?gg']" "sk_kv_store cfg' = sk_kv_store cfg"
    "sk_persister_store cfg' = store" "sk_raft_store cfg' = rfs" "sk_net cfg' = DeleteServer (servername (gg_gid gg) (int i)) rn"
    "sk_drawn cfg' = sk_drawn cfg" by (simp_all add: c' sk_put_def)
  show "sk_n cfg' = sk_n cfg" by (rule sel)
  have gid: "gg_gid gg = 100 + int gi" "length (gg_servers gg) = sk_n cfg" using ok by (simp_all add: sk_group_ok_def)
  have grows: "sk_grows cfg cfg'" using saved(3) by (simp add: sk_grows_def sel leads_rest [OF rest]) (simp add: c' sk_put_def)
  have "Some k \<in> set (gg_servers gg)" if "Some k \<in> set ((gg_servers gg)[i := None])" for k
    using that set_update_subset_insert [of "gg_servers gg" i None] by auto
  then have gg': "sk_group_ok (X gi) cfg' ctl gi ?gg'" using ok saved
    by (auto simp: sk_group_ok_def sk_names_ok_def sel leads_rest [OF rest])
  have servers: "nt_servers (sk_net cfg') = (nt_servers (sk_net cfg))(servername (100 + int gi) (int i) \<mapsto> None)"
    using net_rest_eqD(3) [OF rest] by (simp add: sel(6) gid DeleteServer_def)
  have run: "map_read None (nt_servers (sk_net cfg')) (servername (100 + int g) (int j)) \<noteq> None \<longleftrightarrow> sk_running cfg' g j"
    if "g < 3" "j < sk_n cfg" for g j
    by (rule sk_running_put [OF assms(2) gg i(1) sel(2) _ servers _ that, where v = None]) simp_all
  have rafts: "\<forall>kv \<in> set (sk_kv_store cfg'). kvs_rf kv < length (sk_raft_store cfg')"
    using assms(2) rfs by (auto simp: sel sk_inv_def)
  have "sk_inv (X(gi := X gi)) cfg'" by (rule sk_inv_put [OF assms(2) grows gi sel(2) _ rafts run]) (use gg' ctl in auto)
  then show "sk_inv X cfg'" by simp
  show "sk_fresh rnd cfg \<Longrightarrow> sk_fresh rnd cfg'" using net_rest_eqD(1) [OF rest] by (simp add: sk_fresh_def sel DeleteServer_def)
  show "map_read None (nt_servers (sk_net cfg')) (servername (100 + int gi) (int i)) = None" by (simp add: servers)
  with run [OF gi i(1)] show "\<not> sk_running cfg' gi i" by simp
  have group: "sk_group cfg' gi = Some ?gg'" using assms(2) gi by (simp add: sk_group_def sel sk_inv_def)
  show "k < sk_n cfg \<Longrightarrow> sk_content cfg' gi k = sk_content cfg gi k" using content by (simp add: sk_content_def group gg sel)
  have "end_on (sk_net cfg') = end_on rn" by (simp add: fun_eq_iff end_on_def sel DeleteServer_def)
  with on gg show "\<exists>gg. sk_group cfg gi = Some gg \<and> (\<forall>e. end_on (sk_net cfg') e \<longleftrightarrow>
      e \<notin> set (take (sk_n cfg) (gg_endnames gg ! i)) \<union> set (gg_mendnames gg ! i) \<and> end_on (sk_net cfg) e)" by simp
qed

lemma sk_Shutdown_runs:
  assumes "sk_inv X cfg" and "sk_group cfg gi = Some gg" and "i \<in> X gi"
  shows "\<exists>cfg'. sk_ShutdownServer gi i cfg = Some cfg'"
proof -
  let ?n = "sk_n cfg"
  obtain ctl where ok: "sk_group_ok (X gi) cfg ctl gi gg" by (rule sk_inv_group [OF assms(1,2)])
  then have len: "length (gg_servers gg) = ?n" "length (gg_saved gg) = ?n" "length (gg_endnames gg) = ?n" "length (gg_mendnames gg) = 3"
    "saved_ok (gg_saved gg) (sk_persister_store cfg)" by (simp_all add: sk_group_ok_def)
  from ok assms(3) have i: "i < ?n" "i < 3" "length (gg_endnames gg ! i) = ?n" by (auto simp: sk_group_ok_def sk_names_ok_def)
  obtain rn1 where rn1: "switch_loop (\<lambda>e. Enable e False) (\<lambda>j. Some True)
      (\<lambda>j. do { names \<leftarrow> slice_get (gg_endnames gg) i; slice_get names j }) [0..<?n] (sk_net cfg) = Some rn1"
    by (rule net_switch_range [of ?n "\<lambda>j. Some True"
        "\<lambda>j. do { names \<leftarrow> slice_get (gg_endnames gg) i; slice_get names j }" False "sk_net cfg"]) (use i len in auto)
  obtain rn2 where rn2: "switch_loop (\<lambda>e. Enable e False) (\<lambda>j. Some True) (slice_get (gg_mendnames gg ! i))
      [0..<length (gg_mendnames gg ! i)] rn1 = Some rn2"
    by (rule net_switch_range [of "length (gg_mendnames gg ! i)" "\<lambda>j. Some True" "slice_get (gg_mendnames gg ! i)" False rn1]) auto
  let ?c = "cfg\<lparr>sk_net := DeleteServer (servername (gg_gid gg) (int i)) rn2\<rparr>"
  obtain gg1 c2 where cs: "sk_copy_saved i gg ?c = Some (gg1, c2)"
    using i len saved_ok_get [OF len(5), of i] by (cases "gg_saved gg ! i") (auto simp: sk_copy_saved_def)
  then have c2: "gg_servers gg1 = gg_servers gg" "sk_kv_store c2 = sk_kv_store cfg" "sk_raft_store c2 = sk_raft_store cfg"
    by (auto simp: sk_copy_saved_def bind_eq_Some_conv split: option.splits)
  have "k < length (sk_kv_store cfg) \<and> kvs_rf (sk_kv_store cfg ! k) < length (sk_raft_store cfg)" if "gg_servers gg ! i = Some k" for k
    using that ok i len(1) assms(1) unfolding sk_group_ok_def sk_inv_def by (metis nth_mem)
  then obtain gg2 c3 where "sk_stop i gg1 c2 = Some (gg2, c3)"
    using i len by (cases "gg_servers gg ! i") (auto simp: sk_stop_def c2 ShardKV_Kill_def sk_kill_raft_def)
  with assms(2) rn1 rn2 cs i len show ?thesis by (auto simp: sk_ShutdownServer_def)
qed

end
