(* ===== verification/Shardkv_Cluster.thy ===== *)
theory Shardkv_Cluster
  imports Shardkv_Tester
begin

text \<open>
  The tester of \<open>shardkv\<close> in action: \<open>make_config\<close>, then any sequence of its operations.

  The theory shows for which sizes of a group the tester works at all, that in every state it can reach each server
  is registered under its own name exactly while it runs, that the servers a group announces when it joins are those,
  what shutting down a server cuts off, and when the check of the logs passes.
\<close>

section \<open>The initial configuration\<close>

text \<open>While the controllers are started: only they are registered, and there is no server yet.\<close>

definition sk_boot :: "(nat \<Rightarrow> string) \<Rightarrow> ctrler \<Rightarrow> ('v, 'w) sk_config \<Rightarrow> bool" where
  "sk_boot rnd ctl cfg \<longleftrightarrow> sk_fresh rnd cfg \<and> sk_ctl_ok ctl \<and> length (ct_servers ctl) = 3 \<and> sk_kv_store cfg = [] \<and>
     (\<forall>s. nt_servers (sk_net cfg) s \<noteq> None \<longrightarrow> (\<exists>t. s = ''ctlr-'' @ t))"

lemma sk_boot_ctl_ends:
  assumes "sk_boot rnd ctl cfg"
  obtains cfg' names ends where "sk_ctl_ends rnd ctl (ct_n ctl) cfg = Inr (cfg', names, ends)" and "sk_boot rnd ctl cfg'"
    and "length ends = 3"
proof -
  have three: "ct_n ctl = length (ct_names ctl)" "length (ct_names ctl) = 3" and fresh0: "sk_fresh rnd cfg"
    using assms by (simp_all add: sk_boot_def sk_ctl_ok_def)
  obtain cfg' names ends where ce: "sk_ctl_ends rnd ctl (ct_n ctl) cfg = Inr (cfg', names, ends)" and fresh: "sk_fresh rnd cfg'"
    by (rule sk_ctl_ends_runs [OF fresh0 three(1) order_refl])
  from ce obtain rn where mk: "make_ends True (zip (map rnd [sk_drawn cfg..<sk_drawn cfg + ct_n ctl]) (ct_names ctl)) (sk_net cfg) = Inr (rn, ends)"
    and c': "cfg' = cfg\<lparr>sk_net := rn, sk_drawn := sk_drawn cfg + ct_n ctl\<rparr>" by (auto simp: sk_ctl_ends_eq three(1) res_bind_Inr_iff)
  have "map end_name ends = map fst (zip (map rnd [sk_drawn cfg..<sk_drawn cfg + ct_n ctl]) (ct_names ctl))"
    using make_ends_ok [OF mk] by (elim conjE)
  then have "length (map end_name ends) = 3" using three by (simp only: length_map length_zip length_upt)
  moreover have "sk_boot rnd ctl cfg'" using assms fresh by (simp add: c' sk_boot_def make_ends_servers [OF mk])
  ultimately show ?thesis using that [OF ce] by simp
qed

lemma sk_StartCtrlerServer_runs:
  assumes "sk_boot rnd ctl cfg" and "i < 3"
  shows "\<exists>ctl' cfg'. sk_StartCtrlerServer sctyp rftyp rnd i (ctl, cfg) = Inr (ctl', cfg') \<and> sk_boot rnd ctl' cfg'"
proof -
  obtain cfg1 names ends where ce: "sk_ctl_ends rnd ctl (ct_n ctl) cfg = Inr (cfg1, names, ends)" and boot: "sk_boot rnd ctl cfg1"
    by (rule sk_boot_ctl_ends [OF assms(1)])
  have len: "length (ct_names ctl) = 3" "length (ct_servers ctl) = 3" using assms(1) by (simp_all add: sk_boot_def sk_ctl_ok_def)
  then have "\<exists>s. ct_names ctl ! i = ''ctlr-'' @ s" using assms by (simp add: sk_boot_def sk_ctl_ok_def)
  then show ?thesis using ce boot len assms(2)
    by (auto simp: sk_StartCtrlerServer_def ctrlername_def Ctrler_new_def Make_def readPersist_def sk_boot_def sk_fresh_def
        sk_ctl_ok_def AddServer_def Let_def)
qed

lemma StartCtrlerService_runs:
  assumes "inj rnd" and "sk_net cfg = MakeNetwork" and "sk_kv_store cfg = []"
  shows "\<exists>ctl cfg'. StartCtrlerService sctyp rftyp rnd cfg = Inr (ctl, cfg') \<and> sk_boot rnd ctl cfg'"
proof -
  let ?ctl = "\<lparr>ct_n = 3, ct_servers = replicate 3 None,
      ct_names = map (\<lambda>k. ''ctlr-'' @ rnd k) [sk_drawn cfg..<sk_drawn cfg + 3], ct_ck = None\<rparr> :: ctrler"
  let ?c = "cfg\<lparr>sk_drawn := sk_drawn cfg + 3\<rparr>"
  have boot: "sk_boot rnd ?ctl ?c" using assms by (auto simp: sk_boot_def sk_fresh_def sk_ctl_ok_def MakeNetwork_def)
  have "\<exists>ctl cfg'. for_each_res (sk_StartCtrlerServer sctyp rftyp rnd) xs (ctl0, c0) = Inr (ctl, cfg') \<and> sk_boot rnd ctl cfg'"
    if "sk_boot rnd ctl0 c0" "\<forall>x \<in> set xs. x < 3" for xs ctl0 and c0 :: "('a, 'b) sk_config"
    using that
  proof (induction xs arbitrary: ctl0 c0)
    case (Cons x xs)
    with sk_StartCtrlerServer_runs [of rnd ctl0 c0 x sctyp rftyp] show ?case by fastforce
  qed simp
  from this [OF boot, of "[0..<3]"] obtain ctl cfg1
    where loop: "for_each_res (sk_StartCtrlerServer sctyp rftyp rnd) [0..<3] (?ctl, ?c) = Inr (ctl, cfg1)" and boot1: "sk_boot rnd ctl cfg1" by auto
  obtain cfg2 names ends where "sk_ctl_ends rnd ctl (ct_n ctl) cfg1 = Inr (cfg2, names, ends)" "sk_boot rnd ctl cfg2"
    by (rule sk_boot_ctl_ends [OF boot1])
  then have "ctrlerclerk rnd ctl cfg1 = Inr (cfg2, MakeCtrlClerk ends)" "sk_boot rnd (ctl\<lparr>ct_ck := Some (MakeCtrlClerk ends)\<rparr>) cfg2"
    by (simp_all add: ctrlerclerk_def sk_boot_def sk_ctl_ok_def)
  with loop show ?thesis by (simp add: StartCtrlerService_def del: upt_Suc)
qed

text \<open>A new group, and its servers one after the other.\<close>

lemma sk_inv_new_group:
  assumes "sk_inv X cfg" and "gi < 3" and "sk_groups cfg ! gi = None"
  shows "sk_inv X (sk_put gi (sk_new_group (sk_n cfg) 3 gi) cfg)"
proof -
  let ?gg = "sk_new_group (sk_n cfg) 3 gi"
  let ?c = "sk_put gi ?gg cfg"
  have X: "X gi = {}" using assms unfolding sk_inv_def by force
  have len: "length (sk_groups cfg) = 3" using assms(1) by (simp add: sk_inv_def)
  have gg: "sk_group_ok {} ?c ctl gi ?gg" for ctl
    by (auto simp: sk_group_ok_def sk_names_ok_def sk_new_group_def sk_put_def saved_ok_def)
  have "sk_running ?c g i \<longleftrightarrow> sk_running cfg g i" if "g < 3" "i < sk_n cfg" for g i
  proof (cases "g = gi")
    case True
    have "sk_group cfg gi = None" using assms(2,3) len by (simp add: sk_group_def)
    then show ?thesis using True that len assms(2) by (simp add: sk_running_def sk_group_put sk_new_group_def)
  next
    case False
    then show ?thesis by (simp add: sk_running_def sk_group_put)
  qed
  then have run: "map_read None (nt_servers (sk_net ?c)) (servername (100 + int g) (int i)) \<noteq> None \<longleftrightarrow> sk_running ?c g i"
    if "g < 3" "i < sk_n cfg" for g i using that assms(1) unfolding sk_inv_def by (simp add: sk_put_def)
  have "sk_inv (X(gi := {})) ?c"
    by (rule sk_inv_put [OF assms(1) _ assms(2) _ gg _ run]) (use assms(1) in \<open>auto simp: sk_grows_def sk_put_def sk_inv_def\<close>)
  with X show ?thesis by (metis fun_upd_triv)
qed

lemma sk_start_loop:
  assumes "sk_inv X cfg" and "sk_fresh rnd cfg" and "sk_group cfg gi = Some gg" and "X gi = {}" and "m \<le> sk_n cfg" and "m \<le> 3"
  shows "\<exists>cfg' gg'. for_each_res (sk_StartServer kvtyp rftyp rnd gi) [0..<m] cfg = Inr cfg' \<and> sk_inv (X(gi := {..<m})) cfg' \<and>
     sk_fresh rnd cfg' \<and> sk_n cfg' = sk_n cfg \<and> sk_group cfg' gi = Some gg' \<and> (\<forall>g. g \<noteq> gi \<longrightarrow> sk_groups cfg' ! g = sk_groups cfg ! g)"
  using assms(5,6)
proof (induction m)
  case 0
  with assms show ?case by (simp add: fun_upd_idem)
next
  case (Suc m)
  from Suc.IH [OF Suc_leD [OF Suc.prems(1)] Suc_leD [OF Suc.prems(2)]]
  obtain c1 gg1 where c1: "for_each_res (sk_StartServer kvtyp rftyp rnd gi) [0..<m] cfg = Inr c1" "sk_inv (X(gi := {..<m})) c1"
      "sk_fresh rnd c1" "sk_n c1 = sk_n cfg" "sk_group c1 gi = Some gg1" and old: "\<forall>g. g \<noteq> gi \<longrightarrow> sk_groups c1 ! g = sk_groups cfg ! g" by (elim exE conjE)
  have m: "m < sk_n c1" "m < 3" using Suc.prems c1(4) by simp_all
  from sk_Start_runs [OF c1(2,3,5) m, where kvtyp = kvtyp and rftyp = rftyp]
  obtain c2 where c2: "sk_StartServer kvtyp rftyp rnd gi m c1 = Inr c2" "sk_fresh rnd c2" by (elim exE conjE)
  note ok = sk_Start_ok [OF c2(1) c1(2)]
  have X: "(X(gi := {..<m}))(gi := insert m ((X(gi := {..<m})) gi)) = X(gi := {..<Suc m})" by (auto simp: lessThan_Suc)
  obtain gg2 where "sk_group c2 gi = Some gg2" using ok(5) by (auto simp: sk_running_def)
  moreover have "sk_groups c2 ! g = sk_groups c1 ! g" if "g \<noteq> gi" for g
    by (rule sk_Start_form [OF c2(1) c1(2)], erule sk_launch_form) (use that in \<open>simp add: sk_put_def\<close>)
  moreover have "sk_inv (X(gi := {..<Suc m})) c2" using ok(6) unfolding X .
  ultimately show ?case using c1(1,4) c2 ok(4) old by (auto simp: for_each_res_append simp del: fun_upd_apply)
qed

text \<open>Group by group; the first \<open>m\<close> groups are complete.\<close>

lemma sk_make_groups:
  assumes "sk_inv (\<lambda>_. {}) cfg" and "sk_fresh rnd cfg" and "sk_groups cfg = replicate 3 None" and "sk_n cfg \<le> 3" and "m \<le> 3"
  shows "\<exists>cfg'. for_each_res (sk_make_group kvtyp rftyp rnd) [0..<m] cfg = Inr cfg' \<and>
     sk_inv (\<lambda>g. if g < m then {..<sk_n cfg} else {}) cfg' \<and> sk_fresh rnd cfg' \<and> sk_n cfg' = sk_n cfg \<and>
     (\<forall>g < 3. m \<le> g \<longrightarrow> sk_groups cfg' ! g = None) \<and> (\<forall>g < m. sk_groups cfg' ! g \<noteq> None)"
  using assms(5)
proof (induction m)
  case 0
  with assms show ?case by simp
next
  case (Suc m)
  let ?X = "\<lambda>g. if g < m then {..<sk_n cfg} else {}"
  from Suc obtain c1 where c1: "for_each_res (sk_make_group kvtyp rftyp rnd) [0..<m] cfg = Inr c1" "sk_inv ?X c1" "sk_fresh rnd c1"
    "sk_n c1 = sk_n cfg" and none: "\<forall>g < 3. m \<le> g \<longrightarrow> sk_groups c1 ! g = None" and some: "\<forall>g < m. sk_groups c1 ! g \<noteq> None" by auto
  let ?c = "sk_put m (sk_new_group (sk_n c1) 3 m) c1"
  from c1(2) obtain ctl where ctl: "sk_ctl c1 = Some ctl" "ct_n ctl = 3" and len: "length (sk_groups c1) = 3"
    by (auto simp: sk_inv_def sk_ctl_ok_def)
  have inv: "sk_inv ?X ?c" by (rule sk_inv_new_group [OF c1(2)]) (use Suc.prems none in auto)
  have fresh: "sk_fresh rnd ?c" using c1(3) by (simp add: sk_fresh_def sk_put_def)
  have gg: "sk_group ?c m = Some (sk_new_group (sk_n c1) 3 m)" using len Suc.prems by (simp add: sk_group_put)
  have n: "sk_n c1 \<le> sk_n ?c" "sk_n c1 \<le> 3" "?X m = {}" and nc: "sk_n ?c = sk_n cfg" using assms(4) c1(4) by (simp_all add: sk_put_def)
  from sk_start_loop [OF inv fresh gg n(3,1,2), where kvtyp = kvtyp and rftyp = rftyp] obtain c2 gg'
    where c2: "for_each_res (sk_StartServer kvtyp rftyp rnd m) [0..<sk_n c1] ?c = Inr c2" "sk_inv (?X(m := {..<sk_n c1})) c2" "sk_fresh rnd c2"
      "sk_n c2 = sk_n cfg" "sk_group c2 m = Some gg'" and old: "\<forall>g. g \<noteq> m \<longrightarrow> sk_groups c2 ! g = sk_groups ?c ! g" unfolding nc by (elim exE conjE)
  have X: "?X(m := {..<sk_n c1}) = (\<lambda>g. if g < Suc m then {..<sk_n cfg} else {})" using c1(4) by (simp add: fun_eq_iff less_Suc_eq)
  have "sk_groups c2 ! g = sk_groups c1 ! g" if "g \<noteq> m" for g using old that by (simp add: sk_put_def)
  moreover have "sk_make_group kvtyp rftyp rnd m c1 = Inr c2" using ctl c2(1) by (simp add: sk_make_group_def)
  moreover note c1 c2(2-5) none some sk_groupD [OF c2(5)]
  ultimately show ?case unfolding X by (auto simp: for_each_res_append less_Suc_eq)
qed

text \<open>More than three servers do not fit: \<open>mendnames\<close> has one element per controller.\<close>

lemma sk_Start_panics:
  assumes "sk_inv X cfg" and "sk_fresh rnd cfg" and "sk_group cfg gi = Some gg" and "i < sk_n cfg" and "3 \<le> i"
  shows "sk_StartServer kvtyp rftyp rnd gi i cfg = Inl GoPanic"
proof -
  let ?d = "sk_drawn cfg" and ?n = "sk_n cfg"
  let ?names = "map rnd [?d..<?d + ?n]"
  obtain ctl where ctl: "sk_ctl cfg = Some ctl" and ok: "sk_group_ok (X gi) cfg ctl gi gg" by (rule sk_inv_group [OF assms(1,3)])
  have zip: "map (\<lambda>j. (?names ! j, servername (gg_gid gg) (int j))) [0..<?n] = zip ?names (map (\<lambda>j. servername (gg_gid gg) (int j)) [0..<?n])"
    by (rule nth_equalityI) simp_all
  obtain rn ends where "make_ends True (map (\<lambda>j. (?names ! j, servername (gg_gid gg) (int j))) [0..<?n]) (sk_net cfg) = Inr (rn, ends)"
    unfolding zip by (rule make_ends_drawn [OF assms(2), of _ ?n]) auto
  moreover have "length (gg_endnames gg) = ?n" "length (gg_mendnames gg) = 3" using ok by (simp_all add: sk_group_ok_def)
  ultimately show ?thesis using assms(3-5) ctl by (simp add: sk_StartServer_def slice_set_def)
qed

lemma sk_make_group_panics:
  assumes "sk_inv (\<lambda>_. {}) cfg" and "sk_fresh rnd cfg" and "sk_groups cfg = replicate 3 None" and "3 < sk_n cfg"
  shows "sk_make_group kvtyp rftyp rnd 0 cfg = Inl GoPanic"
proof -
  let ?c = "sk_put 0 (sk_new_group (sk_n cfg) 3 0) cfg"
  from assms(1) obtain ctl where ctl: "sk_ctl cfg = Some ctl" "ct_n ctl = 3" by (auto simp: sk_inv_def sk_ctl_ok_def)
  have inv: "sk_inv (\<lambda>_. {}) ?c" by (rule sk_inv_new_group [OF assms(1)]) (simp_all add: assms(3))
  have fresh: "sk_fresh rnd ?c" using assms(2) by (simp add: sk_fresh_def sk_put_def)
  have gg: "sk_group ?c 0 = Some (sk_new_group (sk_n cfg) 3 0)" by (simp add: sk_group_put assms(3))
  have n: "sk_n ?c = sk_n cfg" "3 \<le> sk_n ?c" using assms(4) by (simp_all add: sk_put_def)
  from sk_start_loop [OF inv fresh gg refl n(2) order_refl, where kvtyp = kvtyp and rftyp = rftyp] obtain c2 gg'
    where c2: "for_each_res (sk_StartServer kvtyp rftyp rnd 0) [0..<3] ?c = Inr c2" "sk_inv ((\<lambda>_. {})(0 := {..<3})) c2" "sk_fresh rnd c2"
      "sk_n c2 = sk_n ?c" "sk_group c2 0 = Some gg'" by (elim exE conjE)
  have "sk_StartServer kvtyp rftyp rnd 0 3 c2 = Inl GoPanic" by (rule sk_Start_panics [OF c2(2,3,5)]) (use c2(4) n assms(4) in auto)
  moreover have "[0..<sk_n cfg] = [0..<3] @ 3 # [4..<sk_n cfg]"
    using upt_add_eq_append [of 0 3 "sk_n cfg - 3"] upt_conv_Cons [of 3 "sk_n cfg"] assms(4) by simp
  ultimately show ?thesis using ctl c2(1) by (simp add: sk_make_group_def for_each_res_append del: upt_rec_numeral)
qed

definition sk_full :: "('v, 'w) sk_config \<Rightarrow> bool" where
  "sk_full cfg \<longleftrightarrow> sk_inv (\<lambda>g. if g < 3 then {..<sk_n cfg} else {}) cfg \<and> (\<forall>g < 3. sk_groups cfg ! g \<noteq> None)"

lemma sk_fullI:
  "sk_inv (\<lambda>g. if g < 3 then {..<n} else {}) cfg \<Longrightarrow> sk_n cfg = n \<Longrightarrow> \<forall>g < 3. sk_groups cfg ! g \<noteq> None \<Longrightarrow> sk_full cfg"
  unfolding sk_full_def by blast

text \<open>A change that leaves the groups, the servers and the stores as they are.\<close>

lemma sk_inv_frame:
  assumes "sk_inv X cfg" and "sk_grows cfg cfg'" and "sk_groups cfg' = sk_groups cfg"
    and "nt_servers (sk_net cfg') = nt_servers (sk_net cfg)" and "sk_kv_store cfg' = sk_kv_store cfg" and "sk_raft_store cfg' = sk_raft_store cfg"
  shows "sk_inv X cfg'"
proof -
  have eq: "sk_ctl cfg' = sk_ctl cfg" "sk_n cfg' = sk_n cfg" "sk_ngroups cfg' = sk_ngroups cfg" using assms(2) by (simp_all add: sk_grows_def)
  have run: "sk_running cfg' = sk_running cfg" by (intro ext) (simp add: sk_running_def sk_group_def assms(3))
  show ?thesis using assms(1) sk_group_ok_grows [OF assms(2)] unfolding sk_inv_def eq assms(3-6) run
    by (auto split: option.splits)
qed

lemma sk_make_config_runs:
  assumes "inj rnd"
  shows "if n \<le> 3 then \<exists>cfg. sk_make_config sctyp kvtyp rftyp rnd n unreliable maxraftstate = Inr cfg \<and> sk_full cfg \<and> sk_fresh rnd cfg \<and> sk_n cfg = n
    else sk_make_config sctyp kvtyp rftyp rnd n unreliable maxraftstate = Inl GoPanic"
proof -
  let ?c0 = "\<lparr>sk_net = MakeNetwork, sk_ctl = None, sk_ngroups = 0, sk_n = 0, sk_groups = [], sk_clerks = Map.empty,
      sk_nextClientId = 0, sk_maxraftstate = maxraftstate, sk_drawn = 0, sk_kv_store = [], sk_ctl_store = [],
      sk_raft_store = [], sk_persister_store = [], sk_server_store = [], sk_clerk_store = []\<rparr> :: ('a, 'b) sk_config"
  obtain ctl c1 where boot: "StartCtrlerService sctyp rftyp rnd ?c0 = Inr (ctl, c1)" "sk_boot rnd ctl c1"
    using StartCtrlerService_runs [OF assms, of ?c0 sctyp rftyp] by auto
  let ?c = "c1\<lparr>sk_ctl := Some ctl, sk_ngroups := 3, sk_groups := replicate 3 None, sk_n := n\<rparr>"
  have none: "nt_servers (sk_net c1) (servername g i) = None" for g i
    using boot(2) servername_ctlr [of g i] unfolding sk_boot_def by metis
  have run: "\<not> sk_running ?c g i" if "g < 3" for g i using that by (simp add: sk_running_def sk_group_def)
  have inv: "sk_inv (\<lambda>_. {}) ?c" using boot(2) none run by (simp add: sk_inv_def sk_boot_def map_read_def)
  have fresh: "sk_fresh rnd ?c" using boot(2) by (simp add: sk_boot_def sk_fresh_def)
  show ?thesis
  proof (cases "n \<le> 3")
    case True
    then have n: "sk_n ?c \<le> 3" by simp
    have sel: "sk_n ?c = n" "sk_groups ?c = replicate 3 None" by simp_all
    from sk_make_groups [OF inv fresh sel(2) n order_refl, where kvtyp = kvtyp and rftyp = rftyp] obtain c2
      where c2: "for_each_res (sk_make_group kvtyp rftyp rnd) [0..<3] ?c = Inr c2" "sk_inv (\<lambda>g. if g < 3 then {..<n} else {}) c2"
        "sk_fresh rnd c2" "sk_n c2 = n" "\<forall>g < 3. sk_groups c2 ! g \<noteq> None" unfolding sel(1) by (elim exE conjE)
    let ?c3 = "c2\<lparr>sk_clerks := Map.empty, sk_nextClientId := int n + 1000, sk_net := Reliable (\<not> unreliable) (sk_net c2)\<rparr>"
    have "sk_inv (\<lambda>g. if g < 3 then {..<n} else {}) ?c3"
      by (rule sk_inv_frame [OF c2(2)]) (simp_all add: sk_grows_def Reliable_def leads_def)
    then have "sk_full ?c3" by (rule sk_fullI) (use c2(4,5) in simp_all)
    moreover have "sk_fresh rnd ?c3" using c2(3) by (simp add: sk_fresh_def Reliable_def)
    moreover have "sk_make_config sctyp kvtyp rftyp rnd n unreliable maxraftstate = Inr ?c3"
      using boot(1) c2(1) by (simp add: sk_make_config_def Let_def del: upt_rec_numeral)
    ultimately show ?thesis using True c2(4) by auto
  next
    case False
    have "sk_make_group kvtyp rftyp rnd 0 ?c = Inl GoPanic" by (rule sk_make_group_panics [OF inv fresh]) (use False in auto)
    then have "for_each_res (sk_make_group kvtyp rftyp rnd) [0..<3] ?c = Inl GoPanic" by (simp add: upt_conv_Cons)
    then show ?thesis using boot(1) False by (simp add: sk_make_config_def Let_def del: upt_rec_numeral)
  qed
qed

section \<open>Clerks and their end points\<close>

lemma sk_make_end_runs:
  assumes "sk_fresh rnd cfg"
  obtains cfg' e where "sk_make_end rnd srv cfg = Inr (cfg', e)" and "end_name e = rnd (sk_drawn cfg)" and "sk_fresh rnd cfg'"
    and "sk_grows cfg cfg'" and "sk_groups cfg' = sk_groups cfg" and "nt_servers (sk_net cfg') = nt_servers (sk_net cfg)"
    and "sk_kv_store cfg' = sk_kv_store cfg" and "sk_raft_store cfg' = sk_raft_store cfg"
    and "nt_connections (sk_net cfg') (end_name e) = Some (Some srv)" and "end_on (sk_net cfg') (end_name e)"
    and "end_name e \<notin> dom (nt_ends (sk_net cfg))"
proof -
  let ?e = "rnd (sk_drawn cfg)"
  have old: "?e \<notin> dom (nt_ends (sk_net cfg))" using assms by (auto simp: sk_fresh_def dest: injD)
  obtain rn e where mk: "MakeEnd ?e (sk_net cfg) = Inr (rn, e)"
    using old by (cases "MakeEnd ?e (sk_net cfg)") (auto simp: MakeEnd_def Let_def split: if_splits)
  then have rn: "end_name e = ?e" "nt_ends rn = (nt_ends (sk_net cfg))(?e \<mapsto> e)" "nt_servers rn = nt_servers (sk_net cfg)"
    "\<And>x. x \<noteq> ?e \<Longrightarrow> nt_connections rn x = nt_connections (sk_net cfg) x"
    by (auto simp: MakeEnd_def Let_def split: if_splits)
  show ?thesis
    by (rule that [of "cfg\<lparr>sk_net := Enable ?e True (Connect ?e srv rn), sk_drawn := sk_drawn cfg + 1\<rparr>" e])
      (use assms old rn mk in \<open>auto simp: sk_make_end_def Let_def sk_fresh_def sk_grows_def leads_def Connect_def Enable_def end_on_def map_read_def\<close>)
qed

text \<open>A clerk has an element for each server of a group, and needs one for each controller.\<close>

lemma sk_makeClient_runs:
  assumes "sk_full cfg" and "sk_fresh rnd cfg" and "sk_ctl cfg = Some ctl"
  shows "if sk_n cfg < 3 then sk_makeClient rnd ctl cfg = Inl GoPanic
    else \<exists>cfg' ck. sk_makeClient rnd ctl cfg = Inr (cfg', ck) \<and> sk_full cfg' \<and> sk_fresh rnd cfg' \<and> sk_n cfg' = sk_n cfg \<and>
      (\<exists>names. sk_clerks cfg' ck = Some names \<and> length names = sk_n cfg \<and>
        (\<forall>j < 3. leads (sk_net cfg') (names ! j) (ct_names ctl ! j)))"
proof -
  have inv: "sk_inv (\<lambda>g. if g < 3 then {..<sk_n cfg} else {}) cfg" using assms(1) by (simp add: sk_full_def)
  have three: "ct_n ctl = length (ct_names ctl)" "length (ct_names ctl) = 3" using inv assms(3) by (auto simp: sk_inv_def sk_ctl_ok_def)
  show ?thesis
  proof (cases "sk_n cfg < 3")
    case True
    then show ?thesis using sk_ctl_ends_panics [OF assms(2) three(1), of "sk_n cfg"] three by (simp add: sk_makeClient_def)
  next
    case False
    then have le: "ct_n ctl \<le> sk_n cfg" using three by simp
    let ?new = "map rnd [sk_drawn cfg..<sk_drawn cfg + ct_n ctl]"
    obtain c1 names ends where ce: "sk_ctl_ends rnd ctl (sk_n cfg) cfg = Inr (c1, names, ends)" and fresh: "sk_fresh rnd c1"
      by (rule sk_ctl_ends_runs [OF assms(2) three(1) le])
    then obtain rn where mk: "make_ends True (zip ?new (ct_names ctl)) (sk_net cfg) = Inr (rn, ends)"
      and c1: "c1 = cfg\<lparr>sk_net := rn, sk_drawn := sk_drawn cfg + ct_n ctl\<rparr>" "names = ?new @ replicate (sk_n cfg - ct_n ctl) []"
      by (auto simp: sk_ctl_ends_eq [OF three(1) le] res_bind_Inr_iff)
    let ?ck = "length (sk_clerk_store c1)"
    let ?c2 = "c1\<lparr>sk_clerk_store := sk_clerk_store c1 @ [MakeShardClerk ends], sk_clerks := (sk_clerks c1)(?ck \<mapsto> names),
        sk_nextClientId := sk_nextClientId c1 + 1\<rparr>"
    have "sk_makeClient rnd ctl cfg = Inr (?c2, ?ck)" using ce by (simp add: sk_makeClient_def Let_def)
    moreover have "sk_inv (\<lambda>g. if g < 3 then {..<sk_n cfg} else {}) ?c2"
      by (rule sk_inv_frame [OF inv]) (use leads_make_ends(1) [OF mk] in \<open>simp_all add: c1 sk_grows_def make_ends_servers [OF mk]\<close>)
    then have "sk_full ?c2" by (rule sk_fullI) (use assms(1) in \<open>simp_all add: sk_full_def c1\<close>)
    moreover have "sk_fresh rnd ?c2" using fresh by (simp add: sk_fresh_def)
    moreover have "leads rn (names ! j) (ct_names ctl ! j)" if "j < 3" for j
      by (rule leads_make_ends(2) [OF mk]) (use that three in \<open>auto simp: c1 set_zip nth_append intro!: exI [of _ j]\<close>)
    then have "\<exists>names. sk_clerks ?c2 ?ck = Some names \<and> length names = sk_n cfg \<and> (\<forall>j < 3. leads (sk_net ?c2) (names ! j) (ct_names ctl ! j))"
      using le by (simp add: c1)
    moreover have "sk_n ?c2 = sk_n cfg" by (simp add: c1)
    ultimately show ?thesis using False by auto
  qed
qed

section \<open>Runs of the tester\<close>

text \<open>\<open>SkMakeEnd\<close> is a call of the closure \<open>make_end\<close> by a clerk or a server.\<close>

datatype sk_op =
    SkStart nat nat
  | SkShutdown nat nat
  | SkStartGroup nat
  | SkShutdownGroup nat
  | SkMakeClient
  | SkDeleteClient nat
  | SkMakeEnd string

fun sk_step ::
  "('v, 'w) Method list \<Rightarrow> ('v, 'w) Method list \<Rightarrow> (nat \<Rightarrow> string) \<Rightarrow> sk_op \<Rightarrow> ('v, 'w) sk_config \<Rightarrow> go_error + ('v, 'w) sk_config" where
  "sk_step kvtyp rftyp rnd (SkStart gi i) cfg = sk_StartServer kvtyp rftyp rnd gi i cfg"
| "sk_step kvtyp rftyp rnd (SkShutdown gi i) cfg = panics (sk_ShutdownServer gi i cfg)"
| "sk_step kvtyp rftyp rnd (SkStartGroup gi) cfg = sk_StartGroup kvtyp rftyp rnd gi cfg"
| "sk_step kvtyp rftyp rnd (SkShutdownGroup gi) cfg = panics (sk_ShutdownGroup gi cfg)"
| "sk_step kvtyp rftyp rnd SkMakeClient cfg = res_bind (panics (sk_ctl cfg)) (\<lambda>ctl. res_bind (sk_makeClient rnd ctl cfg) (\<lambda>(cfg', _). Inr cfg'))"
| "sk_step kvtyp rftyp rnd (SkDeleteClient ck) cfg = Inr (sk_deleteClient ck cfg)"
| "sk_step kvtyp rftyp rnd (SkMakeEnd srv) cfg = res_bind (sk_make_end rnd srv cfg) (\<lambda>(cfg', _). Inr cfg')"

inductive sk_reachable ::
  "('v, 'w) Method list \<Rightarrow> ('v, 'w) Method list \<Rightarrow> ('v, 'w) Method list \<Rightarrow> (nat \<Rightarrow> string) \<Rightarrow> ('v, 'w) sk_config \<Rightarrow> bool"
  for sctyp kvtyp rftyp rnd where
  sk_reach_make: "sk_make_config sctyp kvtyp rftyp rnd n unreliable maxraftstate = Inr cfg \<Longrightarrow> sk_reachable sctyp kvtyp rftyp rnd cfg"
| sk_reach_step: "sk_reachable sctyp kvtyp rftyp rnd cfg \<Longrightarrow> sk_step kvtyp rftyp rnd op cfg = Inr cfg' \<Longrightarrow> sk_reachable sctyp kvtyp rftyp rnd cfg'"

text \<open>Valid arguments.\<close>

fun sk_op_ok :: "('v, 'w) sk_config \<Rightarrow> sk_op \<Rightarrow> bool" where
  "sk_op_ok cfg (SkStart gi i) \<longleftrightarrow> gi < 3 \<and> i < sk_n cfg"
| "sk_op_ok cfg (SkShutdown gi i) \<longleftrightarrow> gi < 3 \<and> i < sk_n cfg"
| "sk_op_ok cfg (SkStartGroup gi) \<longleftrightarrow> gi < 3"
| "sk_op_ok cfg (SkShutdownGroup gi) \<longleftrightarrow> gi < 3"
| "sk_op_ok cfg SkMakeClient \<longleftrightarrow> sk_n cfg = 3"
| "sk_op_ok cfg (SkDeleteClient ck) \<longleftrightarrow> True"
| "sk_op_ok cfg (SkMakeEnd srv) \<longleftrightarrow> True"

text \<open>Complete groups, fresh names, groups of \<open>n\<close> servers.\<close>

definition sk_good :: "(nat \<Rightarrow> string) \<Rightarrow> nat \<Rightarrow> ('v, 'w) sk_config \<Rightarrow> bool" where
  "sk_good rnd n cfg \<longleftrightarrow> sk_full cfg \<and> sk_fresh rnd cfg \<and> sk_n cfg = n"

lemma sk_goodD:
  assumes "sk_good rnd n cfg"
  shows "sk_full cfg" and "sk_fresh rnd cfg" and "sk_n cfg = n" and "sk_inv (\<lambda>g. if g < 3 then {..<n} else {}) cfg"
    and "gi < 3 \<Longrightarrow> \<exists>gg. sk_group cfg gi = Some gg" and "n \<le> 3" and "\<exists>ctl. sk_ctl cfg = Some ctl"
proof -
  let ?X = "\<lambda>g :: nat. if g < 3 then {..<n} else {}"
  show good: "sk_full cfg" "sk_fresh rnd cfg" "sk_n cfg = n" using assms by (simp_all add: sk_good_def)
  show inv: "sk_inv ?X cfg" using good(1) unfolding sk_full_def good(3) by blast
  have gg: "\<exists>gg. sk_group cfg gi = Some gg" if "gi < 3" for gi using good(1) inv that by (simp add: sk_full_def sk_group_def sk_inv_def)
  show "gi < 3 \<Longrightarrow> \<exists>gg. sk_group cfg gi = Some gg" by (rule gg)
  show "\<exists>ctl. sk_ctl cfg = Some ctl" using inv by (auto simp: sk_inv_def)
  show "n \<le> 3"
  proof (rule ccontr)
    assume "\<not> n \<le> 3"
    obtain gg where gg0: "sk_group cfg 0 = Some gg" using gg [of 0] by auto
    obtain ctl where ok: "sk_group_ok (?X 0) cfg ctl 0 gg" by (rule sk_inv_group [OF inv gg0])
    then have "\<forall>i \<in> {..<n}. i < 3" by (simp add: sk_group_ok_def sk_names_ok_def)
    with \<open>\<not> n \<le> 3\<close> show False by (metis lessThan_iff less_irrefl not_le)
  qed
qed

lemma some_update: "xs ! g \<noteq> None \<Longrightarrow> xs[i := Some v] ! g \<noteq> None"
  by (cases "i < length xs") (auto simp: nth_list_update list_update_beyond)

lemma sk_good_Start:
  assumes "sk_good rnd n cfg" and "gi < 3" and "i < n"
  shows "\<exists>cfg'. sk_StartServer kvtyp rftyp rnd gi i cfg = Inr cfg' \<and> sk_good rnd n cfg'"
proof -
  let ?X = "\<lambda>g :: nat. if g < 3 then {..<n} else {}"
  note good = sk_goodD [OF assms(1)]
  obtain gg where gg: "sk_group cfg gi = Some gg" using good(5) assms(2) by blast
  have i: "i < sk_n cfg" "i < 3" using good(3,6) assms(3) by simp_all
  obtain cfg' where st: "sk_StartServer kvtyp rftyp rnd gi i cfg = Inr cfg'" and fresh: "sk_fresh rnd cfg'"
    using sk_Start_runs [OF good(4,2) gg i, of kvtyp rftyp] by blast
  note ok = sk_Start_ok [OF st good(4)]
  have "?X(gi := insert i (?X gi)) = ?X" using assms(2,3) by (auto simp: fun_eq_iff)
  with ok(6) have inv: "sk_inv ?X cfg'" by simp
  have "sk_groups cfg' ! g \<noteq> None" if "g < 3" for g
    by (rule sk_Start_form [OF st good(4)], erule sk_launch_form)
      (use that some_update [of "sk_groups cfg" g] good(1) in \<open>simp add: sk_full_def sk_put_def\<close>)
  then have "sk_full cfg'" by (intro sk_fullI [OF inv]) (use ok(4) good(3) in auto)
  with st fresh ok(4) good(3) show ?thesis by (auto simp: sk_good_def)
qed

lemma sk_good_Shutdown:
  assumes "sk_good rnd n cfg" and "gi < 3" and "i < n"
  shows "\<exists>cfg'. sk_ShutdownServer gi i cfg = Some cfg' \<and> sk_good rnd n cfg'"
proof -
  note good = sk_goodD [OF assms(1)]
  obtain gg where gg: "sk_group cfg gi = Some gg" using good(5) assms(2) by blast
  obtain cfg' where sd: "sk_ShutdownServer gi i cfg = Some cfg'" using sk_Shutdown_runs [OF good(4) gg] assms(2,3) by auto
  note ok = sk_Shutdown_ok [OF sd good(4)]
  have "sk_groups cfg' ! g \<noteq> None" if "g < 3" for g
    by (rule sk_Shutdown_form [OF sd good(4)]) (use that some_update [of "sk_groups cfg" g] good(1) in \<open>simp add: sk_full_def sk_put_def\<close>)
  then have "sk_full cfg'" by (intro sk_fullI [OF ok(1)]) (use ok(2) good(3) in auto)
  with sd ok(2) ok(3) [OF good(2)] good(3) show ?thesis by (auto simp: sk_good_def)
qed

text \<open>Every operation with valid arguments succeeds and keeps this.\<close>

lemma sk_good_step:
  assumes "sk_good rnd n cfg" and "sk_op_ok cfg op"
  shows "\<exists>cfg'. sk_step kvtyp rftyp rnd op cfg = Inr cfg' \<and> sk_good rnd n cfg'"
proof -
  note good = sk_goodD [OF assms(1)]
  show ?thesis
  proof (cases op)
    case (SkStart gi i)
    with sk_good_Start [OF assms(1), of gi i] assms(2) good(3) show ?thesis by simp
  next
    case (SkShutdown gi i)
    with sk_good_Shutdown [OF assms(1), of gi i] assms(2) good(3) show ?thesis by auto
  next
    case (SkStartGroup gi)
    with assms good(3) have "\<exists>cfg'. sk_StartGroup kvtyp rftyp rnd gi cfg = Inr cfg' \<and> sk_good rnd n cfg'"
      unfolding sk_StartGroup_def by (intro for_each_res_runs [OF sk_good_Start]) auto
    with SkStartGroup show ?thesis by simp
  next
    case (SkShutdownGroup gi)
    with assms good(3) have "\<exists>cfg'. sk_ShutdownGroup gi cfg = Some cfg' \<and> sk_good rnd n cfg'"
      unfolding sk_ShutdownGroup_def by (intro for_each_runs [OF sk_good_Shutdown]) auto
    with SkShutdownGroup show ?thesis by auto
  next
    case SkMakeClient
    obtain ctl where ctl: "sk_ctl cfg = Some ctl" using good(7) by blast
    from sk_makeClient_runs [OF good(1,2) ctl] SkMakeClient assms(2) obtain cfg' ck
      where mk: "sk_makeClient rnd ctl cfg = Inr (cfg', ck)" "sk_full cfg'" "sk_fresh rnd cfg'" "sk_n cfg' = n" using good(3) by auto
    with ctl SkMakeClient show ?thesis by (simp add: sk_good_def)
  next
    case (SkDeleteClient ck)
    have "sk_inv (\<lambda>g. if g < 3 then {..<n} else {}) (sk_deleteClient ck cfg)"
      by (rule sk_inv_frame [OF good(4)]) (simp_all add: sk_deleteClient_def sk_grows_def)
    then have "sk_full (sk_deleteClient ck cfg)" by (rule sk_fullI) (use good in \<open>simp_all add: sk_full_def sk_deleteClient_def\<close>)
    with SkDeleteClient good show ?thesis by (simp add: sk_good_def sk_fresh_def sk_deleteClient_def)
  next
    case (SkMakeEnd srv)
    obtain cfg' e where mk: "sk_make_end rnd srv cfg = Inr (cfg', e)" and fresh: "sk_fresh rnd cfg'" and grows: "sk_grows cfg cfg'"
      and sel: "sk_groups cfg' = sk_groups cfg" "nt_servers (sk_net cfg') = nt_servers (sk_net cfg)"
        "sk_kv_store cfg' = sk_kv_store cfg" "sk_raft_store cfg' = sk_raft_store cfg" by (rule sk_make_end_runs [OF good(2)])
    have "sk_inv (\<lambda>g. if g < 3 then {..<n} else {}) cfg'" by (rule sk_inv_frame [OF good(4) grows sel])
    then have "sk_full cfg'" by (rule sk_fullI) (use good grows sel(1) in \<open>simp_all add: sk_full_def sk_grows_def\<close>)
    with SkMakeEnd mk fresh grows good show ?thesis by (simp add: sk_good_def sk_grows_def)
  qed
qed

text \<open>Conversely, an operation that succeeds has valid arguments or, for groups without servers, does nothing.\<close>

lemma sk_step_valid:
  assumes "sk_good rnd n cfg" and "sk_step kvtyp rftyp rnd op cfg = Inr cfg'"
  shows "sk_op_ok cfg op \<or> cfg' = cfg"
proof -
  note good = sk_goodD [OF assms(1)]
  show ?thesis
  proof (cases op)
    case (SkStart gi i)
    with assms(2) sk_Start_ok(1,2) [OF _ good(4)] show ?thesis by simp
  next
    case (SkShutdown gi i)
    with assms(2) have sd: "sk_ShutdownServer gi i cfg = Some cfg'" by (simp add: panics_Inr_iff)
    have "gi < 3 \<and> i < sk_n cfg" by (rule sk_Shutdown_form [OF sd good(4)], rule sk_inv_group [OF good(4)]) auto
    with SkShutdown show ?thesis by simp
  next
    case (SkStartGroup gi)
    show ?thesis
    proof (cases "sk_n cfg")
      case 0
      with SkStartGroup assms(2) show ?thesis by (simp add: sk_StartGroup_def)
    next
      case (Suc k)
      with SkStartGroup assms(2) obtain c1 where "sk_StartServer kvtyp rftyp rnd gi 0 cfg = Inr c1"
        by (auto simp: sk_StartGroup_def upt_conv_Cons res_bind_Inr_iff simp del: upt_Suc)
      with SkStartGroup sk_Start_ok(1) [OF _ good(4)] show ?thesis by simp
    qed
  next
    case (SkShutdownGroup gi)
    show ?thesis
    proof (cases "sk_n cfg")
      case 0
      with SkShutdownGroup assms(2) show ?thesis by (simp add: sk_ShutdownGroup_def)
    next
      case (Suc k)
      with SkShutdownGroup assms(2) obtain c1 where sd: "sk_ShutdownServer gi 0 cfg = Some c1"
        by (auto simp: sk_ShutdownGroup_def upt_conv_Cons panics_Inr_iff bind_eq_Some_conv simp del: upt_Suc)
      have "gi < 3" by (rule sk_Shutdown_form [OF sd good(4)], rule sk_inv_group [OF good(4)]) auto
      with SkShutdownGroup show ?thesis by simp
    qed
  next
    case SkMakeClient
    obtain ctl where ctl: "sk_ctl cfg = Some ctl" using good(7) by blast
    with sk_makeClient_runs [OF good(1,2) ctl] SkMakeClient assms(2) good(3,6) show ?thesis by (auto split: if_splits)
  qed simp_all
qed

lemma sk_reachable_good:
  assumes "sk_reachable sctyp kvtyp rftyp rnd cfg" and "inj rnd"
  shows "sk_good rnd (sk_n cfg) cfg"
  using assms(1)
proof (induction rule: sk_reachable.induct)
  case (sk_reach_make n unreliable maxraftstate cfg)
  with sk_make_config_runs [OF assms(2), of n sctyp kvtyp rftyp unreliable maxraftstate] show ?case
    by (auto simp: sk_good_def split: if_splits)
next
  case (sk_reach_step cfg op cfg')
  show ?case
  proof (cases "cfg' = cfg")
    case False
    with sk_step_valid [OF sk_reach_step.IH sk_reach_step.hyps(2)] have "sk_op_ok cfg op" by simp
    with sk_good_step [OF sk_reach_step.IH this, of kvtyp rftyp] sk_reach_step.hyps(2) show ?thesis by (auto simp: sk_good_def)
  qed (use sk_reach_step.IH in simp)
qed

section \<open>What a group announces\<close>

lemma join_args_eq:
  assumes "sk_good rnd n cfg" and "\<forall>g \<in> set gis. g < 3"
  shows "join_args gis cfg =
    Some (\<lambda>gid. if \<exists>g \<in> set gis. gid = 100 + int g then Some (map (\<lambda>i. servername gid (int i)) [0..<n]) else None)"
proof -
  note good = sk_goodD [OF assms(1)]
  have gid: "\<exists>gg. sk_group cfg g = Some gg \<and> gg_gid gg = 100 + int g" if g: "g < 3" for g
  proof -
    obtain gg where gg: "sk_group cfg g = Some gg" using good(5) [OF g] by blast
    show ?thesis by (rule sk_inv_group [OF good(4) gg]) (simp add: sk_group_ok_def gg)
  qed
  have "for_each (\<lambda>g m. do {
       gg \<leftarrow> sk_group cfg g;
       let servernames = map (\<lambda>i. servername (gg_gid gg) (int i)) [0..<sk_n cfg];
       Some (m(gg_gid gg \<mapsto> servernames)) }) gis m =
     Some (\<lambda>gid. if \<exists>g \<in> set gis. gid = 100 + int g then Some (map (\<lambda>i. servername gid (int i)) [0..<n]) else m gid)" for m
    using assms(2)
  proof (induction gis arbitrary: m)
    case (Cons g gis)
    from gid [of g] Cons.prems obtain gg where gg: "sk_group cfg g = Some gg" "gg_gid gg = 100 + int g" by auto
    show ?case using Cons by (simp add: gg good(3) fun_eq_iff)
  qed simp
  then show ?thesis by (simp add: join_args_def)
qed

section \<open>The check of the logs\<close>

lemma for_each_res_check: "for_each_res (\<lambda>x _. f x) xs () = Inr () \<longleftrightarrow> (\<forall>x \<in> set xs. f x = Inr ())"
  by (induction xs) (auto simp: res_bind_Inr_iff)

text \<open>
  \<open>checklogs\<close> passes exactly when something is saved for every server and, with a limit, no Raft state is more than
  eight times as long as it, or, without one, no snapshot has been saved.
\<close>

lemma checklogs_iff:
  "checklogs cfg = Inr () \<longleftrightarrow> (\<forall>gi < sk_ngroups cfg. \<forall>i < sk_n cfg.
     \<exists>gg a ps. sk_group cfg gi = Some gg \<and> slice_get (gg_saved gg) i = Some (Some a) \<and> slice_get (sk_persister_store cfg) a = Some ps \<and>
       (if sk_maxraftstate cfg \<ge> 0 then int (RaftStateSize ps) \<le> 8 * sk_maxraftstate cfg else SnapshotSize ps = 0))"
proof -
  have "checklog cfg gi i = Inr () \<longleftrightarrow>
     (\<exists>gg a ps. sk_group cfg gi = Some gg \<and> slice_get (gg_saved gg) i = Some (Some a) \<and> slice_get (sk_persister_store cfg) a = Some ps \<and>
       (if sk_maxraftstate cfg \<ge> 0 then int (RaftStateSize ps) \<le> 8 * sk_maxraftstate cfg else SnapshotSize ps = 0))" for gi i
    by (auto simp: checklog_def res_bind_Inr_iff panics_Inr_iff bind_eq_Some_conv Let_def ReadSnapshot_def SnapshotSize_def split: if_splits) (metis not_le)
  then show ?thesis unfolding checklogs_def for_each_res_check by (simp only: set_upt atLeastLessThan_iff le0 simp_thms Ball_def)
qed

section \<open>Properties\<close>

text \<open>
  C26. The tester of the sharded store works for groups of exactly three servers: with more than three servers
  \<open>make_config\<close> panics, because \<open>mendnames\<close> has one element per controller and is indexed by server; with fewer
  it succeeds, but then \<open>makeClient\<close> panics, because a clerk has one name per server and stores one per controller.
  For three servers both succeed and the clerk has an end point to each controller.
\<close>

theorem sk_tester_size:
  assumes "inj rnd"
  shows "case sk_make_config sctyp kvtyp rftyp rnd n unreliable maxraftstate of
      Inl e \<Rightarrow> 3 < n \<and> e = GoPanic
    | Inr cfg \<Rightarrow> n \<le> 3 \<and> (\<exists>ctl. sk_ctl cfg = Some ctl \<and>
        (case sk_makeClient rnd ctl cfg of
           Inl e \<Rightarrow> n < 3 \<and> e = GoPanic
         | Inr (cfg', ck) \<Rightarrow> n = 3 \<and> (\<exists>names. sk_clerks cfg' ck = Some names \<and> length names = 3 \<and>
             (\<forall>j < 3. leads (sk_net cfg') (names ! j) (ct_names ctl ! j)))))"
proof (cases "n \<le> 3")
  case False
  then show ?thesis using sk_make_config_runs [OF assms, of n sctyp kvtyp rftyp unreliable maxraftstate] by simp
next
  case True
  then obtain cfg where mk: "sk_make_config sctyp kvtyp rftyp rnd n unreliable maxraftstate = Inr cfg"
    and cfg: "sk_full cfg" "sk_fresh rnd cfg" "sk_n cfg = n"
    using sk_make_config_runs [OF assms, of n sctyp kvtyp rftyp unreliable maxraftstate] by auto
  then have "sk_good rnd n cfg" by (simp add: sk_good_def)
  then obtain ctl where ctl: "sk_ctl cfg = Some ctl" using sk_goodD(7) by blast
  with sk_makeClient_runs [OF cfg(1,2) ctl] True mk cfg(3) show ?thesis by (auto split: if_splits)
qed

text \<open>
  C12. Joining announces the servers that serve: in every state that the tester can reach, the argument of \<open>Join\<close> for
  groups \<open>gis\<close> has exactly their identifiers, each with the name of every server of the group; no name belongs to two
  servers; and an end point that \<open>make_end\<close> makes for such a name is enabled, leads to it, and reaches a server
  exactly when that server is running.
\<close>

theorem sk_join_serves:
  assumes "sk_reachable sctyp kvtyp rftyp rnd cfg" and "inj rnd" and "\<forall>g \<in> set gis. g < 3"
  shows "\<exists>m. join_args gis cfg = Some m \<and> dom m = (\<lambda>g. 100 + int g) ` set gis \<and>
    (\<forall>g \<in> set gis. \<exists>names. m (100 + int g) = Some names \<and> length names = sk_n cfg \<and>
      (\<forall>i < sk_n cfg. (\<forall>g' \<in> set gis. \<forall>i' < sk_n cfg. the (m (100 + int g')) ! i' = names ! i \<longrightarrow> g' = g \<and> i' = i) \<and>
        (\<exists>cfg' e. sk_make_end rnd (names ! i) cfg = Inr (cfg', e) \<and>
          (let info = readEndnameInfo (sk_net cfg') (end_name e) in
             ei_enabled info \<and> ei_servername info = Some (names ! i) \<and> (ei_server info \<noteq> None \<longleftrightarrow> sk_running cfg g i)))))"
proof -
  let ?m = "\<lambda>gid. if \<exists>g \<in> set gis. gid = 100 + int g then Some (map (\<lambda>i. servername gid (int i)) [0..<sk_n cfg]) else None"
  have good: "sk_good rnd (sk_n cfg) cfg" by (rule sk_reachable_good [OF assms(1,2)])
  note D = sk_goodD [OF good]
  have m: "?m (100 + int g) = Some (map (\<lambda>i. servername (100 + int g) (int i)) [0..<sk_n cfg])" if "g \<in> set gis" for g using that by auto
  have reach: "\<exists>cfg' e. sk_make_end rnd (servername (100 + int g) (int i)) cfg = Inr (cfg', e) \<and>
      (let info = readEndnameInfo (sk_net cfg') (end_name e) in
         ei_enabled info \<and> ei_servername info = Some (servername (100 + int g) (int i)) \<and> (ei_server info \<noteq> None \<longleftrightarrow> sk_running cfg g i))"
    if "g \<in> set gis" "i < sk_n cfg" for g i
  proof -
    let ?s = "servername (100 + int g) (int i)"
    obtain cfg' e where mk: "sk_make_end rnd ?s cfg = Inr (cfg', e)" and srv: "nt_servers (sk_net cfg') = nt_servers (sk_net cfg)"
      and con: "nt_connections (sk_net cfg') (end_name e) = Some (Some ?s)" and on: "end_on (sk_net cfg') (end_name e)"
      by (rule sk_make_end_runs [OF D(2)])
    have "map_read None (nt_servers (sk_net cfg)) ?s \<noteq> None \<longleftrightarrow> sk_running cfg g i"
      using D(4) that assms(3) unfolding sk_inv_def by blast
    then show ?thesis using mk srv con on by (simp add: readEndnameInfo_def end_on_def map_read_def Let_def)
  qed
  show ?thesis
    by (rule exI [of _ ?m]) (use join_args_eq [OF good assms(3)] m reach in \<open>auto simp: dom_def\<close>)
qed


text \<open>
  What \<open>ShutdownServer\<close> leaves on: an end point that the server made with \<open>make_end\<close> since it started stays enabled, so
  that requests of the old instance still go out.
\<close>

lemma sk_Shutdown_made_end:
  assumes "sk_reachable sctyp kvtyp rftyp rnd cfg" and "inj rnd" and "sk_make_end rnd srv cfg = Inr (cfg1, e)"
    and "sk_ShutdownServer gi i cfg1 = Some down"
  shows "ei_enabled (readEndnameInfo (sk_net down) (end_name e))"
proof -
  have good: "sk_good rnd (sk_n cfg) cfg" by (rule sk_reachable_good [OF assms(1,2)])
  have good1: "sk_good rnd (sk_n cfg) cfg1" using sk_good_step [OF good, of "SkMakeEnd srv"] assms(3) by simp
  note D = sk_goodD [OF good] and D1 = sk_goodD [OF good1]
  obtain cfg' e' where mk: "sk_make_end rnd srv cfg = Inr (cfg', e')" and groups: "sk_groups cfg' = sk_groups cfg"
    and on: "end_on (sk_net cfg') (end_name e')" and new: "end_name e' \<notin> dom (nt_ends (sk_net cfg))" by (rule sk_make_end_runs [OF D(2)])
  with assms(3) have eq: "cfg' = cfg1" "e' = e" by simp_all
  obtain gg where gg: "sk_group cfg1 gi = Some gg" and off: "\<And>e. end_on (sk_net down) e \<longleftrightarrow>
      e \<notin> set (take (sk_n cfg1) (gg_endnames gg ! i)) \<union> set (gg_mendnames gg ! i) \<and> end_on (sk_net cfg1) e"
    using sk_Shutdown_ok(7) [OF assms(4) D1(4)] by blast
  have i: "gi < 3" "i < sk_n cfg" by (rule sk_Shutdown_form [OF assms(4) D1(4)], rule sk_inv_group [OF D1(4)], use D1(3) in auto)+
  have gg0: "sk_group cfg gi = Some gg" using gg groups eq(1) by (simp add: sk_group_def)
  obtain ctl where "sk_group_ok (if gi < 3 then {..<sk_n cfg} else {}) cfg ctl gi gg" by (rule sk_inv_group [OF D(4) gg0])
  then have "sk_names_ok {..<sk_n cfg} (sk_n cfg) (sk_net cfg) ctl gg" using i(1) by (simp add: sk_group_ok_def)
  then have "length (gg_endnames gg ! i) = sk_n cfg \<and> length (gg_mendnames gg ! i) = 3 \<and>
      (\<forall>j < sk_n cfg. gg_endnames gg ! i ! j \<in> dom (nt_ends (sk_net cfg))) \<and> (\<forall>j < 3. gg_mendnames gg ! i ! j \<in> dom (nt_ends (sk_net cfg)))"
    using i(2) unfolding sk_names_ok_def leads_def by blast
  then have "set (gg_endnames gg ! i) \<union> set (gg_mendnames gg ! i) \<subseteq> dom (nt_ends (sk_net cfg))"
    by (metis UnE in_set_conv_nth subsetI)
  with new eq have "end_name e \<notin> set (take (sk_n cfg1) (gg_endnames gg ! i)) \<union> set (gg_mendnames gg ! i)" by (auto dest: in_set_takeD)
  with off on eq show ?thesis by (simp add: readEndnameInfo_def end_on_def Let_def)
qed

section \<open>Witnesses\<close>

text \<open>The random strings are the decimal numerals.\<close>

lemma inj_Itoa: "inj Itoa"
  by (simp add: inj_def)

lemma ex_sk_reach:
  obtains cfg :: "(unit, unit) sk_config" where "sk_reachable [] [] [] Itoa cfg" and "sk_n cfg = 3"
  using sk_make_config_runs [OF inj_Itoa, of 3 "[] :: (unit, unit) Method list" "[]" "[]" False "-1"]
    sk_reach_make [of "[] :: (unit, unit) Method list" "[]" "[]" Itoa 3 False "-1"] by auto

theorem sk_tester_size_witness:
  "sk_make_config [] [] [] Itoa 4 False (-1) = (Inl GoPanic :: go_error + (unit, unit) sk_config) \<and>
   (\<exists>cfg :: (unit, unit) sk_config. sk_make_config [] [] [] Itoa 2 False (-1) = Inr cfg \<and>
      (\<exists>ctl. sk_ctl cfg = Some ctl \<and> sk_makeClient Itoa ctl cfg = Inl GoPanic))"
  using sk_tester_size [OF inj_Itoa, where n = 4 and sctyp = "[] :: (unit, unit) Method list" and kvtyp = "[]" and rftyp = "[]" and
      unreliable = False and maxraftstate = "-1"]
    sk_tester_size [OF inj_Itoa, where n = 2 and sctyp = "[] :: (unit, unit) Method list" and kvtyp = "[]" and rftyp = "[]" and
      unreliable = False and maxraftstate = "-1"]
  by (auto split: sum.splits) (metis obj_sumE old.prod.exhaust)

theorem sk_join_serves_witness:
  "\<exists>cfg :: (unit, unit) sk_config. \<exists>m. join_args [0, 2] cfg = Some m \<and> dom m = {100, 102}"
proof -
  obtain cfg :: "(unit, unit) sk_config" where cfg: "sk_reachable [] [] [] Itoa cfg" by (rule ex_sk_reach)
  have "\<forall>g \<in> set [0, 2]. g < (3 :: nat)" by simp
  from sk_join_serves [OF cfg inj_Itoa this] show ?thesis by fastforce
qed


end
