(* ===== verification/Mr_Processes.thy ===== *)
theory Mr_Processes
  imports MapReduce
begin

text \<open>
  The MapReduce programs that look at processes and files. The applications \<open>mrapps/jobcount.go\<close>, \<open>mrapps/mtiming.go\<close> and
  \<open>mrapps/rtiming.go\<close> leave a file in the working directory for each call or for each worker and count such files; the
  coordinator and the worker of \<open>mr\<close> are the skeletons that the repository has, with the example RPC between
  them, and \<open>main/mrcoordinator.go\<close> and \<open>main/mrworker.go\<close> start them.

  The working directory is the list of the names of its files, in the order in which they are read; whether an operation of the
  system succeeds, which processes are alive, the formatted time, and what a plugin or a socket gives are arguments. File names
  are ASCII, as those that these programs write.

  The theory shows that \<open>jobcount\<close> reports the number of calls of \<open>Map\<close>, that the timing applications report the number
  of live workers that are in the phase, whatever order their steps have and whichever of them crash, that the
  example RPC prints 100, and that the coordinator of the skeleton never ends.
\<close>

section \<open>Files and processes\<close>

definition WriteFile :: "bool \<Rightarrow> string \<Rightarrow> string list \<Rightarrow> string list option" where
  "WriteFile ok f dir = (if ok then Some (if f \<in> set dir then dir else dir @ [f]) else None)"

definition Remove :: "string \<Rightarrow> string list \<Rightarrow> string list option" where
  "Remove f dir = (if f \<in> set dir then Some (removeAll f dir) else None)"

text \<open>
  \<open>fmt.Sscanf\<close> with a text that is followed by one verb \<open>%d\<close>: white space before the number is skipped, but a newline is not;
  what follows the number is ignored; a number that does not fit into an \<open>int\<close> is an error.
\<close>

definition scan_space :: "char \<Rightarrow> bool" where
  "scan_space c \<longleftrightarrow> (of_char c :: nat) \<in> {9, 11, 12, 13, 32}"

definition scan_int :: "string \<Rightarrow> int option" where
  "scan_int s =
     (let r = dropWhile scan_space s;
          neg = (r \<noteq> [] \<and> hd r = CHR ''-'');
          t = (if r \<noteq> [] \<and> (hd r = CHR ''-'' \<or> hd r = CHR ''+'') then tl r else r);
          ds = takeWhile is_digit t;
          v = (if neg then - int (digits_value ds) else int (digits_value ds))
      in if ds \<noteq> [] \<and> - (2 ^ 63) \<le> v \<and> v < 2 ^ 63 then Some v else None)"

definition Sscanf_d :: "string \<Rightarrow> string \<Rightarrow> int option" where
  "Sscanf_d pat name = (if take (length pat) name = pat then scan_int (drop (length pat) name) else None)"

section \<open>mtiming and rtiming\<close>

record fs_ok =
  fs_write :: bool
  fs_open :: bool
  fs_read :: bool

definition np_pattern :: "string \<Rightarrow> string" where
  "np_pattern phase = ''mr-worker-'' @ phase @ ''-''"

definition np_filename :: "string \<Rightarrow> int \<Rightarrow> string" where
  "np_filename phase pid = ''mr-worker-'' @ phase @ ''-'' @ Itoa_int pid"

text \<open>The three parts of \<open>nparallel\<close>: up to the file, the scan, and what follows the pause.\<close>

definition np_write :: "fs_ok \<Rightarrow> string \<Rightarrow> int \<Rightarrow> string list \<Rightarrow> go_error + string list" where
  "np_write ok phase pid dir = panics (WriteFile (fs_write ok) (np_filename phase pid) dir)"

definition np_counts :: "(int \<Rightarrow> bool) \<Rightarrow> string \<Rightarrow> string \<Rightarrow> bool" where
  "np_counts alive phase name = (case Sscanf_d (np_pattern phase) name of Some xpid \<Rightarrow> alive xpid | None \<Rightarrow> False)"

definition np_scan :: "fs_ok \<Rightarrow> (int \<Rightarrow> bool) \<Rightarrow> string \<Rightarrow> string list \<Rightarrow> go_error + nat" where
  "np_scan ok alive phase dir =
     (if \<not> fs_open ok \<or> \<not> fs_read ok then Inl GoPanic
      else Inr (fold (\<lambda>name ret. if np_counts alive phase name then ret + 1 else ret) (take 1000000 dir) 0))"

definition np_leave :: "string \<Rightarrow> int \<Rightarrow> string list \<Rightarrow> go_error + string list" where
  "np_leave phase pid dir = panics (Remove (np_filename phase pid) dir)"

text \<open>\<open>others\<close> is what other processes do to the directory, before the scan and during the pause.\<close>

definition nparallel ::
  "fs_ok \<Rightarrow> (int \<Rightarrow> bool) \<Rightarrow> (nat \<Rightarrow> string list \<Rightarrow> string list) \<Rightarrow> string \<Rightarrow> int \<Rightarrow> string list \<Rightarrow> go_error + string list \<times> nat" where
  "nparallel ok alive others phase pid dir =
     res_bind (np_write ok phase pid dir) (\<lambda>dir1.
     let dir2 = others 0 dir1 in
     res_bind (np_scan ok alive phase dir2) (\<lambda>ret.
     res_bind (np_leave phase pid (others 1 dir2)) (\<lambda>dir3. Inr (dir3, ret))))"

definition mtiming_Map ::
  "fs_ok \<Rightarrow> (int \<Rightarrow> bool) \<Rightarrow> (nat \<Rightarrow> string list \<Rightarrow> string list) \<Rightarrow> string \<Rightarrow> int \<Rightarrow> string \<Rightarrow> string \<Rightarrow> string list \<Rightarrow>
   go_error + string list \<times> KeyValue list" where
  "mtiming_Map ok alive others ts pid filename contents dir =
     res_bind (nparallel ok alive others ''map'' pid dir) (\<lambda>(dir', n).
       Inr (dir', [\<lparr>mr_Key = ''times-'' @ Itoa_int pid, mr_Value = ts\<rparr>, \<lparr>mr_Key = ''parallel-'' @ Itoa_int pid, mr_Value = Itoa n\<rparr>]))"

definition mtiming_Reduce :: "string \<Rightarrow> string list \<Rightarrow> string" where
  "mtiming_Reduce key values = (let vv = sort (go_copy (replicate (length values) []) values) in Join vv '' '')"

text \<open>\<open>rtiming.go\<close> has a copy of \<open>nparallel\<close>.\<close>

definition rtiming_nparallel ::
  "fs_ok \<Rightarrow> (int \<Rightarrow> bool) \<Rightarrow> (nat \<Rightarrow> string list \<Rightarrow> string list) \<Rightarrow> string \<Rightarrow> int \<Rightarrow> string list \<Rightarrow> go_error + string list \<times> nat" where
  "rtiming_nparallel ok alive others phase pid dir = nparallel ok alive others phase pid dir"

definition rtiming_Map :: "string \<Rightarrow> string \<Rightarrow> KeyValue list" where
  "rtiming_Map filename contents = map (\<lambda>k. \<lparr>mr_Key = [k], mr_Value = ''1''\<rparr>) ''abcdefghij''"

definition rtiming_Reduce ::
  "fs_ok \<Rightarrow> (int \<Rightarrow> bool) \<Rightarrow> (nat \<Rightarrow> string list \<Rightarrow> string list) \<Rightarrow> int \<Rightarrow> string \<Rightarrow> string list \<Rightarrow> string list \<Rightarrow>
   go_error + string list \<times> string" where
  "rtiming_Reduce ok alive others pid key values dir =
     res_bind (rtiming_nparallel ok alive others ''reduce'' pid dir) (\<lambda>(dir', n). Inr (dir', Itoa n))"

section \<open>jobcount\<close>

definition job_filename :: "int \<Rightarrow> int \<Rightarrow> string" where
  "job_filename me cnt = ''mr-worker-jobcount-'' @ Itoa_int me @ ''-'' @ Itoa_int cnt"

definition jobcount_Map :: "bool \<Rightarrow> int \<Rightarrow> int \<Rightarrow> string list \<Rightarrow> go_error + int \<times> string list \<times> KeyValue list" where
  "jobcount_Map ok me cnt dir =
     (let f = job_filename me cnt; cnt' = cnt + 1 in
      res_bind (panics (WriteFile ok f dir)) (\<lambda>dir'. Inr (cnt', dir', [\<lparr>mr_Key = ''a'', mr_Value = ''x''\<rparr>])))"

definition is_job :: "string \<Rightarrow> bool" where
  "is_job name \<longleftrightarrow> take (length ''mr-worker-jobcount'') name = ''mr-worker-jobcount''"

definition jobcount_Reduce :: "bool \<Rightarrow> string \<Rightarrow> string list \<Rightarrow> string list \<Rightarrow> go_error + string" where
  "jobcount_Reduce ok key values dir =
     (if \<not> ok then Inl GoPanic
      else Inr (Itoa (fold (\<lambda>f invocations. if is_job f then invocations + 1 else invocations) dir 0)))"

section \<open>The skeleton of coordinator and worker\<close>

record ExampleArgs =
  ea_X :: "64 word"

record ExampleReply =
  er_Y :: "64 word"

datatype Coordinator = Coordinator

definition Example :: "Coordinator \<Rightarrow> ExampleArgs \<Rightarrow> ExampleReply \<Rightarrow> ExampleReply" where
  "Example c args reply = reply\<lparr>er_Y := ea_X args + 1\<rparr>"

definition coordinatorSock :: "int \<Rightarrow> string" where
  "coordinatorSock uid = ''/var/tmp/5840-mr-'' @ Itoa_int uid"

definition Coordinator_server :: "(string \<Rightarrow> bool) \<Rightarrow> int \<Rightarrow> go_error + unit" where
  "Coordinator_server listen uid = (if listen (coordinatorSock uid) then Inr () else Inl LogFatal)"

definition Done :: "Coordinator \<Rightarrow> bool" where
  "Done c = False"

definition MakeCoordinator :: "(string \<Rightarrow> bool) \<Rightarrow> int \<Rightarrow> string list \<Rightarrow> int \<Rightarrow> go_error + Coordinator" where
  "MakeCoordinator listen uid files nReduce = res_bind (Coordinator_server listen uid) (\<lambda>_. Inr Coordinator)"

definition Worker :: "(string \<Rightarrow> string \<Rightarrow> KeyValue list) \<Rightarrow> (string \<Rightarrow> string list \<Rightarrow> string) \<Rightarrow> unit" where
  "Worker mapf reducef = ()"

text \<open>
  \<open>dial\<close> is the connection to the socket: \<open>None\<close> when it cannot be made, else what a call of a method returns, where
  \<open>None\<close> is an error.
\<close>

definition call :: "(string \<Rightarrow> (string \<Rightarrow> 'a \<Rightarrow> 'r \<Rightarrow> 'r option) option) \<Rightarrow> int \<Rightarrow> string \<Rightarrow> 'a \<Rightarrow> 'r \<Rightarrow> go_error + bool \<times> 'r" where
  "call dial uid rpcname args reply =
     (case dial (coordinatorSock uid) of
        None \<Rightarrow> Inl LogFatal
      | Some c \<Rightarrow> (case c rpcname args reply of Some reply' \<Rightarrow> Inr (True, reply') | None \<Rightarrow> Inr (False, reply)))"

definition CallExample ::
  "(string \<Rightarrow> (string \<Rightarrow> ExampleArgs \<Rightarrow> ExampleReply \<Rightarrow> ExampleReply option) option) \<Rightarrow> int \<Rightarrow> go_error + string" where
  "CallExample dial uid =
     (let args = \<lparr>ea_X = 99\<rparr>; reply = \<lparr>er_Y = 0\<rparr> in
      res_bind (call dial uid ''Coordinator.Example'' args reply) (\<lambda>(ok, reply').
        Inr (if ok then ''reply.Y '' @ Itoa_int (sint (er_Y reply')) @ [CHR 0x0A] else ''call failed!'' @ [CHR 0x0A])))"

section \<open>The commands\<close>

text \<open>
  The loop of \<open>mrcoordinator\<close>: \<open>done t\<close> is what its \<open>t\<close>-th call of \<open>Done\<close> returns; the value is the number of pauses, with the one that
  follows the loop.
\<close>

partial_function (option) wait_done :: "(nat \<Rightarrow> bool) \<Rightarrow> nat \<Rightarrow> nat option" where
  "wait_done ready t = (if ready t = False then wait_done ready (t + 1) else Some (t + 1))"

datatype cmd_exit = CmdUsage | CmdFailed go_error | CmdReturns | CmdRuns

definition mrcoordinator :: "(string \<Rightarrow> bool) \<Rightarrow> int \<Rightarrow> string list \<Rightarrow> cmd_exit" where
  "mrcoordinator listen uid args =
     (if length args < 2 then CmdUsage
      else case MakeCoordinator listen uid (drop 1 args) 10 of
        Inl e \<Rightarrow> CmdFailed e
      | Inr m \<Rightarrow> (case wait_done (\<lambda>_. Done m) 0 of Some _ \<Rightarrow> CmdReturns | None \<Rightarrow> CmdRuns))"

text \<open>A plugin gives for a name nothing, a function of the expected type, or something else.\<close>

datatype 'f symbol = NoSymbol | OtherType | Symbol 'f

record plugin =
  pl_Map :: "(string \<Rightarrow> string \<Rightarrow> KeyValue list) symbol"
  pl_Reduce :: "(string \<Rightarrow> string list \<Rightarrow> string) symbol"

definition loadPlugin ::
  "(string \<Rightarrow> plugin option) \<Rightarrow> string \<Rightarrow> go_error + (string \<Rightarrow> string \<Rightarrow> KeyValue list) \<times> (string \<Rightarrow> string list \<Rightarrow> string)" where
  "loadPlugin open_plugin filename =
     (case open_plugin filename of
        None \<Rightarrow> Inl LogFatal
      | Some p \<Rightarrow>
          (case pl_Map p of
             NoSymbol \<Rightarrow> Inl LogFatal
           | OtherType \<Rightarrow> Inl GoPanic
           | Symbol mapf \<Rightarrow>
               (case pl_Reduce p of
                  NoSymbol \<Rightarrow> Inl LogFatal
                | OtherType \<Rightarrow> Inl GoPanic
                | Symbol reducef \<Rightarrow> Inr (mapf, reducef))))"

text \<open>\<open>mrworker.go\<close> has a copy of the function. The whole of \<open>mrsequential.go\<close>, with the plugin.\<close>

definition mrworker_loadPlugin ::
  "(string \<Rightarrow> plugin option) \<Rightarrow> string \<Rightarrow> go_error + (string \<Rightarrow> string \<Rightarrow> KeyValue list) \<times> (string \<Rightarrow> string list \<Rightarrow> string)" where
  "mrworker_loadPlugin open_plugin filename = loadPlugin open_plugin filename"

definition mrsequential_main ::
  "(KeyValue list \<Rightarrow> KeyValue list) \<Rightarrow> (string \<Rightarrow> plugin option) \<Rightarrow> files \<Rightarrow> string list \<Rightarrow> mr_exit" where
  "mrsequential_main srt open_plugin fs args =
     (if length args < 3 then Usage
      else case loadPlugin open_plugin (args ! 1) of
        Inl e \<Rightarrow> Failed e
      | Inr (mapf, reducef) \<Rightarrow> mrsequential srt mapf reducef fs args)"

definition mrworker :: "(string \<Rightarrow> plugin option) \<Rightarrow> string list \<Rightarrow> cmd_exit" where
  "mrworker open_plugin args =
     (if length args \<noteq> 2 then CmdUsage
      else case mrworker_loadPlugin open_plugin (args ! 1) of
        Inl e \<Rightarrow> CmdFailed e
      | Inr (mapf, reducef) \<Rightarrow> (case Worker mapf reducef of () \<Rightarrow> CmdReturns))"

section \<open>Reading a name back\<close>

lemma scan_int_Itoa:
  assumes "0 \<le> pid" and "pid < 2 ^ 63"
  shows "scan_int (Itoa_int pid) = Some pid"
proof -
  let ?s = "Itoa (nat pid)"
  have digits: "?s \<noteq> []" "\<forall>c \<in> set ?s. is_digit c" using Itoa_digits [of "nat pid"] by (auto simp: list_all_iff)
  then have hd: "is_digit (hd ?s)" by simp
  have "\<not> scan_space (hd ?s)" using hd by (auto simp: is_digit_def scan_space_def)
  then have drop: "dropWhile scan_space ?s = ?s" using digits(1) by (cases ?s) auto
  have sign: "hd ?s \<noteq> CHR ''-''" "hd ?s \<noteq> CHR ''+''" using hd by (auto simp: is_digit_def)
  have take: "takeWhile is_digit ?s = ?s" using digits(2) by (simp add: takeWhile_eq_all_conv)
  show ?thesis using sign digits(1) assms by (simp add: scan_int_def Itoa_int_def Let_def drop take del: takeWhile_eq_all_conv)
qed

lemma Sscanf_filename [simp]:
  "0 \<le> pid \<Longrightarrow> pid < 2 ^ 63 \<Longrightarrow> Sscanf_d (np_pattern phase) (np_filename phase pid) = Some pid"
  by (simp add: Sscanf_d_def np_pattern_def np_filename_def scan_int_Itoa)

lemma np_filename_inj [simp]: "np_filename phase p = np_filename phase q \<longleftrightarrow> p = q"
  by (simp add: np_filename_def)

lemma job_filename_inj [simp]: "job_filename p c = job_filename q d \<longleftrightarrow> p = q \<and> c = d"
  using Itoa_int_prefix [of p "Itoa_int c" q "Itoa_int d"] by (auto simp: job_filename_def)

lemma is_job_filename [simp]: "is_job (job_filename p c)"
  by (simp add: is_job_def job_filename_def)

lemma fold_count: "fold (\<lambda>x n. if P x then n + 1 else n) xs (n :: nat) = n + length (filter P xs)"
  by (induction xs arbitrary: n) auto

section \<open>Workers in a phase\<close>

text \<open>
  Workers enter the phase, scan the directory and leave again, in any order; a live worker can crash at any time, new
  processes appear, with a number of a process that left no file, and files appear that are not of the phase.
\<close>

datatype np_pc = NpOut | NpWritten | NpScanned nat

record np_state =
  nps_dir :: "string list"
  nps_alive :: "int set"
  nps_pc :: "int \<Rightarrow> np_pc"

definition fs_fine :: fs_ok where
  "fs_fine = \<lparr>fs_write = True, fs_open = True, fs_read = True\<rparr>"

inductive np_reachable :: "string \<Rightarrow> np_state \<Rightarrow> bool" for phase where
  np_init: "\<forall>f \<in> set dir. Sscanf_d (np_pattern phase) f = None \<Longrightarrow> distinct dir \<Longrightarrow>
    np_reachable phase \<lparr>nps_dir = dir, nps_alive = {}, nps_pc = \<lambda>_. NpOut\<rparr>"
| np_born: "np_reachable phase st \<Longrightarrow> 0 \<le> pid \<Longrightarrow> pid < 2 ^ 63 \<Longrightarrow> nps_pc st pid = NpOut \<Longrightarrow>
    np_reachable phase (st\<lparr>nps_alive := insert pid (nps_alive st)\<rparr>)"
| np_enter: "np_reachable phase st \<Longrightarrow> pid \<in> nps_alive st \<Longrightarrow> nps_pc st pid = NpOut \<Longrightarrow>
    np_write fs_fine phase pid (nps_dir st) = Inr dir \<Longrightarrow>
    np_reachable phase (st\<lparr>nps_dir := dir, nps_pc := (nps_pc st)(pid := NpWritten)\<rparr>)"
| np_count: "np_reachable phase st \<Longrightarrow> pid \<in> nps_alive st \<Longrightarrow> nps_pc st pid = NpWritten \<Longrightarrow>
    np_scan fs_fine (\<lambda>p. p \<in> nps_alive st) phase (nps_dir st) = Inr n \<Longrightarrow>
    np_reachable phase (st\<lparr>nps_pc := (nps_pc st)(pid := NpScanned n)\<rparr>)"
| np_exit: "np_reachable phase st \<Longrightarrow> pid \<in> nps_alive st \<Longrightarrow> nps_pc st pid = NpScanned n \<Longrightarrow>
    np_leave phase pid (nps_dir st) = Inr dir \<Longrightarrow>
    np_reachable phase (st\<lparr>nps_dir := dir, nps_pc := (nps_pc st)(pid := NpOut)\<rparr>)"
| np_crash: "np_reachable phase st \<Longrightarrow> np_reachable phase (st\<lparr>nps_alive := nps_alive st - {pid}\<rparr>)"
| np_file: "np_reachable phase st \<Longrightarrow> Sscanf_d (np_pattern phase) f = None \<Longrightarrow> f \<notin> set (nps_dir st) \<Longrightarrow>
    np_reachable phase (st\<lparr>nps_dir := nps_dir st @ [f]\<rparr>)"

definition np_inv :: "string \<Rightarrow> np_state \<Rightarrow> bool" where
  "np_inv phase st \<longleftrightarrow> distinct (nps_dir st) \<and> (\<forall>p \<in> nps_alive st. 0 \<le> p \<and> p < 2 ^ 63) \<and>
     (\<forall>p. nps_pc st p \<noteq> NpOut \<longrightarrow> 0 \<le> p \<and> p < 2 ^ 63 \<and> np_filename phase p \<in> set (nps_dir st)) \<and>
     (\<forall>f \<in> set (nps_dir st). Sscanf_d (np_pattern phase) f = None \<or> (\<exists>p. f = np_filename phase p \<and> nps_pc st p \<noteq> NpOut))"

lemma np_reachable_inv: "np_reachable phase st \<Longrightarrow> np_inv phase st"
proof (induction rule: np_reachable.induct)
  case (np_enter st pid dir)
  then show ?case by (auto simp: np_inv_def np_write_def WriteFile_def fs_fine_def panics_Inr_iff split: if_splits)
next
  case (np_exit st pid n dir)
  then have dir: "dir = removeAll (np_filename phase pid) (nps_dir st)" and inv: "np_inv phase st"
    by (auto simp: np_leave_def Remove_def panics_Inr_iff split: if_splits)
  have "Sscanf_d (np_pattern phase) f = None \<or> (\<exists>p. f = np_filename phase p \<and> p \<noteq> pid \<and> nps_pc st p \<noteq> NpOut)" if "f \<in> set dir" for f
    using inv that unfolding dir np_inv_def by auto
  then show ?case using inv unfolding np_inv_def by (auto simp: dir distinct_removeAll)
next
  case (np_count st pid n)
  have "((nps_pc st)(pid := NpScanned n)) p \<noteq> NpOut \<longleftrightarrow> nps_pc st p \<noteq> NpOut" for p using np_count by simp
  with np_count.IH show ?case by (simp add: np_inv_def del: fun_upd_apply)
qed (auto simp: np_inv_def)


section \<open>Calls of Map in jobcount\<close>

text \<open>The calls of \<open>Map\<close> in the order of their files, by their processes; every process has its own \<open>count\<close>.\<close>

fun jobcount_run :: "int list \<Rightarrow> (int \<Rightarrow> int) \<times> string list \<Rightarrow> go_error + (int \<Rightarrow> int) \<times> string list" where
  "jobcount_run [] st = Inr st"
| "jobcount_run (me # pids) (counts, dir) =
     res_bind (jobcount_Map True me (counts me) dir) (\<lambda>(c, dir', _). jobcount_run pids (counts(me := c), dir'))"

lemma jobcount_run_files:
  assumes "\<forall>f \<in> set dir. is_job f \<longrightarrow> (\<exists>p c. f = job_filename p c \<and> c < counts p)"
  shows "\<exists>counts' dir'. jobcount_run pids (counts, dir) = Inr (counts', dir') \<and>
     length (filter is_job dir') = length (filter is_job dir) + length pids"
  using assms
proof (induction pids arbitrary: counts dir)
  case (Cons me pids)
  let ?f = "job_filename me (counts me)" and ?counts = "counts(me := counts me + 1)"
  have new: "?f \<notin> set dir" using Cons.prems by fastforce
  have "\<exists>p c. f = job_filename p c \<and> c < ?counts p" if "f \<in> set (dir @ [?f])" "is_job f" for f
  proof (cases "f = ?f")
    case False
    with that Cons.prems obtain p c where "f = job_filename p c" "c < counts p" by auto
    then show ?thesis by (intro exI [of _ p] exI [of _ c]) auto
  qed auto
  from Cons.IH [of "dir @ [?f]" ?counts] this obtain counts' dir' where "jobcount_run pids (?counts, dir @ [?f]) = Inr (counts', dir')"
    "length (filter is_job dir') = length (filter is_job (dir @ [?f])) + length pids" by blast
  with new show ?case by (simp add: jobcount_Map_def WriteFile_def)
qed simp

text \<open>
  C37. \<open>jobcount\<close> counts: after any sequence of calls of \<open>Map\<close> by any processes, in a directory that had no file of an
  earlier run, \<open>Reduce\<close> returns the number of these calls.
\<close>

theorem jobcount_counts:
  assumes "\<forall>f \<in> set dir. \<not> is_job f"
  shows "\<exists>counts dir'. jobcount_run pids (\<lambda>_. 0, dir) = Inr (counts, dir') \<and>
     jobcount_Reduce True key values dir' = Inr (Itoa (length pids))"
proof -
  have "filter is_job dir = []" using assms by (simp add: filter_empty_conv)
  then show ?thesis using jobcount_run_files [of dir "\<lambda>_. 0" pids] assms
    by (auto simp: jobcount_Reduce_def fold_count [simplified])
qed

section \<open>The skeleton\<close>

lemma wait_done_Some: "wait_done ready t = Some y \<Longrightarrow> \<exists>t'. ready t'"
  by (erule wait_done.raw_induct [where P = "\<lambda>ready t y. \<exists>t'. ready t'", rotated]) (auto split: if_splits)

text \<open>The coordinator of the skeleton waits for ever, because \<open>Done\<close> never returns true.\<close>

lemma mrcoordinator_runs: "2 \<le> length args \<Longrightarrow> listen (coordinatorSock uid) \<Longrightarrow> mrcoordinator listen uid args = CmdRuns"
  using wait_done_Some [of "\<lambda>_. False" 0]
  by (cases "wait_done (\<lambda>_. False) 0") (auto simp: mrcoordinator_def MakeCoordinator_def Coordinator_server_def Done_def)

text \<open>
  The example RPC: when the worker reaches the coordinator on its socket and the call runs the handler
  \<open>Example\<close>, \<open>CallExample\<close> prints 100, as its comment says; without a socket it ends with \<open>log.Fatal\<close>.
\<close>

lemma CallExample_prints:
  assumes "\<forall>c. dial (coordinatorSock uid) = Some c \<longrightarrow> (\<forall>args reply. c ''Coordinator.Example'' args reply = Some (Example Coordinator args reply))"
  shows "CallExample dial uid =
    (if dial (coordinatorSock uid) = None then Inl LogFatal else Inr (''reply.Y 100'' @ [CHR 0x0A]))"
proof (cases "dial (coordinatorSock uid)")
  case (Some c)
  have "Itoa_int (sint (100 :: 64 word)) = ''100''" by code_simp
  with Some assms show ?thesis by (simp add: CallExample_def call_def Example_def Let_def)
qed (simp add: CallExample_def call_def Let_def)

text \<open>The values of a key can reach \<open>Reduce\<close> of \<open>mtiming\<close> in any order.\<close>

lemma mtiming_Reduce_order: "mset values = mset values' \<Longrightarrow> mtiming_Reduce key values = mtiming_Reduce key' values'"
proof -
  assume "mset values = mset values'"
  then have "sort values = sort values'" by (intro properties_for_sort) simp_all
  then show ?thesis by (simp add: mtiming_Reduce_def Let_def go_copy_all)
qed

section \<open>Witnesses\<close>

definition ex_np :: np_state where
  "ex_np = \<lparr>nps_dir = [''pg-grimm.txt'', np_filename ''map'' 7, np_filename ''map'' 9], nps_alive = {7},
     nps_pc = (\<lambda>_. NpOut)(7 := NpWritten, 9 := NpWritten)\<rparr>"

lemma ex_np_reachable: "np_reachable ''map'' ex_np"
proof -
  let ?dir = "[''pg-grimm.txt'']" and ?f7 = "np_filename ''map'' 7" and ?f9 = "np_filename ''map'' 9"
  let ?s0 = "\<lparr>nps_dir = ?dir, nps_alive = {}, nps_pc = \<lambda>_. NpOut\<rparr>"
  have s0: "np_reachable ''map'' ?s0" by (rule np_init) (simp_all add: Sscanf_d_def np_pattern_def)
  have new: "np_filename phase p \<noteq> ''pg-grimm.txt''" for phase p by (simp add: np_filename_def)
  have s1: "np_reachable ''map'' (?s0\<lparr>nps_alive := {7}\<rparr>)" using np_born [OF s0, of 7] by simp
  have s2: "np_reachable ''map'' (?s0\<lparr>nps_alive := {9, 7}\<rparr>)" using np_born [OF s1, of 9] by simp
  have s3: "np_reachable ''map'' (?s0\<lparr>nps_alive := {9, 7}, nps_dir := ?dir @ [?f7], nps_pc := (\<lambda>_. NpOut)(7 := NpWritten)\<rparr>)"
    using np_enter [OF s2, of 7 "?dir @ [?f7]"] new by (simp add: np_write_def WriteFile_def fs_fine_def)
  have s4: "np_reachable ''map'' (?s0\<lparr>nps_alive := {9, 7}, nps_dir := ?dir @ [?f7, ?f9],
      nps_pc := (\<lambda>_. NpOut)(7 := NpWritten, 9 := NpWritten)\<rparr>)"
    using np_enter [OF s3, of 9 "?dir @ [?f7, ?f9]"] new by (simp add: np_write_def WriteFile_def fs_fine_def)
  have "({9, 7} :: int set) - {9} = {7}" by auto
  with np_crash [OF s4, of 9] show ?thesis by (simp add: ex_np_def)
qed


theorem jobcount_counts_witness:
  "\<exists>counts dir'. jobcount_run [4, 5, 4] (\<lambda>_. 0, [''pg-grimm.txt'']) = Inr (counts, dir') \<and> jobcount_Reduce True ''a'' [''x''] dir' = Inr ''3''"
proof -
  have "\<forall>f \<in> set [''pg-grimm.txt'']. \<not> is_job f" by (simp add: is_job_def)
  moreover have "Itoa (length [4 :: int, 5, 4]) = ''3''" by code_simp
  ultimately show ?thesis using jobcount_counts [of "[''pg-grimm.txt'']" "[4, 5, 4]" "''a''" "[''x'']"] by simp
qed

lemma CallExample_example:
  "CallExample (\<lambda>s. if s = ''/var/tmp/5840-mr-0'' then Some (\<lambda>name args reply. Some (Example Coordinator args reply)) else None) 0 =
     Inr (''reply.Y 100'' @ [CHR 0x0A])"
proof -
  have "coordinatorSock 0 = ''/var/tmp/5840-mr-0''" by code_simp
  then show ?thesis by (subst CallExample_prints) auto
qed

end
