(* ===== verification/Spec2Isabelle.thy ===== *)
theory Spec2Isabelle
  imports Porcupine Visualization Labrpc Labgob Raft_Peer Raft_Tester Raft_Config Kv_Cluster MapReduce Shard_Clerk
    Shardctrler_Tester Shardkv_Cluster Kvsrv Mr_Processes
begin

text \<open>
  A verification development for the laboratories of MIT 6.5840 in this repository (Go, under \<open>src/src\<close>).

  \<^bold>\<open>The program.\<close> The repository has a linearizability checker (\<open>porcupine\<close>) with a model of the key/value service
  (\<open>models/kv.go\<close>), a simulated network (\<open>labrpc\<close>) with its encoder (\<open>labgob\<close>), the tester of Raft
  (\<open>raft/config.go\<close>) around a peer whose consensus functions are still empty (\<open>raft/raft.go\<close>) and its stable storage
  (\<open>raft/persister.go\<close>), the testers, clerks and empty servers of the services built on Raft (\<open>kvraft\<close>,
  \<open>shardctrler\<close>, \<open>shardkv\<close>, \<open>kvsrv\<close>), and a sequential MapReduce with its applications (\<open>main/mrsequential.go\<close>, \<open>mr\<close>,
  \<open>mrapps\<close>). A test starts servers on the network through a configuration, drives them through clerks, records
  the operations and gives the history to the checker.

  \<^bold>\<open>Conventions.\<close> A panic is the value \<open>None\<close> of \<open>option\<close>, and where other failures matter too \<open>go_error\<close> tells a
  panic from \<open>log.Fatal\<close> and from the failure of a test. Objects shared by pointer live in stores (lists indexed
  by addresses). Goroutines are step functions of a state machine, and a schedule is the list of its events.
  Random numbers, random strings, the clock, the order in which a map is iterated, what \<open>sort.Sort\<close> does
  with equal elements, and what reflection, \<open>encoding/gob\<close> and the file system return, are arguments; the contracts that are
  needed are stated (\<open>sorts_by\<close>, round trips of the encoder). A loop that need not end is a
  \<open>partial_function\<close> whose value \<open>None\<close> means that it does not; no definition uses fuel. That \<open>checkSingle\<close> returns is
  proved, as are the exact conditions under which the loops of the clerks and of \<open>ticker\<close> do.

  \<^bold>\<open>Theories.\<close>
  \<^item> \<open>Lab_Prelude\<close>: slices, maps, loops, errors, and the locale \<open>go_sort\<close> of \<open>sort.Sort\<close>.
  \<^item> \<open>Bitset\<close>: \<open>porcupine/bitset.go\<close> on 64-bit words, shown to implement finite sets of numbers.
  \<^item> \<open>Porcupine_Model\<close>: \<open>porcupine/model.go\<close>, the entries of \<open>porcupine/checker.go\<close> and their order, and the
    definition of linearizability.
  \<^item> \<open>Linked_Entries\<close>: the doubly linked list of \<open>checker.go\<close> on an explicit heap; \<open>unlift\<close> undoes \<open>lift\<close>.
  \<^item> \<open>Check_Single\<close>, \<open>Search_Space\<close>, \<open>Check_Single_Correct\<close>: \<open>checkSingle\<close>, the abstract search that it implements, and the
    proof that it decides linearizability; its invariants include what is in \<open>longest\<close>.
  \<^item> \<open>Locality\<close>, \<open>Kv_Model\<close>: partitions of a history, \<open>models/kv.go\<close>, the abstract store of strings that it implements, and that
    partitioning by key is exact.
  \<^item> \<open>Check_Parallel\<close>: the goroutines of \<open>checkParallel\<close> under every schedule: termination, verdicts, absence of races.
  \<^item> \<open>Renumber\<close>, \<open>Porcupine\<close>: event histories and the entry points of \<open>porcupine.go\<close>, with the properties of the checker.
  \<^item> \<open>Visualization\<close>: \<open>computeVisualizationData\<close> of \<open>visualization.go\<close>; its panic is unreachable.
  \<^item> \<open>Labrpc\<close>: the network as a state machine whose threads are the requests in flight; at most once execution
    and reply, refusal by deleted servers, delivery on a reliable network.
  \<^item> \<open>Labgob\<close>: \<open>checkType\<close> and \<open>checkDefault\<close> on descriptions of types and values.
  \<^item> \<open>Raft_Peer\<close>: \<open>persister.go\<close> with the locale \<open>stable_storage\<close>, and the skeleton of \<open>raft.go\<close>.
  \<^item> \<open>Raft_Tester\<close>: the checks of \<open>raft/config.go\<close> on logs, snapshots, leaders, terms and agreement.
  \<^item> \<open>Tester_Net\<close>: the loops over end points that the testers share, on the locale \<open>switchboard\<close>.
  \<^item> \<open>Raft_Config\<close>: starting, crashing and connecting servers in \<open>raft/config.go\<close>; the states that the tester can reach
    and their invariants.
  \<^item> \<open>Cluster\<close>: what the testers of \<open>kvraft\<close> and \<open>shardctrler\<close> share, as the locale \<open>cluster\<close>: end points between servers, connecting
    them all and partitioning them, and the persisters that are saved for the servers.
  \<^item> \<open>Kv_Cluster\<close>: \<open>kvraft/config.go\<close> with the skeletons of \<open>kvraft/server.go\<close> and \<open>kvraft/client.go\<close>: partitions, clerks,
    starting and stopping servers.
  \<^item> \<open>Shard_Clerk\<close>: the clerks of \<open>shardctrler/client.go\<close> and \<open>shardkv/client.go\<close>.
  \<^item> \<open>Shardctrler_Tester\<close>: \<open>shardctrler/config.go\<close> with the skeleton of \<open>shardctrler/server.go\<close>: no operation panics in a state
    that the tester can reach, restarted controllers keep what was saved, and the leader ends up in a minority.
  \<^item> \<open>Decimal\<close>: \<open>strconv.Itoa\<close> and the verb \<open>%d\<close>, written and read back.
  \<^item> \<open>Shardkv_Tester\<close>, \<open>Shardkv_Cluster\<close>: \<open>shardkv/config.go\<close> with the skeleton of \<open>shardkv/server.go\<close>: groups of servers, their
    controllers and clerks; the first has the operations and what starting and stopping a server keeps, the second the
    initial configuration, the states that can be reached, and the properties.
  \<^item> \<open>Kvsrv\<close>: the package \<open>kvsrv\<close> with its single server; a request of a clerk is followed through the network.
  \<^item> \<open>MapReduce\<close>: \<open>mrsequential.go\<close>, the hash of \<open>mr/worker.go\<close> and five applications.
  \<^item> \<open>Mr_Processes\<close>: the applications \<open>jobcount.go\<close>, \<open>mtiming.go\<close> and \<open>rtiming.go\<close>, which count files of calls and of workers, and the
    skeletons of coordinator and worker in \<open>mr\<close> with the commands that start them.

  This theory imports them all and joins the network with the states of the tester.

  \<^bold>\<open>Interfaces.\<close> \<open>finite_set_impl\<close> is interpreted for the bit set, \<open>go_sort\<close> for the orders of entries and of keys, \<open>equal_model\<close> (what the search needs of a
  model's \<open>Equal\<close>) for \<open>KvModel\<close>, \<open>stable_storage\<close> for the persister, \<open>switchboard\<close> for the network, and \<open>cluster\<close> for the
  testers of \<open>kvraft\<close> and of \<open>shardctrler\<close>.

  \<^bold>\<open>Not modelled.\<close> The HTML page of the visualization and its writing; logging and printing; how \<open>net/rpc\<close> and the dynamic
  linker do their work, which are arguments; the commands under \<open>main\<close> for packages that are not in the
  repository (\<open>diskv\<close>, \<open>lockservice\<close>, \<open>pbservice\<close>, \<open>viewservice\<close>). Handlers and consensus functions that are empty in the repository
  are modelled as such.
\<close>

section \<open>Requests in a partitioned network\<close>


definition ex_request :: "(name, unit) thread" where
  "ex_request = \<lparr>th_req = \<lparr>rq_endname = EndName ''stale'', rq_svcMeth = ''Raft.RequestVote'', rq_argsType = (), rq_args = []\<rparr>,
     th_pc = RqNew, th_handler = HNone, th_replies = []\<rparr>"

lemma ex_endnames:
  "case make_config (\<lambda>_. None) [] ex_rnd 2 False :: go_error + (unit, unit, unit) config of
     Inl e \<Rightarrow> False | Inr cfg \<Rightarrow> cf_endnames cfg = [Some [''-'', ''-b''], Some [''a-'', ''a-b'']]"
  by code_simp


end
